theory Spec2Isabelle
  imports Complex_Main "HOL-Library.Signed_Division"
begin

section \<open>Subdomain deflation (amgcl/mpi/subdomain\_deflation.hpp, amgcl/mpi/deflation.hpp)\<close>

text \<open>
  Conventions of the embedding.  The C++ integer types (\<open>int\<close>, \<open>ptrdiff_t\<close>, \<open>long\<close>) are
  modelled by \<^typ>\<open>int\<close> where a value may be negative or comes from the caller, and by
  \<^typ>\<open>nat\<close> for loop counters, sizes and positions that the code only ever counts up from
  zero.  Division and remainder are the truncating \<open>sdiv\<close> and \<open>smod\<close> of C++.
  An access outside a \<open>std::vector\<close> and a division by zero are undefined behaviour in the
  source; the model returns an error value there, so that every statement about a result is
  a statement about a run in which the source is defined.
\<close>

datatype error = OutOfBounds | DivisionByZero

subsection \<open>Pointwise constant deflation vectors\<close>

text \<open>\<open>struct constant_deflation\<close>: the field, \<open>dim()\<close> and \<open>operator()(row, j)\<close>.\<close>

record constant_deflation =
  block_size :: int

definition dim_cd :: "constant_deflation \<Rightarrow> int" where
  "dim_cd cd = block_size cd"

definition constant_deflation_call :: "constant_deflation \<Rightarrow> int \<Rightarrow> int \<Rightarrow> error + int" where
  "constant_deflation_call cd row j =
     (if block_size cd = 0 then Inl DivisionByZero
      else Inr (if row smod block_size cd = j then 1 else 0))"

subsection \<open>Master topology\<close>

text \<open>
  Lines 463--475 of subdomain\_deflation.hpp.  \<open>comm_size\<close> and \<open>comm_rank\<close> are
  \<open>comm.size\<close> and \<open>comm.rank\<close>; \<open>direct_solver_comm_size\<close> is the static member
  \<open>DirectSolver::comm_size\<close>, which belongs to the external direct solver and is a parameter.
  On a master rank the member \<open>nslaves\<close> is overwritten with the length of the rank's own
  range; \<open>slaves_per_master\<close> is its value before that.
\<close>

record topology =
  nmasters :: int
  nslaves :: int
  master :: int
  slaves :: "int list"

definition slaves_per_master :: "int \<Rightarrow> int \<Rightarrow> int" where
  "slaves_per_master comm_size nm = (comm_size + nm - 1) sdiv nm"

definition master_topology :: "int \<Rightarrow> int \<Rightarrow> (int \<Rightarrow> int) \<Rightarrow> int \<Rightarrow> error + topology" where
  "master_topology comm_size comm_rank direct_solver_comm_size nz =
     (let nm = min comm_size (direct_solver_comm_size nz) in
      if nm = 0 then Inl DivisionByZero
      else let ns = slaves_per_master comm_size nm in
      if ns = 0 then Inl DivisionByZero
      else let m = comm_rank sdiv ns in
      if comm_rank < nm then
        (let sl = map (\<lambda>p. min (p * ns) comm_size) [0..nm] in
         if 0 \<le> comm_rank \<and> nat comm_rank + 1 < length sl
         then Inr \<lparr>nmasters = nm, nslaves = sl ! (nat comm_rank + 1) - sl ! nat comm_rank,
                   master = m, slaves = sl\<rparr>
         else Inl OutOfBounds)
      else Inr \<lparr>nmasters = nm, nslaves = ns, master = m, slaves = []\<rparr>)"



subsection \<open>Library routines used by the setup\<close>

fun foldE :: "('a \<Rightarrow> 's \<Rightarrow> error + 's) \<Rightarrow> 'a list \<Rightarrow> 's \<Rightarrow> error + 's" where
  "foldE f [] s = Inr s"
| "foldE f (x # xs) s = (case f x s of Inl e \<Rightarrow> Inl e | Inr s' \<Rightarrow> foldE f xs s')"

definition upper_bound :: "'a::linorder list \<Rightarrow> 'a \<Rightarrow> nat" where
  "upper_bound xs c = length (takeWhile (\<lambda>x. x \<le> c) xs)"

fun partial_sum_from :: "'a::monoid_add \<Rightarrow> 'a list \<Rightarrow> 'a list" where
  "partial_sum_from acc [] = []"
| "partial_sum_from acc (x # xs) = (acc + x) # partial_sum_from (acc + x) xs"

definition partial_sum :: "'a::monoid_add list \<Rightarrow> 'a list" where
  "partial_sum xs = partial_sum_from 0 xs"

definition rotate_last_to_front :: "'a list \<Rightarrow> 'a list" where
  "rotate_last_to_front xs = (if xs = [] then [] else last xs # butlast xs)"

definition all_gather :: "nat \<Rightarrow> 'a \<Rightarrow> 'a list \<Rightarrow> 'a list" where
  "all_gather rank own others = others[rank := own]"

subsection \<open>The map of remote columns\<close>

fun rc_insert :: "int \<Rightarrow> (int \<times> nat) list \<Rightarrow> (int \<times> nat) list" where
  "rc_insert c [] = [(c, 0)]"
| "rc_insert c ((k, g) # m) =
     (if c < k then (c, 0) # (k, g) # m
      else if c = k then (k, g) # m
      else (k, g) # rc_insert c m)"

definition rc_lookup :: "(int \<times> nat) list \<Rightarrow> int \<Rightarrow> nat" where
  "rc_lookup m c = (case map_of m c of Some g \<Rightarrow> g | None \<Rightarrow> 0)"

subsection \<open>First pass\<close>

definition owner :: "int list \<Rightarrow> int \<Rightarrow> int" where
  "owner domain c = int (upper_bound domain c) - 1"

record first_pass_state =
  loc_nnz :: nat
  rem_nnz :: nat
  rc :: "(int \<times> nat) list"
  ptr1 :: "nat list"
  marker1 :: "int list"

definition first_pass_entry ::
  "int list \<Rightarrow> nat list \<Rightarrow> nat \<Rightarrow> nat \<Rightarrow> int \<times> real \<Rightarrow> first_pass_state
     \<Rightarrow> error + first_pass_state" where
  "first_pass_entry domain dv_size rank i a s =
     (let c = fst a;
          d = owner domain c;
          s1 = (if d = int rank then s\<lparr>loc_nnz := loc_nnz s + 1\<rparr>
                else s\<lparr>rem_nnz := rem_nnz s + 1, rc := rc_insert c (rc s)\<rparr>)
      in if 0 \<le> d \<and> nat d < length (marker1 s1) then
           (if marker1 s1 ! nat d \<noteq> int i then
              (if nat d < length dv_size \<and> i + 1 < length (ptr1 s1) then
                 Inr (s1\<lparr>marker1 := (marker1 s1)[nat d := int i],
                         ptr1 := (ptr1 s1)[i + 1 := ptr1 s1 ! (i + 1) + dv_size ! nat d]\<rparr>)
               else Inl OutOfBounds)
            else Inr s1)
         else Inl OutOfBounds)"

definition first_pass ::
  "int list \<Rightarrow> nat list \<Rightarrow> nat \<Rightarrow> nat \<Rightarrow> (int \<times> real) list list \<Rightarrow> error + first_pass_state" where
  "first_pass domain dv_size rank nz Astrip =
     foldE (\<lambda>i. foldE (first_pass_entry domain dv_size rank i) (Astrip ! i))
       [0..<length Astrip]
       \<lparr>loc_nnz = 0, rem_nnz = 0, rc = [],
        ptr1 = replicate (length Astrip + 1) 0, marker1 = replicate nz (- 1)\<rparr>"

subsection \<open>Renumbering of the remote columns\<close>

function advance_nbr :: "int list \<Rightarrow> int \<Rightarrow> nat \<Rightarrow> error + nat" where
  "advance_nbr domain c cur_nbr =
     (if cur_nbr + 1 < length domain then
        (if domain ! (cur_nbr + 1) \<le> c then advance_nbr domain c (cur_nbr + 1) else Inr cur_nbr)
      else Inl OutOfBounds)"
  by pat_completeness auto
termination
  by (relation "measure (\<lambda>(domain, c, cur_nbr). length domain - cur_nbr)") auto

declare advance_nbr.simps [simp del]

record renumber_state =
  rn_rc :: "(int \<times> nat) list"
  rn_id :: nat
  cur_nbr :: nat
  recv_cols :: "int list"
  num_recv :: "nat list"

definition renumber_step :: "int list \<Rightarrow> int \<times> nat \<Rightarrow> renumber_state \<Rightarrow> error + renumber_state" where
  "renumber_step domain e s =
     (case advance_nbr domain (fst e) (cur_nbr s) of
        Inl err \<Rightarrow> Inl err
      | Inr cur \<Rightarrow>
          if cur < length (num_recv s) then
            Inr \<lparr>rn_rc = rn_rc s @ [(fst e, rn_id s)], rn_id = rn_id s + 1, cur_nbr = cur,
                 recv_cols = recv_cols s @ [fst e],
                 num_recv = (num_recv s)[cur := num_recv s ! cur + 1]\<rparr>
          else Inl OutOfBounds)"

definition renumber :: "int list \<Rightarrow> nat \<Rightarrow> (int \<times> nat) list \<Rightarrow> error + renumber_state" where
  "renumber domain comm_size m =
     foldE (renumber_step domain) m
       \<lparr>rn_rc = [], rn_id = 0, cur_nbr = 0, recv_cols = [], num_recv = replicate comm_size 0\<rparr>"


subsection \<open>Communication pattern\<close>

record exchange =
  nbr :: "nat list"
  xptr :: "nat list"

definition comm_pattern_step ::
  "nat list list \<Rightarrow> nat \<Rightarrow> nat \<Rightarrow> exchange \<times> exchange \<Rightarrow> error + exchange \<times> exchange" where
  "comm_pattern_step comm_matrix rank i rs =
     (if rank < length comm_matrix \<and> i < length (comm_matrix ! rank)
         \<and> i < length comm_matrix \<and> rank < length (comm_matrix ! i) then
        (let recv = fst rs; send = snd rs;
             nr = comm_matrix ! rank ! i;
             ns = comm_matrix ! i ! rank;
             recv' = (if nr \<noteq> 0
                      then \<lparr>nbr = nbr recv @ [i], xptr = xptr recv @ [last (xptr recv) + nr]\<rparr>
                      else recv);
             send' = (if ns \<noteq> 0
                      then \<lparr>nbr = nbr send @ [i], xptr = xptr send @ [last (xptr send) + ns]\<rparr>
                      else send)
         in Inr (recv', send'))
      else Inl OutOfBounds)"

definition comm_pattern :: "nat list list \<Rightarrow> nat \<Rightarrow> nat \<Rightarrow> error + exchange \<times> exchange" where
  "comm_pattern comm_matrix comm_size rank =
     foldE (comm_pattern_step comm_matrix rank) [0..<comm_size]
       (\<lparr>nbr = [], xptr = [0]\<rparr>, \<lparr>nbr = [], xptr = [0]\<rparr>)"

subsection \<open>Filling the rows of AZ\<close>

record az_build =
  marker :: "int list"
  az_row_end :: nat
  az_ptr :: "nat list"
  az_col :: "nat list"
  az_val :: "real list"

definition az_touch :: "nat \<Rightarrow> nat \<Rightarrow> real \<Rightarrow> 'a az_build_scheme \<Rightarrow> error + 'a az_build_scheme" where
  "az_touch az_row_beg k w s =
     (if k < length (marker s) then
        (if marker s ! k < int az_row_beg then
           (if az_row_end s < length (az_col s) \<and> az_row_end s < length (az_val s) then
              Inr (s\<lparr>marker := (marker s)[k := int (az_row_end s)],
                     az_col := (az_col s)[az_row_end s := k],
                     az_val := (az_val s)[az_row_end s := w],
                     az_row_end := az_row_end s + 1\<rparr>)
            else Inl OutOfBounds)
         else
           (let m = nat (marker s ! k) in
            if m < length (az_val s) then Inr (s\<lparr>az_val := (az_val s)[m := az_val s ! m + w]\<rparr>)
            else Inl OutOfBounds))
      else Inl OutOfBounds)"

subsection \<open>Second pass\<close>

definition is_local :: "int list \<Rightarrow> nat \<Rightarrow> int \<Rightarrow> bool" where
  "is_local domain rank c = (domain ! rank \<le> c \<and> c < domain ! (rank + 1))"

record second_pass_state = az_build +
  aloc_ptr :: "nat list"
  aloc_col :: "nat list"
  aloc_val :: "real list"
  arem_ptr :: "nat list"
  arem_col :: "nat list"
  arem_val :: "real list"

definition second_pass_entry ::
  "int list \<Rightarrow> nat list \<Rightarrow> nat \<Rightarrow> nat \<Rightarrow> (nat \<Rightarrow> nat \<Rightarrow> real) \<Rightarrow> (int \<times> nat) list \<Rightarrow> nat
     \<Rightarrow> int \<times> real \<Rightarrow> second_pass_state \<Rightarrow> error + second_pass_state" where
  "second_pass_entry domain dv_start ndv rank def_vec rcm az_row_beg a s =
     (let c = fst a; v = snd a in
      if rank + 1 < length domain then
        (if is_local domain rank c then
           (let loc_c = nat (c - domain ! rank);
                s1 = s\<lparr>aloc_col := aloc_col s @ [loc_c], aloc_val := aloc_val s @ [v]\<rparr>
            in if rank < length dv_start then
                 foldE (\<lambda>j. az_touch az_row_beg (dv_start ! rank + j) (v * def_vec loc_c j))
                   [0..<ndv] s1
               else Inl OutOfBounds)
         else Inr (s\<lparr>arem_col := arem_col s @ [rc_lookup rcm c], arem_val := arem_val s @ [v]\<rparr>))
      else Inl OutOfBounds)"

definition second_pass_row ::
  "int list \<Rightarrow> nat list \<Rightarrow> nat \<Rightarrow> nat \<Rightarrow> (nat \<Rightarrow> nat \<Rightarrow> real) \<Rightarrow> (int \<times> nat) list
     \<Rightarrow> (int \<times> real) list list \<Rightarrow> nat \<Rightarrow> second_pass_state \<Rightarrow> error + second_pass_state" where
  "second_pass_row domain dv_start ndv rank def_vec rcm Astrip i s =
     (if i < length (az_ptr s) then
        (let az_row_beg = az_ptr s ! i in
         case foldE (second_pass_entry domain dv_start ndv rank def_vec rcm az_row_beg)
                (Astrip ! i) (s\<lparr>az_row_end := az_row_beg\<rparr>) of
           Inl e \<Rightarrow> Inl e
         | Inr s' \<Rightarrow>
             Inr (s'\<lparr>az_ptr := (az_ptr s')[i := az_row_end s'],
                     aloc_ptr := aloc_ptr s' @ [length (aloc_col s')],
                     arem_ptr := arem_ptr s' @ [length (arem_col s')]\<rparr>))
      else Inl OutOfBounds)"

definition second_pass ::
  "int list \<Rightarrow> nat list \<Rightarrow> nat \<Rightarrow> nat \<Rightarrow> nat \<Rightarrow> (nat \<Rightarrow> nat \<Rightarrow> real) \<Rightarrow> (int \<times> nat) list
     \<Rightarrow> nat list \<Rightarrow> (int \<times> real) list list \<Rightarrow> error + second_pass_state" where
  "second_pass domain dv_start ndv nz rank def_vec rcm ptr_counts Astrip =
     (let p = partial_sum ptr_counts in
      foldE (second_pass_row domain dv_start ndv rank def_vec rcm Astrip) [0..<length Astrip]
        \<lparr>marker = replicate nz (- 1), az_row_end = 0, az_ptr = p,
         az_col = replicate (last p) 0, az_val = replicate (last p) 0,
         aloc_ptr = [0], aloc_col = [], aloc_val = [],
         arem_ptr = [0], arem_col = [], arem_val = []\<rparr>)"

subsection \<open>Exchange of deflation vectors and the remote part of AZ\<close>

definition zptr_step ::
  "nat list \<Rightarrow> exchange \<Rightarrow> nat \<Rightarrow> nat list \<times> nat list \<Rightarrow> error + nat list \<times> nat list" where
  "zptr_step dv_size recv i zz =
     (let zrecv_ptr = fst zz; zcol_ptr = snd zz in
      if i < length (nbr recv) \<and> i + 1 < length (xptr recv) \<and> nbr recv ! i < length dv_size
         \<and> i + 1 < length zrecv_ptr then
        (let size = dv_size ! (nbr recv ! i) * (xptr recv ! (i + 1) - xptr recv ! i)
         in Inr (zrecv_ptr[i + 1 := zrecv_ptr ! i + size],
                 fold (\<lambda>j z. z @ [last z + dv_size ! (nbr recv ! i)]) [0..<size] zcol_ptr))
      else Inl OutOfBounds)"

definition zptr :: "nat list \<Rightarrow> exchange \<Rightarrow> error + nat list \<times> nat list" where
  "zptr dv_size recv =
     foldE (zptr_step dv_size recv) [0..<length (nbr recv)]
       (replicate (length (nbr recv) + 1) 0, [0])"

definition row_entries :: "nat list \<Rightarrow> 'c list \<Rightarrow> real list \<Rightarrow> nat \<Rightarrow> error + ('c \<times> real) list" where
  "row_entries p cs vs i =
     (if i + 1 < length p \<and> p ! (i + 1) \<le> length cs \<and> p ! (i + 1) \<le> length vs then
        Inr (zip (take (p ! (i + 1) - p ! i) (drop (p ! i) cs))
                 (take (p ! (i + 1) - p ! i) (drop (p ! i) vs)))
      else Inl OutOfBounds)"

definition third_pass_entry ::
  "nat list \<Rightarrow> nat list \<Rightarrow> exchange \<Rightarrow> nat list \<Rightarrow> real list \<Rightarrow> nat \<Rightarrow> nat \<times> real
     \<Rightarrow> 'a az_build_scheme \<Rightarrow> error + 'a az_build_scheme" where
  "third_pass_entry dv_size dv_start recv zcol_ptr zrecv az_row_beg a s =
     (let c = fst a; v = snd a; ub = upper_bound (xptr recv) c in
      if 0 < ub \<and> ub - 1 < length (nbr recv) then
        (let d = nbr recv ! (ub - 1) in
         if c < length zcol_ptr \<and> d < length dv_start \<and> d < length dv_size then
           foldE (\<lambda>j s. if zcol_ptr ! c + j < length zrecv
                         then az_touch az_row_beg (dv_start ! d + j) (v * zrecv ! (zcol_ptr ! c + j)) s
                         else Inl OutOfBounds)
             [0..<dv_size ! d] s
         else Inl OutOfBounds)
      else Inl OutOfBounds)"

definition third_pass_row ::
  "nat list \<Rightarrow> nat list \<Rightarrow> exchange \<Rightarrow> nat list \<Rightarrow> real list \<Rightarrow> nat list \<Rightarrow> nat list \<Rightarrow> real list
     \<Rightarrow> nat \<Rightarrow> 'a az_build_scheme \<Rightarrow> error + 'a az_build_scheme" where
  "third_pass_row dv_size dv_start recv zcol_ptr zrecv rem_ptr rem_col rem_val i s =
     (if i < length (az_ptr s) then
        (let az_row_beg = az_ptr s ! i in
         case row_entries rem_ptr rem_col rem_val i of
           Inl e \<Rightarrow> Inl e
         | Inr row \<Rightarrow>
            (case foldE (third_pass_entry dv_size dv_start recv zcol_ptr zrecv az_row_beg) row
                    (s\<lparr>az_row_end := az_row_beg\<rparr>) of
               Inl e \<Rightarrow> Inl e
             | Inr s' \<Rightarrow> Inr (s'\<lparr>az_ptr := (az_ptr s')[i := az_row_end s']\<rparr>)))
      else Inl OutOfBounds)"

definition third_pass ::
  "nat list \<Rightarrow> nat list \<Rightarrow> exchange \<Rightarrow> nat list \<Rightarrow> real list \<Rightarrow> nat list \<Rightarrow> nat list \<Rightarrow> real list
     \<Rightarrow> nat \<Rightarrow> 'a az_build_scheme \<Rightarrow> error + 'a az_build_scheme" where
  "third_pass dv_size dv_start recv zcol_ptr zrecv rem_ptr rem_col rem_val nrows s =
     foldE (third_pass_row dv_size dv_start recv zcol_ptr zrecv rem_ptr rem_col rem_val)
       [0..<nrows] (s\<lparr>marker := replicate (length (marker s)) (- 1)\<rparr>)"

definition fix_ptr :: "nat list \<Rightarrow> nat list" where
  "fix_ptr p = (rotate_last_to_front p)[0 := 0]"


subsection \<open>The setup of one rank up to the assembled AZ\<close>

record crs =
  nrows :: nat
  ncols :: nat
  ptr :: "nat list"
  col :: "nat list"
  val :: "real list"

record setup_result =
  r_domain :: "int list"
  r_dv_size :: "nat list"
  r_dv_start :: "nat list"
  r_rc :: "(int \<times> nat) list"
  r_recv_cols :: "int list"
  r_num_recv :: "nat list"
  r_comm_matrix :: "nat list list"
  r_recv :: exchange
  r_send :: exchange
  r_aloc :: crs
  r_arem :: crs
  r_az :: crs
  r_ptr_alloc :: "nat list"
  r_ptr_loc :: "nat list"
  r_ptr_rem :: "nat list"
  r_zcol_ptr :: "nat list"
  r_zrecv :: "real list"

definition subdomain_deflation_setup ::
  "nat \<Rightarrow> nat \<Rightarrow> nat list \<Rightarrow> nat list \<Rightarrow> nat list list \<Rightarrow> (nat \<Rightarrow> real)
     \<Rightarrow> (int \<times> real) list list \<Rightarrow> nat \<Rightarrow> (nat \<Rightarrow> nat \<Rightarrow> real) \<Rightarrow> error + setup_result" where
  "subdomain_deflation_setup comm_size rank nrows_all ndv_all num_recv_all zpayload Astrip ndv def_vec =
     (let dv_size = all_gather rank ndv ndv_all;
          dv_start = 0 # partial_sum dv_size;
          nz = last dv_start;
          domain = partial_sum (0 # map int (all_gather rank (length Astrip) nrows_all))
      in
      case first_pass domain dv_size rank nz Astrip of Inl e \<Rightarrow> Inl e | Inr s1 \<Rightarrow>
      case renumber domain comm_size (rc s1) of Inl e \<Rightarrow> Inl e | Inr rn \<Rightarrow>
      let comm_matrix = all_gather rank (num_recv rn) num_recv_all in
      case comm_pattern comm_matrix comm_size rank of Inl e \<Rightarrow> Inl e | Inr (recv, send) \<Rightarrow>
      case second_pass domain dv_start ndv nz rank def_vec (rn_rc rn) (ptr1 s1) Astrip of
        Inl e \<Rightarrow> Inl e | Inr s2 \<Rightarrow>
      case zptr dv_size recv of Inl e \<Rightarrow> Inl e | Inr (zrecv_ptr, zcol_ptr) \<Rightarrow>
      let zrecv = map zpayload [0..<last zrecv_ptr] in
      case third_pass dv_size dv_start recv zcol_ptr zrecv (arem_ptr s2) (arem_col s2) (arem_val s2)
             (length Astrip) s2 of
        Inl e \<Rightarrow> Inl e | Inr s3 \<Rightarrow>
      Inr \<lparr>r_domain = domain, r_dv_size = dv_size, r_dv_start = dv_start,
           r_rc = rn_rc rn, r_recv_cols = recv_cols rn, r_num_recv = num_recv rn,
           r_comm_matrix = comm_matrix, r_recv = recv, r_send = send,
           r_aloc = \<lparr>nrows = length Astrip, ncols = length Astrip, ptr = aloc_ptr s2,
                      col = aloc_col s2, val = aloc_val s2\<rparr>,
           r_arem = \<lparr>nrows = length Astrip, ncols = length (rn_rc rn), ptr = arem_ptr s2,
                      col = arem_col s2, val = arem_val s2\<rparr>,
           r_az = \<lparr>nrows = length Astrip, ncols = nz, ptr = fix_ptr (az_ptr s3),
                    col = az_col s3, val = az_val s3\<rparr>,
           r_ptr_alloc = partial_sum (ptr1 s1), r_ptr_loc = az_ptr s2, r_ptr_rem = az_ptr s3,
           r_zcol_ptr = zcol_ptr, r_zrecv = zrecv\<rparr>)"

subsection \<open>Assembly of the local rows of E\<close>

definition e_adjacent :: "nat list list \<Rightarrow> nat \<Rightarrow> nat \<Rightarrow> bool" where
  "e_adjacent comm_matrix rank j =
     (j = rank \<or> comm_matrix ! rank ! j \<noteq> 0 \<or> comm_matrix ! j ! rank \<noteq> 0)"

definition in_comm_matrix :: "nat list list \<Rightarrow> nat \<Rightarrow> nat \<Rightarrow> bool" where
  "in_comm_matrix comm_matrix rank j =
     (rank < length comm_matrix \<and> j < length (comm_matrix ! rank)
      \<and> j < length comm_matrix \<and> rank < length (comm_matrix ! j))"

definition count_eptr_step ::
  "nat list list \<Rightarrow> nat list \<Rightarrow> nat \<Rightarrow> nat \<Rightarrow> nat \<Rightarrow> nat list \<Rightarrow> error + nat list" where
  "count_eptr_step comm_matrix dv_size ndv rank j eptr =
     (if in_comm_matrix comm_matrix rank j then
        (if e_adjacent comm_matrix rank j then
           foldE (\<lambda>k e. if k + 1 < length e \<and> j < length dv_size
                         then Inr (e[k + 1 := e ! (k + 1) + dv_size ! j])
                         else Inl OutOfBounds)
             [0..<ndv] eptr
         else Inr eptr)
      else Inl OutOfBounds)"

definition count_eptr :: "nat list list \<Rightarrow> nat list \<Rightarrow> nat \<Rightarrow> nat \<Rightarrow> nat \<Rightarrow> error + nat list" where
  "count_eptr comm_matrix dv_size ndv comm_size rank =
     foldE (count_eptr_step comm_matrix dv_size ndv rank) [0..<comm_size] (replicate (ndv + 1) 0)"

definition erow_entry ::
  "nat \<Rightarrow> (nat \<Rightarrow> nat \<Rightarrow> real) \<Rightarrow> nat \<Rightarrow> nat \<times> real \<Rightarrow> real list list \<Rightarrow> error + real list list" where
  "erow_entry ndv def_vec i a erow =
     foldE (\<lambda>j er. if j < length er \<and> fst a < length (er ! j)
                    then Inr (er[j := (er ! j)[fst a := er ! j ! fst a + snd a * def_vec i j]])
                    else Inl OutOfBounds)
       [0..<ndv] erow"

definition build_erow ::
  "nat \<Rightarrow> nat \<Rightarrow> (nat \<Rightarrow> nat \<Rightarrow> real) \<Rightarrow> crs \<Rightarrow> error + real list list" where
  "build_erow ndv nz def_vec az_m =
     foldE (\<lambda>i er. case row_entries (ptr az_m) (col az_m) (val az_m) i of
                      Inl e \<Rightarrow> Inl e
                    | Inr row \<Rightarrow> foldE (erow_entry ndv def_vec i) row er)
       [0..<nrows az_m] (replicate ndv (replicate nz 0))"

record e_fill =
  ecol :: "nat list"
  eval :: "real list"
  row_head :: nat

definition e_put :: "real list list \<Rightarrow> nat \<Rightarrow> nat \<Rightarrow> e_fill \<Rightarrow> error + e_fill" where
  "e_put erow i c s =
     (if row_head s < length (ecol s) \<and> row_head s < length (eval s)
         \<and> i < length erow \<and> c < length (erow ! i) then
        Inr \<lparr>ecol = (ecol s)[row_head s := c], eval = (eval s)[row_head s := erow ! i ! c],
             row_head = row_head s + 1\<rparr>
      else Inl OutOfBounds)"

definition e_block ::
  "nat list list \<Rightarrow> nat list \<Rightarrow> nat list \<Rightarrow> real list list \<Rightarrow> nat \<Rightarrow> nat \<Rightarrow> nat \<Rightarrow> e_fill
     \<Rightarrow> error + e_fill" where
  "e_block comm_matrix dv_size dv_start erow rank i j s =
     (if in_comm_matrix comm_matrix rank j then
        (if e_adjacent comm_matrix rank j then
           (if j < length dv_size \<and> j < length dv_start then
              foldE (\<lambda>k. e_put erow i (dv_start ! j + k)) [0..<dv_size ! j] s
            else Inl OutOfBounds)
         else Inr s)
      else Inl OutOfBounds)"

definition e_row ::
  "nat list list \<Rightarrow> nat list \<Rightarrow> nat list \<Rightarrow> real list list \<Rightarrow> nat \<Rightarrow> nat \<Rightarrow> nat list \<Rightarrow> nat
     \<Rightarrow> e_fill \<Rightarrow> error + e_fill" where
  "e_row comm_matrix dv_size dv_start erow comm_size rank eptr i s =
     (if i < length eptr then
        foldE (e_block comm_matrix dv_size dv_start erow rank i) [0..<comm_size]
          (s\<lparr>row_head := eptr ! i\<rparr>)
      else Inl OutOfBounds)"

record e_strip =
  e_ptr :: "nat list"
  e_col :: "nat list"
  e_val :: "real list"

definition assemble_e ::
  "nat list list \<Rightarrow> nat list \<Rightarrow> nat list \<Rightarrow> real list list \<Rightarrow> nat \<Rightarrow> nat \<Rightarrow> nat
     \<Rightarrow> error + e_strip" where
  "assemble_e comm_matrix dv_size dv_start erow ndv comm_size rank =
     (case count_eptr comm_matrix dv_size ndv comm_size rank of
        Inl e \<Rightarrow> Inl e
      | Inr counts \<Rightarrow>
         (let eptr = partial_sum counts in
          case foldE (e_row comm_matrix dv_size dv_start erow comm_size rank eptr) [0..<ndv]
                 \<lparr>ecol = replicate (last eptr) 0, eval = replicate (last eptr) 0, row_head = 0\<rparr> of
            Inl e \<Rightarrow> Inl e
          | Inr s \<Rightarrow> Inr \<lparr>e_ptr = eptr, e_col = ecol s, e_val = eval s\<rparr>))"


subsection \<open>The online operator\<close>

text \<open>
  \<open>value_type\<close> is modelled by the reals: sums and products are those of exact arithmetic,
  and a statement that two vectors are equal disregards rounding.
\<close>

fun mapE :: "('a \<Rightarrow> error + 'b) \<Rightarrow> 'a list \<Rightarrow> error + 'b list" where
  "mapE f [] = Inr []"
| "mapE f (x # xs) =
     (case f x of Inl e \<Rightarrow> Inl e
      | Inr y \<Rightarrow> (case mapE f xs of Inl e \<Rightarrow> Inl e | Inr ys \<Rightarrow> Inr (y # ys)))"

text \<open>
  Modelled from the spec: \<open>backend::spmv\<close> belongs to the backend, whose source is not part of
  the two files.  The spec gives \<open>spmv: y \<leftarrow> \<alpha> \<cdot> A \<cdot> x + \<beta> \<cdot> y\<close> for a CSR matrix \<open>A\<close>; a column
  outside \<open>x\<close> or a row outside \<open>y\<close> is an error.
\<close>

definition spmv_row :: "real \<Rightarrow> crs \<Rightarrow> real list \<Rightarrow> real \<Rightarrow> real list \<Rightarrow> nat \<Rightarrow> error + real" where
  "spmv_row alpha M x beta y i =
     (case row_entries (ptr M) (col M) (val M) i of
        Inl e \<Rightarrow> Inl e
      | Inr row \<Rightarrow>
          if (\<forall>a \<in> set row. fst a < length x) \<and> i < length y
          then Inr (alpha * sum_list (map (\<lambda>a. snd a * x ! fst a) row) + beta * y ! i)
          else Inl OutOfBounds)"

definition spmv :: "real \<Rightarrow> crs \<Rightarrow> real list \<Rightarrow> real \<Rightarrow> real list \<Rightarrow> error + real list" where
  "spmv alpha M x beta y = mapE (spmv_row alpha M x beta y) [0..<nrows M]"

text \<open>
  \<open>mul\<close> of subdomain\_deflation.hpp (lines 693--708).  \<open>start_exchange\<close> and \<open>finish_exchange\<close>
  move values between ranks and do not touch \<open>x\<close> or \<open>y\<close>; \<open>recv_val\<close> is the content of
  \<open>recv.val\<close> once \<open>finish_exchange\<close> has returned.  \<open>P->top_matrix()\<close> is the local matrix
  the AMG hierarchy was built from, and \<open>dv\<close> is the backend copy of \<open>recv.val\<close>.
\<close>

definition mul :: "crs \<Rightarrow> crs \<Rightarrow> real list \<Rightarrow> real \<Rightarrow> real list \<Rightarrow> real \<Rightarrow> real list \<Rightarrow> error + real list" where
  "mul top_matrix Arem recv_val alpha x beta y =
     (case spmv alpha top_matrix x beta y of
        Inl e \<Rightarrow> Inl e
      | Inr y1 \<Rightarrow> if recv_val \<noteq> [] then spmv alpha Arem recv_val 1 y1 else Inr y1)"

text \<open>
  The call operator.  The Krylov driver is external: it is a parameter that receives the
  operator, the preconditioner, the right-hand side and the initial approximation, and returns
  its convergence tuple and the approximation it has computed.  The two objects the code can
  hand over are the \<open>subdomain_deflation\<close> object itself and the local AMG hierarchy \<open>*P\<close>.
  \<open>postprocess\<close> is the member function of that name.
\<close>

datatype object = This | AMG_P

type_synonym driver = "object \<Rightarrow> object \<Rightarrow> real list \<Rightarrow> real list \<Rightarrow> (nat \<times> real) \<times> real list"

definition call_operator ::
  "driver \<Rightarrow> (real list \<Rightarrow> real list \<Rightarrow> real list) \<Rightarrow> real list \<Rightarrow> real list
     \<Rightarrow> (nat \<times> real) \<times> real list" where
  "call_operator solve postprocess rhs x =
     (case solve This AMG_P rhs x of (cnv, x1) \<Rightarrow> (cnv, postprocess rhs x1))"

text \<open>The same operator in deflation.hpp (lines 317--323), and the \<open>apply\<close> of lines 325--328.\<close>

definition call_operator_deflation ::
  "driver \<Rightarrow> (real list \<Rightarrow> real list \<Rightarrow> real list) \<Rightarrow> real list \<Rightarrow> real list
     \<Rightarrow> (nat \<times> real) \<times> real list" where
  "call_operator_deflation solve postprocess rhs x =
     (case solve This This rhs x of (cnv, x1) \<Rightarrow> (cnv, postprocess rhs x1))"

definition apply_deflation :: "(real list \<Rightarrow> real list \<Rightarrow> real list) \<Rightarrow> real list \<Rightarrow> real list \<Rightarrow> real list" where
  "apply_deflation P_apply rhs x = P_apply rhs x"

subsection \<open>The projection\<close>

text \<open>
  The deflation vectors of a rank (lines 184--191): \<open>Z[j][i] = def_vec(i, j)\<close>.
\<close>

definition deflation_vectors :: "nat \<Rightarrow> nat \<Rightarrow> (nat \<Rightarrow> nat \<Rightarrow> real) \<Rightarrow> real list list" where
  "deflation_vectors n ndv def_vec = map (\<lambda>j. map (\<lambda>i. def_vec i j) [0..<n]) [0..<ndv]"

text \<open>
  Modelled from the spec: \<open>backend::inner_product\<close> belongs to the backend.  The spec has
  \<open>df[j] = \<langle>x, Z[j]\<rangle>\<close>, the sum of the products of the entries of two local vectors.
\<close>

definition inner_product :: "real list \<Rightarrow> real list \<Rightarrow> real" where
  "inner_product x y = sum_list (map (\<lambda>a. fst a * snd a) (zip x y))"

text \<open>Lines 715--716: \<open>df[j] = inner_product(x, Z[j])\<close> for \<open>j < ndv\<close>.\<close>

definition local_inner_products :: "real list list \<Rightarrow> real list \<Rightarrow> real list" where
  "local_inner_products Z x = map (inner_product x) Z"

text \<open>
  \<open>coarse_solve\<close> (lines 780--832) is a collective operation; it is modelled for all ranks at
  once.  \<open>fs ! p\<close> is the argument \<open>f\<close> of rank \<open>p\<close> and \<open>x\<close> is the content of the argument \<open>x\<close>
  on rank 0 before the call.  \<open>MPI_Gatherv\<close> writes the values of rank \<open>p\<close> into \<open>x\<close> at
  \<open>dv_start[p]\<close>.  Rank 0 then sends to master \<open>m\<close> the part of \<open>x\<close> from \<open>dv_start[slaves[m]]\<close> to
  \<open>dv_start[slaves[m + 1]]\<close>, which is the \<open>cf\<close> of that master; the masters call the direct
  solver, which fills their \<open>cx\<close>; rank 0 receives the \<open>cx\<close> of master \<open>m\<close> into the same part of
  \<open>x\<close>, and \<open>MPI_Bcast\<close> gives every rank the \<open>x\<close> of rank 0, which is the result.  \<open>topo\<close> is
  the topology of rank 0; \<open>nmasters\<close> and \<open>slaves\<close> have the same content on every master rank,
  as lines 463--472 do not depend on the rank.  The requests and tags of the messages are not
  modelled.

  The direct solver is external.  It is a parameter that maps the \<open>cf\<close> of the masters, in rank
  order, to their \<open>cx\<close>.
\<close>

definition write_at :: "real list \<Rightarrow> nat \<Rightarrow> real list \<Rightarrow> error + real list" where
  "write_at x b ys =
     (if b + length ys \<le> length x then Inr (take b x @ ys @ drop (b + length ys) x)
      else Inl OutOfBounds)"

definition gatherv :: "nat list \<Rightarrow> real list list \<Rightarrow> real list \<Rightarrow> error + real list" where
  "gatherv dv_start fs x =
     foldE (\<lambda>p x. if p < length dv_start then write_at x (dv_start ! p) (fs ! p) else Inl OutOfBounds)
       [0..<length fs] x"

definition slave_start :: "nat list \<Rightarrow> topology \<Rightarrow> nat \<Rightarrow> nat" where
  "slave_start dv_start topo m = dv_start ! nat (slaves topo ! m)"

definition master_sizes :: "nat list \<Rightarrow> topology \<Rightarrow> nat list" where
  "master_sizes dv_start topo =
     map (\<lambda>m. slave_start dv_start topo (m + 1) - slave_start dv_start topo m) [0..<nat (nmasters topo)]"

definition coarse_solve ::
  "nat list \<Rightarrow> topology \<Rightarrow> (real list list \<Rightarrow> real list list) \<Rightarrow> real list list \<Rightarrow> real list
     \<Rightarrow> error + real list" where
  "coarse_solve dv_start topo direct_solver fs x =
     (case gatherv dv_start fs x of
        Inl e \<Rightarrow> Inl e
      | Inr x1 \<Rightarrow>
          (let M = nat (nmasters topo) in
           if M < length (slaves topo)
              \<and> (\<forall>m \<in> set [0..<M + 1]. 0 \<le> slaves topo ! m \<and> nat (slaves topo ! m) < length dv_start)
              \<and> (\<forall>m \<in> set [0..<M]. slave_start dv_start topo m \<le> slave_start dv_start topo (m + 1)
                                    \<and> slave_start dv_start topo (m + 1) \<le> length x1)
           then
             (let cf = map (\<lambda>m. take (slave_start dv_start topo (m + 1) - slave_start dv_start topo m)
                                   (drop (slave_start dv_start topo m) x1)) [0..<M];
                  cx = direct_solver cf
              in foldE (\<lambda>m x. if m < length cx
                                then write_at x (slave_start dv_start topo m)
                                       (take (slave_start dv_start topo (m + 1) - slave_start dv_start topo m)
                                          (cx ! m))
                                else Inl OutOfBounds)
                   [0..<M] x1)
           else Inl OutOfBounds))"

text \<open>
  \<open>project\<close> (lines 710--727), for all ranks at once.  A rank holds its deflation vectors and
  its part of AZ; the state is the content of \<open>dx\<close>, which is the same on all ranks after a
  call, and the vector \<open>x\<close> of every rank.  \<open>dd\<close> is the backend copy of \<open>dx\<close>.
\<close>

record deflation_rank =
  dr_Z :: "real list list"
  dr_AZ :: crs

definition project ::
  "deflation_rank list \<Rightarrow> nat list \<Rightarrow> topology \<Rightarrow> (real list list \<Rightarrow> real list list)
     \<Rightarrow> real list \<times> real list list \<Rightarrow> error + real list \<times> real list list" where
  "project ranks dv_start topo direct_solver st =
     (let dx = fst st; xs = snd st;
          df = map (\<lambda>p. local_inner_products (dr_Z (ranks ! p)) (xs ! p)) [0..<length ranks]
      in case coarse_solve dv_start topo direct_solver df dx of
           Inl e \<Rightarrow> Inl e
         | Inr dx1 \<Rightarrow>
             (case mapE (\<lambda>p. spmv (- 1) (dr_AZ (ranks ! p)) dx1 1 (xs ! p)) [0..<length ranks] of
                Inl e \<Rightarrow> Inl e
              | Inr xs1 \<Rightarrow> Inr (dx1, xs1)))"

text \<open>
  The local rows of E that a rank builds in the constructor (lines 505--535), and the rows of
  a strip as lists of column and value.
\<close>

definition coarse_strip ::
  "setup_result \<Rightarrow> nat \<Rightarrow> (nat \<Rightarrow> nat \<Rightarrow> real) \<Rightarrow> nat \<Rightarrow> nat \<Rightarrow> error + e_strip" where
  "coarse_strip res ndv def_vec comm_size rank =
     (case build_erow ndv (ncols (r_az res)) def_vec (r_az res) of
        Inl e \<Rightarrow> Inl e
      | Inr erow \<Rightarrow>
          assemble_e (r_comm_matrix res) (r_dv_size res) (r_dv_start res) erow ndv comm_size rank)"

definition e_rows :: "e_strip \<Rightarrow> (nat \<times> real) list list" where
  "e_rows E =
     map (\<lambda>i. zip (take (e_ptr E ! (i + 1) - e_ptr E ! i) (drop (e_ptr E ! i) (e_col E)))
                   (take (e_ptr E ! (i + 1) - e_ptr E ! i) (drop (e_ptr E ! i) (e_val E))))
       [0..<length (e_ptr E) - 1]"

text \<open>
  Modelled from the spec: the direct solver applies \<open>E\<^sup>-\<^sup>1\<close>.  The masters receive the strips of
  their slaves in rank order (lines 489--556) and hand them to the constructor of the solver
  (lines 568--571), so the matrix of the solver has the rows of the strips of all ranks, in rank
  order.  \<open>apply_rows rows u\<close> is the product of that matrix with a vector.  The solver maps the
  right-hand sides \<open>cf\<close> of the masters to the one family \<open>cx\<close> of their sizes whose
  concatenation is mapped by the matrix to the concatenation of the \<open>cf\<close>.
\<close>

definition apply_rows :: "(nat \<times> real) list list \<Rightarrow> real list \<Rightarrow> real list" where
  "apply_rows rows u = map (\<lambda>r. sum_list (map (\<lambda>a. snd a * u ! fst a) r)) rows"

definition inverse_of ::
  "(nat \<times> real) list list \<Rightarrow> nat list \<Rightarrow> (real list list \<Rightarrow> real list list) \<Rightarrow> bool" where
  "inverse_of rows sizes direct_solver \<longleftrightarrow>
     (\<forall>cf. map length cf = sizes \<longrightarrow>
        map length (direct_solver cf) = sizes
        \<and> (\<forall>cx. map length cx = sizes \<longrightarrow>
               (direct_solver cf = cx \<longleftrightarrow> apply_rows rows (concat cx) = concat cf)))"

subsection \<open>Notions used in the statements\<close>

definition e_row_cols :: "e_strip \<Rightarrow> nat \<Rightarrow> nat list" where
  "e_row_cols E i = take (e_ptr E ! (i + 1) - e_ptr E ! i) (drop (e_ptr E ! i) (e_col E))"

definition e_cols_of :: "nat list list \<Rightarrow> nat list \<Rightarrow> nat list \<Rightarrow> nat \<Rightarrow> nat \<Rightarrow> nat list" where
  "e_cols_of comm_matrix dv_size dv_start rank n =
     concat (map (\<lambda>j. map (\<lambda>k. dv_start ! j + k) [0..<dv_size ! j])
                 (filter (e_adjacent comm_matrix rank) [0..<n]))"


definition row_owners :: "int list \<Rightarrow> (int \<times> real) list \<Rightarrow> int set" where
  "row_owners domain row = (\<lambda>a. owner domain (fst a)) ` set row"

definition row_count :: "int list \<Rightarrow> nat list \<Rightarrow> (int \<times> real) list \<Rightarrow> nat" where
  "row_count domain dv_size row = (\<Sum>d \<in> row_owners domain row. dv_size ! nat d)"


definition owned_by :: "int list \<Rightarrow> int list \<Rightarrow> nat \<Rightarrow> nat" where
  "owned_by domain cs p = length (filter (\<lambda>c. owner domain c = int p) cs)"

definition aloc_row :: "int list \<Rightarrow> nat \<Rightarrow> (int \<times> real) list \<Rightarrow> (nat \<times> real) list" where
  "aloc_row domain rank row =
     map (\<lambda>a. (nat (fst a - domain ! rank), snd a)) (filter (\<lambda>a. is_local domain rank (fst a)) row)"

definition arem_row :: "int list \<Rightarrow> nat \<Rightarrow> (int \<times> nat) list \<Rightarrow> (int \<times> real) list \<Rightarrow> (nat \<times> real) list" where
  "arem_row domain rank rcm row =
     map (\<lambda>a. (rc_lookup rcm (fst a), snd a)) (filter (\<lambda>a. \<not> is_local domain rank (fst a)) row)"


definition dv_block :: "nat list \<Rightarrow> nat list \<Rightarrow> nat \<Rightarrow> nat set" where
  "dv_block dv_start dv_size d = {dv_start ! d..<dv_start ! d + dv_size ! d}"

definition row_filled :: "nat list \<Rightarrow> nat \<Rightarrow> nat \<Rightarrow> nat set \<Rightarrow> bool" where
  "row_filled cs b e K \<longleftrightarrow>
     b \<le> e \<and> e \<le> length cs \<and> distinct (take (e - b) (drop b cs))
     \<and> set (take (e - b) (drop b cs)) = K"

definition row_inv :: "nat \<Rightarrow> 'a az_build_scheme \<Rightarrow> 'a az_build_scheme \<Rightarrow> nat set \<Rightarrow> bool" where
  "row_inv beg s0 s K \<longleftrightarrow>
     length (marker s) = length (marker s0) \<and> length (az_col s) = length (az_col s0)
     \<and> az_ptr s = az_ptr s0
     \<and> row_filled (az_col s) beg (az_row_end s) K
     \<and> (\<forall>k \<in> K. k < length (marker s0))
     \<and> (\<forall>k<length (marker s0).
           (k \<in> K \<longrightarrow> int beg \<le> marker s ! k \<and> marker s ! k < int (az_row_end s))
           \<and> (k \<notin> K \<longrightarrow> marker s ! k = marker s0 ! k))
     \<and> (\<forall>p. p < beg \<or> az_row_end s \<le> p \<longrightarrow> az_col s ! p = az_col s0 ! p)"

definition loc_block :: "int list \<Rightarrow> nat \<Rightarrow> nat list \<Rightarrow> nat \<Rightarrow> (int \<times> real) list \<Rightarrow> nat set" where
  "loc_block domain rank dv_start ndv row =
     (if \<exists>a \<in> set row. is_local domain rank (fst a)
      then {dv_start ! rank..<dv_start ! rank + ndv} else {})"

definition rem_blocks :: "nat list \<Rightarrow> nat list \<Rightarrow> exchange \<Rightarrow> (nat \<times> real) list \<Rightarrow> nat set" where
  "rem_blocks dv_start dv_size recv row =
     (\<Union>a \<in> set row. dv_block dv_start dv_size (nbr recv ! (upper_bound (xptr recv) (fst a) - 1)))"

definition built_from :: "nat list \<Rightarrow> nat list \<Rightarrow> real list \<Rightarrow> (nat \<times> real) list list \<Rightarrow> bool" where
  "built_from p cs vs rows \<longleftrightarrow>
     cs = concat (map (map fst) rows) \<and> vs = concat (map (map snd) rows)
     \<and> p = map (\<lambda>m. length (concat (take m rows))) [0..<Suc (length rows)]"

definition row_done :: "nat \<Rightarrow> nat set \<Rightarrow> 'a az_build_scheme \<Rightarrow> 'a az_build_scheme \<Rightarrow> bool" where
  "row_done i K s s' \<longleftrightarrow>
     length (marker s') = length (marker s) \<and> length (az_col s') = length (az_col s)
     \<and> az_ptr s' = (az_ptr s)[i := az_ptr s ! i + card K]
     \<and> row_filled (az_col s') (az_ptr s ! i) (az_ptr s ! i + card K) K
     \<and> (\<forall>k<length (marker s). marker s' ! k < int (az_ptr s ! i + card K))
     \<and> (\<forall>p. p < az_ptr s ! i \<or> az_ptr s ! i + card K \<le> p \<longrightarrow> az_col s' ! p = az_col s ! p)"

text \<open>
  The updates that the loops of lines 346--371 and 431--449 present to the marker scheme for
  one row of the strip, in the order of the source: a coarse column together with the product
  that is stored in, or added to, the slot of that column.  The second pass takes the local
  entries of the row (\<open>aloc_row\<close>, with the column already shifted), the third pass the entries
  of the row of \<open>A_rem\<close> (\<open>arem_row\<close>, with the ghost id as the column).  \<open>contrib ts k\<close> is the
  sum of the products that a list of updates has for the coarse column \<open>k\<close>.
\<close>

definition loc_updates ::
  "nat list \<Rightarrow> nat \<Rightarrow> nat \<Rightarrow> (nat \<Rightarrow> nat \<Rightarrow> real) \<Rightarrow> (nat \<times> real) list \<Rightarrow> (nat \<times> real) list" where
  "loc_updates dv_start rank ndv def_vec row =
     concat (map (\<lambda>a. map (\<lambda>j. (dv_start ! rank + j, snd a * def_vec (fst a) j)) [0..<ndv]) row)"

definition rem_updates ::
  "nat list \<Rightarrow> nat list \<Rightarrow> exchange \<Rightarrow> nat list \<Rightarrow> real list \<Rightarrow> (nat \<times> real) list
     \<Rightarrow> (nat \<times> real) list" where
  "rem_updates dv_start dv_size recv zcol_ptr zrecv row =
     concat (map (\<lambda>a. map (\<lambda>j. (dv_start ! (nbr recv ! (upper_bound (xptr recv) (fst a) - 1)) + j,
                                  snd a * zrecv ! (zcol_ptr ! fst a + j)))
                           [0..<dv_size ! (nbr recv ! (upper_bound (xptr recv) (fst a) - 1))])
                 row)"

definition az_updates ::
  "setup_result \<Rightarrow> nat \<Rightarrow> nat \<Rightarrow> (nat \<Rightarrow> nat \<Rightarrow> real) \<Rightarrow> (int \<times> real) list \<Rightarrow> (nat \<times> real) list" where
  "az_updates res rank ndv def_vec row =
     loc_updates (r_dv_start res) rank ndv def_vec (aloc_row (r_domain res) rank row)
     @ rem_updates (r_dv_start res) (r_dv_size res) (r_recv res) (r_zcol_ptr res) (r_zrecv res)
         (arem_row (r_domain res) rank (r_rc res) row)"

definition contrib :: "(nat \<times> real) list \<Rightarrow> nat \<Rightarrow> real" where
  "contrib ts k = sum_list (map snd (filter (\<lambda>t. fst t = k) ts))"

definition val_inv :: "nat \<Rightarrow> 'a az_build_scheme \<Rightarrow> 'a az_build_scheme \<Rightarrow> (nat \<times> real) list \<Rightarrow> bool" where
  "val_inv beg s0 s ts \<longleftrightarrow>
     length (az_val s) = length (az_val s0)
     \<and> (\<forall>k \<in> fst ` set ts. az_col s ! nat (marker s ! k) = k)
     \<and> (\<forall>p. beg \<le> p \<and> p < az_row_end s \<longrightarrow> az_val s ! p = contrib ts (az_col s ! p))
     \<and> (\<forall>p. p < beg \<or> az_row_end s \<le> p \<longrightarrow> az_val s ! p = az_val s0 ! p)"

definition val_done :: "nat \<Rightarrow> (nat \<times> real) list \<Rightarrow> 'a az_build_scheme \<Rightarrow> 'a az_build_scheme \<Rightarrow> bool" where
  "val_done i ts s s' \<longleftrightarrow>
     length (az_val s') = length (az_val s)
     \<and> (\<forall>p. az_ptr s ! i \<le> p \<and> p < az_ptr s ! i + card (fst ` set ts)
            \<longrightarrow> az_val s' ! p = contrib ts (az_col s' ! p))
     \<and> (\<forall>p. p < az_ptr s ! i \<or> az_ptr s ! i + card (fst ` set ts) \<le> p
            \<longrightarrow> az_val s' ! p = az_val s ! p)"

subsection \<open>A worked example\<close>

text \<open>
  Rank 1 of three ranks that own two rows each, with two deflation vectors per rank.  The strip
  has entries in the columns of both neighbours, one of them twice in a row.  The driver of the
  example reports in its iteration count which object it was given as the preconditioner.
\<close>

definition sample_driver :: driver where
  "sample_driver A M rhs x = ((if M = This then 0 else 1, 0), x)"

definition sample_postprocess :: "real list \<Rightarrow> real list \<Rightarrow> real list" where
  "sample_postprocess rhs x = x"

definition sample_strip :: "(int \<times> real) list list" where
  "sample_strip = [[(1, - 1), (2, 2), (3, - 1), (0, 5)], [(2, - 1), (3, 2), (4, - 1), (5, 7), (4, 1)]]"

definition sample_def_vec :: "nat \<Rightarrow> nat \<Rightarrow> real" where
  "sample_def_vec i j = real (i + j)"

definition sample_setup :: "error + setup_result" where
  "sample_setup =
     subdomain_deflation_setup 3 1 [2, 2, 2] [2, 2, 2] [[0, 1, 0], [0, 0, 0], [0, 1, 0]] real
       sample_strip 2 sample_def_vec"

definition sample_result :: setup_result where
  "sample_result =
     \<lparr>r_domain = [0, 2, 4, 6], r_dv_size = [2, 2, 2], r_dv_start = [0, 2, 4, 6],
      r_rc = [(0, 0), (1, 1), (4, 2), (5, 3)], r_recv_cols = [0, 1, 4, 5],
      r_num_recv = [2, 0, 2], r_comm_matrix = [[0, 1, 0], [2, 0, 2], [0, 1, 0]],
      r_recv = \<lparr>nbr = [0, 2], xptr = [0, 2, 4]\<rparr>, r_send = \<lparr>nbr = [0, 2], xptr = [0, 1, 2]\<rparr>,
      r_aloc = \<lparr>nrows = 2, ncols = 2, ptr = [0, 2, 4], col = [0, 1, 0, 1],
                val = [2, - 1, - 1, 2]\<rparr>,
      r_arem = \<lparr>nrows = 2, ncols = 4, ptr = [0, 2, 5], col = [1, 0, 2, 3, 2],
                val = [- 1, 5, - 1, 7, 1]\<rparr>,
      r_az = \<lparr>nrows = 2, ncols = 6, ptr = [0, 4, 8], col = [2, 3, 0, 1, 2, 3, 4, 5],
              val = [- 1, 0, - 2, 2, 2, 3, 42, 49]\<rparr>,
      r_ptr_alloc = [0, 4, 8], r_ptr_loc = [2, 6, 8], r_ptr_rem = [4, 8, 8],
      r_zcol_ptr = [0, 2, 4, 6, 8, 10, 12, 14, 16], r_zrecv = [0, 1, 2, 3, 4, 5, 6, 7]\<rparr>"

text \<open>
  Two ranks that own two rows each of the tridiagonal matrix with 2 on the diagonal and \<open>-1\<close>
  beside it, with one constant deflation vector per rank and one master.  The rows of E are
  \<open>(2, -1)\<close> and \<open>(-1, 2)\<close>, and the solver of the example applies the inverse of that matrix.
\<close>

definition sample_pair_strip :: "nat \<Rightarrow> (int \<times> real) list list" where
  "sample_pair_strip p =
     [[[(0, 2), (1, - 1)], [(0, - 1), (1, 2), (2, - 1)]],
      [[(1, - 1), (2, 2), (3, - 1)], [(2, - 1), (3, 2)]]] ! p"

definition sample_pair_result :: "nat \<Rightarrow> setup_result" where
  "sample_pair_result p =
     [\<lparr>r_domain = [0, 2, 4], r_dv_size = [1, 1], r_dv_start = [0, 1, 2],
       r_rc = [(2, 0)], r_recv_cols = [2], r_num_recv = [0, 1], r_comm_matrix = [[0, 1], [1, 0]],
       r_recv = \<lparr>nbr = [1], xptr = [0, 1]\<rparr>, r_send = \<lparr>nbr = [1], xptr = [0, 1]\<rparr>,
       r_aloc = \<lparr>nrows = 2, ncols = 2, ptr = [0, 2, 4], col = [0, 1, 0, 1], val = [2, - 1, - 1, 2]\<rparr>,
       r_arem = \<lparr>nrows = 2, ncols = 1, ptr = [0, 0, 1], col = [0], val = [- 1]\<rparr>,
       r_az = \<lparr>nrows = 2, ncols = 2, ptr = [0, 1, 3], col = [0, 0, 1], val = [1, 1, - 1]\<rparr>,
       r_ptr_alloc = [0, 1, 3], r_ptr_loc = [1, 2, 3], r_ptr_rem = [1, 3, 3],
       r_zcol_ptr = [0, 1], r_zrecv = [1]\<rparr>,
      \<lparr>r_domain = [0, 2, 4], r_dv_size = [1, 1], r_dv_start = [0, 1, 2],
       r_rc = [(1, 0)], r_recv_cols = [1], r_num_recv = [1, 0], r_comm_matrix = [[0, 1], [1, 0]],
       r_recv = \<lparr>nbr = [0], xptr = [0, 1]\<rparr>, r_send = \<lparr>nbr = [0], xptr = [0, 1]\<rparr>,
       r_aloc = \<lparr>nrows = 2, ncols = 2, ptr = [0, 2, 4], col = [0, 1, 0, 1], val = [2, - 1, - 1, 2]\<rparr>,
       r_arem = \<lparr>nrows = 2, ncols = 1, ptr = [0, 1, 1], col = [0], val = [- 1]\<rparr>,
       r_az = \<lparr>nrows = 2, ncols = 2, ptr = [0, 2, 3], col = [1, 0, 1], val = [1, - 1, 1]\<rparr>,
       r_ptr_alloc = [0, 2, 3], r_ptr_loc = [1, 3, 3], r_ptr_rem = [2, 3, 3],
       r_zcol_ptr = [0, 1], r_zrecv = [1]\<rparr>] ! p"

definition sample_pair_E :: "nat \<Rightarrow> e_strip" where
  "sample_pair_E p =
     [\<lparr>e_ptr = [0, 2], e_col = [0, 1], e_val = [2, - 1]\<rparr>,
      \<lparr>e_ptr = [0, 2], e_col = [0, 1], e_val = [- 1, 2]\<rparr>] ! p"

definition sample_pair_topology :: topology where
  "sample_pair_topology = \<lparr>nmasters = 1, nslaves = 2, master = 0, slaves = [0, 2]\<rparr>"

definition sample_pair_solver :: "real list list \<Rightarrow> real list list" where
  "sample_pair_solver cf =
     (case cf of [[a, b]] \<Rightarrow> [[(2 * a + b) / 3, (a + 2 * b) / 3]] | _ \<Rightarrow> [])"

definition sample_pair_ranks :: "deflation_rank list" where
  "sample_pair_ranks =
     map (\<lambda>p. \<lparr>dr_Z = deflation_vectors (length (sample_pair_strip p)) ([1, 1] ! p) (\<lambda>i j. 1),
                dr_AZ = r_az (sample_pair_result p)\<rparr>) [0..<2]"

section \<open>Properties\<close>

subsection \<open>Constant deflation\<close>

text \<open>
  C9.  For every block size \<open>b \<ge> 1\<close> the evaluator has \<open>dim() = b\<close>, and for every row
  \<open>i \<ge> 0\<close> and every \<open>j\<close> in \<open>[0, b)\<close> the call \<open>z(i, j)\<close> returns 1 if \<open>i mod b = j\<close> and 0
  otherwise.
\<close>

theorem constant_deflation_spec:
  assumes "1 \<le> b" and "0 \<le> i" and "0 \<le> j" and "j < b"
  shows "dim_cd \<lparr>block_size = b\<rparr> = b
       \<and> constant_deflation_call \<lparr>block_size = b\<rparr> i j = Inr (if i mod b = j then 1 else 0)"
proof -
  have "i smod b = i mod b"
    using assms by (simp add: smod_int_alt_def sgn_if abs_if)
  then show ?thesis
    using assms by (simp add: dim_cd_def constant_deflation_call_def)
qed

theorem constant_deflation_spec_witness:
  "dim_cd \<lparr>block_size = 3\<rparr> = 3
   \<and> constant_deflation_call \<lparr>block_size = 3\<rparr> 7 1 = Inr 1
   \<and> constant_deflation_call \<lparr>block_size = 3\<rparr> 7 2 = Inr 0"
  using constant_deflation_spec [of 3 7 1] constant_deflation_spec [of 3 7 2]
  by simp

subsection \<open>Master topology\<close>


lemma sdiv_nonneg_eq: "0 \<le> a \<Longrightarrow> 0 < b \<Longrightarrow> a sdiv b = a div (b::int)"
  by (simp add: signed_divide_int_def sgn_if)

lemma ceil_div_int:
  assumes "0 < (m::int)" 
  shows "(p + m - 1) div m = - (- p div m)"
proof (cases "p mod m = 0")
  case True
  have "p + m - 1 = m * (p div m) + (m - 1)"
    using True by (simp add: algebra_simps) (metis True add.right_neutral mult_div_mod_eq)
  then have "(p + m - 1) div m = p div m"
    using assms by (intro int_div_pos_eq [where r = "m - 1"]) auto
  moreover have "- p div m = - (p div m)"
    using assms True by (simp add: zdiv_zminus1_eq_if)
  ultimately show ?thesis by simp
next
  case False
  have a: "- p div m = - (p div m) - 1" using assms False by (simp add: zdiv_zminus1_eq_if)
  have r: "0 \<le> p mod m" "p mod m < m" using assms by simp_all
  have "p + m - 1 = m * (p div m + 1) + (p mod m - 1)"
    by (simp add: algebra_simps)
  then have "(p + m - 1) div m = p div m + 1"
    using assms False r by (intro int_div_pos_eq [where r = "p mod m - 1"]) auto
  then show ?thesis using a by simp
qed

lemma slaves_per_master_ceiling:
  assumes "0 \<le> P" "0 < M"
  shows "slaves_per_master P M = \<lceil>real_of_int P / real_of_int M\<rceil>"
  using assms by (simp add: slaves_per_master_def sdiv_nonneg_eq ceil_div_int ceiling_divide_eq_div)

lemma slaves_per_master_pos:
  assumes "1 \<le> P" "0 < M"
  shows "1 \<le> slaves_per_master P M"
proof -
  have "0 < real_of_int P / real_of_int M" using assms by simp
  then have "0 < \<lceil>real_of_int P / real_of_int M\<rceil>" by linarith
  then show ?thesis using assms by (simp add: slaves_per_master_ceiling)
qed

lemma slaves_per_master_cover:
  assumes "0 \<le> P" "0 < M"
  shows "P \<le> M * slaves_per_master P M"
proof -
  have "real_of_int P / real_of_int M \<le> real_of_int (slaves_per_master P M)"
    using assms by (simp add: slaves_per_master_ceiling)
  then have "real_of_int P \<le> real_of_int (slaves_per_master P M) * real_of_int M"
    using assms by (simp add: pos_divide_le_eq)
  then have "real_of_int P \<le> real_of_int (M * slaves_per_master P M)"
    by (simp add: mult.commute)
  then show ?thesis by linarith
qed


text \<open>
  The intermediate values of lines 465--475 stay inside a 32-bit \<open>int\<close> as long as there are at
  most \<open>2^30\<close> ranks, so the unbounded integers of the model compute what the source computes.
\<close>

lemma master_topology_no_overflow:
  assumes "1 \<le> P" "P \<le> 2 ^ 30" "1 \<le> M" "M \<le> P" "0 \<le> p" "p \<le> M"
  shows "P + M - 1 < 2 ^ 31" and "0 \<le> p * slaves_per_master P M"
    and "p * slaves_per_master P M < 2 ^ 31"
proof -
  let ?S = "slaves_per_master P M"
  have S: "?S = (P + M - 1) div M"
    using assms by (simp add: slaves_per_master_def sdiv_nonneg_eq)
  show "P + M - 1 < 2 ^ 31" using assms by simp
  have S0: "0 \<le> ?S" using assms by (simp add: S pos_imp_zdiv_nonneg_iff)
  then show "0 \<le> p * ?S" using assms by simp
  have "M * ((P + M - 1) div M) + (P + M - 1) mod M = P + M - 1" by simp
  moreover have "0 \<le> (P + M - 1) mod M" using assms by simp
  ultimately have "M * ?S \<le> P + M - 1" unfolding S by linarith
  moreover have "p * ?S \<le> M * ?S" using assms S0 by (simp add: mult_right_mono)
  ultimately show "p * ?S < 2 ^ 31" using assms by simp
qed

lemma upto_nth: "0 \<le> k \<Longrightarrow> k \<le> n \<Longrightarrow> [0..n] ! nat k = k"
  by (simp add: nth_upto)

text \<open>
  C7.  With \<open>P = comm.size\<close>, the number of masters is
  \<open>M = min(P, DirectSolver::comm_size(K))\<close>, the slaves per master are \<open>S = \<lceil>P / M\<rceil>\<close>,
  a master rank holds \<open>slaves[m] = min(m * S, P)\<close> for \<open>m\<close> in \<open>[0, M]\<close>, and the master of
  rank \<open>r\<close> is \<open>r / S\<close>.  The ranges \<open>[slaves[m], slaves[m+1])\<close> are well formed, and the master
  of \<open>r\<close> is a master rank whose range contains \<open>r\<close>.
\<close>

theorem master_topology_spec:
  assumes P: "1 \<le> P" and cs: "1 \<le> cs K" and r: "0 \<le> r" "r < P"
  shows "\<exists>t. master_topology P r cs K = Inr t
           \<and> nmasters t = min P (cs K)
           \<and> slaves_per_master P (nmasters t) = \<lceil>real_of_int P / real_of_int (nmasters t)\<rceil>
           \<and> master t = r div slaves_per_master P (nmasters t)
           \<and> (r < nmasters t \<longrightarrow>
                 slaves t = map (\<lambda>m. min (m * slaves_per_master P (nmasters t)) P) [0..nmasters t])
           \<and> (\<forall>m. 0 \<le> m \<and> m < nmasters t \<longrightarrow>
                 min (m * slaves_per_master P (nmasters t)) P
                   \<le> min ((m + 1) * slaves_per_master P (nmasters t)) P)
           \<and> 0 \<le> master t \<and> master t < nmasters t
           \<and> min (master t * slaves_per_master P (nmasters t)) P \<le> r
           \<and> r < min ((master t + 1) * slaves_per_master P (nmasters t)) P"
proof -
  define M where "M = min P (cs K)"
  define S where "S = slaves_per_master P M"
  have M: "1 \<le> M" "M \<le> P" using P cs by (simp_all add: M_def)
  have S: "1 \<le> S" using P M by (simp add: S_def slaves_per_master_pos)
  have cover: "P \<le> M * S" using P M by (simp add: S_def slaves_per_master_cover)
  have ceil: "S = \<lceil>real_of_int P / real_of_int M\<rceil>"
    using P M by (simp add: S_def slaves_per_master_ceiling)
  have m: "r sdiv S = r div S" using r S by (simp add: sdiv_nonneg_eq)
  have m0: "0 \<le> r div S" using r S by (simp add: pos_imp_zdiv_nonneg_iff)
  have dm: "r = (r div S) * S + r mod S" by simp
  have md: "0 \<le> r mod S" "r mod S < S" using S by simp_all
  have lo: "(r div S) * S \<le> r" using dm md by linarith
  have ex: "(r div S + 1) * S = (r div S) * S + S" by (simp add: algebra_simps)
  have hi: "r < (r div S + 1) * S" using dm md ex by linarith
  have mM: "r div S < M"
  proof (rule ccontr)
    assume "\<not> r div S < M"
    then have "M * S \<le> (r div S) * S" using S by (simp add: mult_right_mono)
    then show False using lo cover r by linarith
  qed
  have mono: "min (m * S) P \<le> min ((m + 1) * S) P" for m
    using S by (simp add: algebra_simps min_def)
  have len: "length [0..M] = nat (M + 1)" by simp
  let ?sl = "map (\<lambda>p. min (p * S) P) [0..M]"
  let ?t = "if r < M
            then \<lparr>nmasters = M, nslaves = ?sl ! (nat r + 1) - ?sl ! nat r, master = r div S, slaves = ?sl\<rparr>
            else \<lparr>nmasters = M, nslaves = S, master = r div S, slaves = []\<rparr>"
  have idx: "r < M \<Longrightarrow> Suc (nat r) < nat (M + 1)" using r by linarith
  have run: "master_topology P r cs K = Inr ?t"
    using M S r m idx by (simp add: master_topology_def Let_def M_def [symmetric] S_def [symmetric])
  have "nmasters ?t = M" by simp
  moreover have "master ?t = r div S" by simp
  moreover have "r < M \<longrightarrow> slaves ?t = ?sl" by simp
  ultimately show ?thesis
    using run ceil m0 mM lo hi mono r
    unfolding S_def [symmetric] M_def [symmetric]
    by (intro exI [of _ ?t]) (simp add: S_def [symmetric] min_def)
qed


theorem master_topology_spec_witness:
  "\<exists>t. master_topology 4 1 (\<lambda>_. 2) 3 = Inr t \<and> nmasters t = 2 \<and> master t = 0
       \<and> slaves t = [0, 2, 4]"
  using master_topology_spec [of 4 "\<lambda>_. 2" 3 1]
  by (auto simp add: slaves_per_master_def signed_divide_int_def upto.simps)

subsection \<open>Folding with errors\<close>

lemma foldE_append:
  "foldE f (xs @ ys) s = (case foldE f xs s of Inl e \<Rightarrow> Inl e | Inr s' \<Rightarrow> foldE f ys s')"
  by (induction xs arbitrary: s) (auto split: sum.splits)

lemma foldE_snoc_Inr:
  "foldE f (xs @ [x]) s = Inr s' \<longleftrightarrow> (\<exists>t. foldE f xs s = Inr t \<and> f x t = Inr s')"
  by (auto simp: foldE_append split: sum.splits)

lemma foldE_invariant:
  assumes "foldE f xs s = Inr s'" and "I s"
    and "\<And>x t t'. x \<in> set xs \<Longrightarrow> I t \<Longrightarrow> f x t = Inr t' \<Longrightarrow> I t'"
  shows "I s'"
  using assms
proof (induction xs arbitrary: s)
  case Nil
  then show ?case by simp
next
  case (Cons x xs)
  from Cons.prems(1) obtain t where t: "f x s = Inr t" "foldE f xs t = Inr s'"
    by (auto split: sum.splits)
  have "I t" using Cons.prems(3) [of x s t] Cons.prems(2) t(1) by simp
  then show ?case using Cons.IH [OF t(2)] Cons.prems(3) by auto
qed

lemma foldE_prefix_invariant:
  assumes "foldE f xs s = Inr s'" and "I [] s"
    and "\<And>ys x t t'. I ys t \<Longrightarrow> f x t = Inr t' \<Longrightarrow> I (ys @ [x]) t'"
  shows "I xs s'"
  using assms(1)
proof (induction xs arbitrary: s' rule: rev_induct)
  case Nil
  then show ?case using assms(2) by simp
next
  case (snoc x xs)
  then obtain t where t: "foldE f xs s = Inr t" "f x t = Inr s'"
    by (auto simp: foldE_snoc_Inr)
  show ?case using assms(3) [OF snoc.IH [OF t(1)] t(2)] .
qed

lemma foldE_upt_invariant:
  assumes "foldE f [0..<n] s = Inr s'" and "I 0 s"
    and "\<And>i t t'. i < n \<Longrightarrow> I i t \<Longrightarrow> f i t = Inr t' \<Longrightarrow> I (Suc i) t'"
  shows "I n s'"
  using assms(1,3)
proof (induction n arbitrary: s')
  case 0
  then show ?case using assms(2) by simp
next
  case (Suc n)
  from Suc.prems(1) obtain t where t: "foldE f [0..<n] s = Inr t" "f n t = Inr s'"
    by (auto simp: foldE_snoc_Inr)
  have "I n t" using Suc.IH [OF t(1)] Suc.prems(2) by simp
  then show ?case using Suc.prems(2) t(2) by simp
qed

subsection \<open>Partial sums\<close>

lemma length_partial_sum_from [simp]: "length (partial_sum_from a xs) = length xs"
  by (induction xs arbitrary: a) auto

lemma length_partial_sum [simp]: "length (partial_sum xs) = length xs"
  by (simp add: partial_sum_def)

lemma partial_sum_from_nth:
  "i < length xs \<Longrightarrow> partial_sum_from a xs ! i = a + sum_list (take (Suc i) xs)"
proof (induction xs arbitrary: a i)
  case Nil
  then show ?case by simp
next
  case (Cons x xs)
  then show ?case by (cases i) (auto simp: add.assoc)
qed

lemma partial_sum_nth:
  "i < length xs \<Longrightarrow> partial_sum xs ! i = sum_list (take (Suc i) xs)"
  by (simp add: partial_sum_def partial_sum_from_nth)

lemma partial_sum_from_snoc:
  "partial_sum_from a (xs @ [x]) = partial_sum_from a xs @ [a + sum_list xs + x]"
  by (induction xs arbitrary: a) (auto simp: add.assoc)

lemma partial_sum_snoc:
  "partial_sum (xs @ [x]) = partial_sum xs @ [sum_list xs + x]"
  by (simp add: partial_sum_def partial_sum_from_snoc)

lemma partial_sum_last:
  "xs \<noteq> [] \<Longrightarrow> last (partial_sum xs) = sum_list xs"
  by (induction xs rule: rev_induct) (auto simp: partial_sum_snoc)

lemma sorted_partial_sum_nat: "sorted (partial_sum (xs :: nat list))"
proof (induction xs rule: rev_induct)
  case Nil
  then show ?case by (simp add: partial_sum_def)
next
  case (snoc x xs)
  have "\<forall>y \<in> set (partial_sum xs). y \<le> sum_list xs + x"
  proof
    fix y assume "y \<in> set (partial_sum xs)"
    then obtain i where i: "i < length xs" "y = partial_sum xs ! i"
      by (auto simp: in_set_conv_nth)
    have "sum_list (take (Suc i) xs) \<le> sum_list (take (Suc i) xs) + sum_list (drop (Suc i) xs)"
      by simp
    also have "\<dots> = sum_list xs"
      by (metis append_take_drop_id sum_list_append)
    finally show "y \<le> sum_list xs + x" using i by (simp add: partial_sum_nth)
  qed
  then show ?case using snoc by (simp add: partial_sum_snoc sorted_append)
qed

subsection \<open>Upper bound\<close>

lemma upper_bound_le_length: "upper_bound xs c \<le> length xs"
  by (simp add: upper_bound_def length_takeWhile_le)

lemma upper_bound_sorted_iff:
  assumes "sorted xs" and "i < length xs"
  shows "i < upper_bound xs c \<longleftrightarrow> xs ! i \<le> c"
proof
  assume "i < upper_bound xs c"
  then show "xs ! i \<le> c"
    unfolding upper_bound_def using nth_mem set_takeWhileD takeWhile_nth
    by (metis (mono_tags, lifting) nth_length_takeWhile linorder_not_less order.asym nth_mem set_takeWhileD takeWhile_nth length_takeWhile_le)
next
  assume le: "xs ! i \<le> c"
  show "i < upper_bound xs c"
  proof (rule ccontr)
    assume "\<not> i < upper_bound xs c"
    then have u: "upper_bound xs c \<le> i" by simp
    then have ul: "upper_bound xs c < length xs" using assms(2) by simp
    then have "\<not> xs ! upper_bound xs c \<le> c"
      unfolding upper_bound_def by (rule nth_length_takeWhile)
    moreover have "xs ! upper_bound xs c \<le> xs ! i"
      using assms u by (simp add: sorted_nth_mono)
    ultimately show False using le by simp
  qed
qed

subsection \<open>The blocks of deflation vectors\<close>

lemma dv_start_Suc:
  assumes "dv_start = 0 # partial_sum (dv_size :: nat list)" and "j < length dv_size"
  shows "dv_start ! Suc j = dv_start ! j + dv_size ! j"
proof (cases j)
  case 0
  then show ?thesis using assms by (simp add: partial_sum_nth take_Suc_conv_app_nth)
next
  case (Suc m)
  then show ?thesis using assms by (simp add: partial_sum_nth take_Suc_conv_app_nth)
qed

lemma dv_start_sorted:
  assumes "dv_start = 0 # partial_sum (dv_size :: nat list)"
  shows "sorted dv_start"
  using assms sorted_partial_sum_nat [of dv_size] by simp

lemma dv_start_mono:
  assumes "dv_start = 0 # partial_sum (dv_size :: nat list)" and "i \<le> j" and "j \<le> length dv_size"
  shows "dv_start ! i \<le> dv_start ! j"
  using dv_start_sorted [OF assms(1)] assms by (simp add: sorted_nth_mono)

lemma dv_block_unique:
  assumes ds: "dv_start = 0 # partial_sum (dv_size :: nat list)"
    and j: "j < length dv_size" and q: "q < length dv_size"
    and xj: "dv_start ! j \<le> x" "x < dv_start ! j + dv_size ! j"
    and xq: "dv_start ! q \<le> x" "x < dv_start ! q + dv_size ! q"
  shows "j = q"
proof (rule ccontr)
  assume "j \<noteq> q"
  then consider "j < q" | "q < j" by linarith
  then show False
  proof cases
    case 1
    then have "dv_start ! Suc j \<le> dv_start ! q" using dv_start_mono [OF ds, of "Suc j" q] q by simp
    then show False using dv_start_Suc [OF ds j] xj xq by simp
  next
    case 2
    then have "dv_start ! Suc q \<le> dv_start ! j" using dv_start_mono [OF ds, of "Suc q" j] j by simp
    then show False using dv_start_Suc [OF ds q] xj xq by simp
  qed
qed

subsection \<open>Sequential writes\<close>

lemma foldE_map: "foldE (\<lambda>x. g (f x)) xs s = foldE g (map f xs) s"
  by (induction xs arbitrary: s) (auto split: sum.splits)

lemma drop_add_append: "length pre = a \<Longrightarrow> drop (a + b) (pre @ R) = drop b R"
  by auto

lemma e_put_seq:
  assumes "foldE (e_put erow i) cs s = Inr s'" and "row_head s \<le> length (ecol s)"
  shows "row_head s' = row_head s + length cs
       \<and> length (ecol s') = length (ecol s)
       \<and> row_head s + length cs \<le> length (ecol s)
       \<and> ecol s' = take (row_head s) (ecol s) @ cs @ drop (row_head s + length cs) (ecol s)"
  using assms
proof (induction cs arbitrary: s)
  case Nil
  then show ?case by simp
next
  case (Cons c cs)
  from Cons.prems obtain t where t: "e_put erow i c s = Inr t" "foldE (e_put erow i) cs t = Inr s'"
    by (auto split: sum.splits)
  from t(1) have h: "row_head s < length (ecol s)"
    and t_def: "row_head t = row_head s + 1" "ecol t = (ecol s)[row_head s := c]"
    by (auto simp: e_put_def split: if_splits)
  have "row_head t \<le> length (ecol t)" using h t_def by simp
  note IH = Cons.IH [OF t(2) this]
  have a: "take (row_head t) (ecol t) = take (row_head s) (ecol s) @ [c]"
    using h t_def by (simp add: take_Suc_conv_app_nth)
  have b: "drop (row_head t + length cs) (ecol t) = drop (row_head s + length (c # cs)) (ecol s)"
    using t_def by simp
  from IH have i1: "row_head s' = row_head t + length cs"
    and i2: "length (ecol s') = length (ecol t)"
    and i3: "row_head t + length cs \<le> length (ecol t)"
    and i4: "ecol s' = take (row_head t) (ecol t) @ cs @ drop (row_head t + length cs) (ecol t)"
    by blast+
  have 1: "row_head s' = row_head s + length (c # cs)" using i1 t_def by simp
  have 2: "length (ecol s') = length (ecol s)" using i2 t_def by simp
  have 3: "row_head s + length (c # cs) \<le> length (ecol s)" using i3 t_def by simp
  have "ecol s' = (take (row_head s) (ecol s) @ [c]) @ cs @ drop (row_head s + length (c # cs)) (ecol s)"
    using i4 a b by simp
  then have 4: "ecol s' = take (row_head s) (ecol s) @ (c # cs) @ drop (row_head s + length (c # cs)) (ecol s)"
    by simp
  show ?case using 1 2 3 4 by blast
qed

lemma e_cols_of_Suc:
  "e_cols_of cm dv_size dv_start rank (Suc n) =
     e_cols_of cm dv_size dv_start rank n
       @ (if e_adjacent cm rank n then map (\<lambda>k. dv_start ! n + k) [0..<dv_size ! n] else [])"
  by (simp add: e_cols_of_def)

lemma length_e_cols_of:
  "length (e_cols_of cm dv_size dv_start rank n)
     = sum_list (map (\<lambda>j. dv_size ! j) (filter (e_adjacent cm rank) [0..<n]))"
  by (induction n) (simp_all add: e_cols_of_def)

lemma e_row_writes:
  assumes "foldE (e_block cm dv_size dv_start erow rank i) [0..<n] s = Inr s'"
    and "row_head s \<le> length (ecol s)"
  shows "row_head s' = row_head s + length (e_cols_of cm dv_size dv_start rank n)
       \<and> length (ecol s') = length (ecol s)
       \<and> row_head s' \<le> length (ecol s)
       \<and> ecol s' = take (row_head s) (ecol s) @ e_cols_of cm dv_size dv_start rank n
                     @ drop (row_head s') (ecol s)"
  using assms
proof (induction n arbitrary: s')
  case 0
  then show ?case by (simp add: e_cols_of_def)
next
  case (Suc n)
  from Suc.prems obtain t where t: "foldE (e_block cm dv_size dv_start erow rank i) [0..<n] s = Inr t"
    "e_block cm dv_size dv_start erow rank i n t = Inr s'"
    by (auto simp: foldE_snoc_Inr)
  note IH = Suc.IH [OF t(1) Suc.prems(2)]
  show ?case
  proof (cases "e_adjacent cm rank n")
    case False
    then have "s' = t" using t(2) by (auto simp: e_block_def split: if_splits)
    then show ?thesis using IH False by (simp add: e_cols_of_Suc)
  next
    case True
    let ?cs = "map (\<lambda>k. dv_start ! n + k) [0..<dv_size ! n]"
    from t(2) True have "foldE (e_put erow i) ?cs t = Inr s'"
      by (auto simp: e_block_def foldE_map split: if_splits)
    note W = e_put_seq [OF this]
    have "row_head t \<le> length (ecol t)" using IH by simp
    note W = W [OF this]
    have a: "take (row_head t) (ecol t) = take (row_head s) (ecol s) @ e_cols_of cm dv_size dv_start rank n"
      using IH by simp
    have b: "drop (row_head t + length ?cs) (ecol t) = drop (row_head t + length ?cs) (ecol s)"
    proof -
      let ?pre = "take (row_head s) (ecol s) @ e_cols_of cm dv_size dv_start rank n"
      have len: "length ?pre = row_head t" using IH by simp
      have "drop (row_head t + length ?cs) (ecol t)
              = drop (row_head t + length ?cs) (?pre @ drop (row_head t) (ecol s))"
        using IH by simp
      also have "\<dots> = drop (length ?cs) (drop (row_head t) (ecol s))"
        using len by (rule drop_add_append)
      finally show ?thesis by (simp add: add.commute)
    qed
    show ?thesis using W a b IH True by (simp add: e_cols_of_Suc)
  qed
qed

lemma count_inner:
  assumes "foldE (\<lambda>k e. if k + 1 < length e \<and> j < length dv_size
                         then Inr (e[k + 1 := e ! (k + 1) + dv_size ! j])
                         else Inl OutOfBounds) [0..<m] (a # replicate n L) = Inr e'"
    and "m \<le> n"
  shows "e' = a # replicate m (L + dv_size ! j) @ replicate (n - m) L"
  using assms
proof (induction m arbitrary: e')
  case 0
  then show ?case by simp
next
  case (Suc m)
  let ?f = "\<lambda>k e. if k + 1 < length e \<and> j < length dv_size
                         then Inr (e[k + 1 := e ! (k + 1) + dv_size ! j])
                         else Inl OutOfBounds"
  from Suc.prems(1) obtain t where t: "foldE ?f [0..<m] (a # replicate n L) = Inr t"
    "?f m t = Inr e'"
    by (auto simp: foldE_snoc_Inr)
  have t_eq: "t = a # replicate m (L + dv_size ! j) @ replicate (n - m) L"
    using Suc.IH [OF t(1)] Suc.prems(2) by simp
  have e': "e' = t[m + 1 := t ! (m + 1) + dv_size ! j]"
    using t(2) by (auto split: if_splits)
  have nm: "n - m = Suc (n - Suc m)" using Suc.prems(2) by simp
  have "t ! (m + 1) = L" using Suc.prems(2) by (simp add: t_eq nth_append)
  then have "e' = (a # replicate m (L + dv_size ! j) @ replicate (n - m) L)[m + 1 := L + dv_size ! j]"
    using e' t_eq by simp
  also have "\<dots> = a # (replicate m (L + dv_size ! j) @ (replicate (n - m) L)[0 := L + dv_size ! j])"
    by (simp add: list_update_append)
  also have "(replicate (n - m) L)[0 := L + dv_size ! j] = (L + dv_size ! j) # replicate (n - Suc m) L"
    by (simp add: nm)
  also have "a # (replicate m (L + dv_size ! j) @ (L + dv_size ! j) # replicate (n - Suc m) L)
           = a # replicate (Suc m) (L + dv_size ! j) @ replicate (n - Suc m) L"
    by (simp add: replicate_append_same)
  finally show ?case .
qed

lemma count_eptr_prefix:
  assumes "foldE (count_eptr_step cm dv_size ndv rank) [0..<n] (replicate (ndv + 1) 0) = Inr e"
  shows "e = 0 # replicate ndv (length (e_cols_of cm dv_size dv_start rank n))"
  using assms
proof (induction n arbitrary: e)
  case 0
  then show ?case by (simp add: e_cols_of_def)
next
  case (Suc n)
  from Suc.prems obtain t where t: "foldE (count_eptr_step cm dv_size ndv rank) [0..<n] (replicate (ndv + 1) 0) = Inr t"
    "count_eptr_step cm dv_size ndv rank n t = Inr e"
    by (auto simp: foldE_snoc_Inr)
  note IH = Suc.IH [OF t(1)]
  show ?case
  proof (cases "e_adjacent cm rank n")
    case False
    then have "e = t" using t(2) by (auto simp: count_eptr_step_def split: if_splits)
    then show ?thesis using IH False by (simp add: e_cols_of_Suc)
  next
    case True
    let ?L = "length (e_cols_of cm dv_size dv_start rank n)"
    have "foldE (\<lambda>k e. if k + 1 < length e \<and> n < length dv_size
                         then Inr (e[k + 1 := e ! (k + 1) + dv_size ! n])
                         else Inl OutOfBounds) [0..<ndv] (0 # replicate ndv ?L) = Inr e"
      using t(2) True IH by (auto simp: count_eptr_step_def split: if_splits)
    from count_inner [OF this] have "e = 0 # replicate ndv (?L + dv_size ! n)" by simp
    then show ?thesis using True by (simp add: e_cols_of_Suc)
  qed
qed

lemma sum_list_replicate_nat: "sum_list (replicate n (L :: nat)) = n * L"
  by (induction n) auto

lemma eptr_nth:
  assumes "i \<le> ndv"
  shows "partial_sum (0 # replicate ndv (L :: nat)) ! i = i * L"
proof -
  have "take (Suc i) (0 # replicate ndv L) = 0 # replicate i L"
    using assms by simp
  then show ?thesis using assms by (simp add: partial_sum_nth sum_list_replicate_nat)
qed

lemma eptr_last: "last (partial_sum (0 # replicate ndv (L :: nat))) = ndv * L"
  by (simp add: partial_sum_last sum_list_replicate_nat)

lemma concat_replicate_Suc: "concat (replicate (Suc m) xs) = concat (replicate m xs) @ xs"
  by (induction m) auto

lemma e_rows_prefix:
  assumes "foldE (e_row cm dv_size dv_start erow P rank (partial_sum (0 # replicate ndv L))) [0..<m] s
             = Inr s'"
    and "L = length (e_cols_of cm dv_size dv_start rank P)"
    and "length (ecol s) = ndv * L" and "m \<le> ndv"
  shows "length (ecol s') = ndv * L
       \<and> take (m * L) (ecol s') = concat (replicate m (e_cols_of cm dv_size dv_start rank P))"
  using assms(1,4)
proof (induction m arbitrary: s')
  case 0
  then show ?case using assms(3) by simp
next
  case (Suc m)
  let ?eptr = "partial_sum (0 # replicate ndv L)"
  let ?cols = "e_cols_of cm dv_size dv_start rank P"
  from Suc.prems(1) obtain t where t: "foldE (e_row cm dv_size dv_start erow P rank ?eptr) [0..<m] s = Inr t"
    "e_row cm dv_size dv_start erow P rank ?eptr m t = Inr s'"
    by (auto simp: foldE_snoc_Inr)
  from Suc.IH [OF t(1)] Suc.prems(2)
  have len_t: "length (ecol t) = ndv * L"
    and pre_t: "take (m * L) (ecol t) = concat (replicate m ?cols)" by simp_all
  have head: "?eptr ! m = m * L" using Suc.prems(2) by (simp add: eptr_nth)
  have "m * L \<le> ndv * L" using Suc.prems(2) by simp
  then have bound: "row_head (t\<lparr>row_head := m * L\<rparr>) \<le> length (ecol (t\<lparr>row_head := m * L\<rparr>))"
    using len_t by simp
  have run: "foldE (e_block cm dv_size dv_start erow rank m) [0..<P] (t\<lparr>row_head := m * L\<rparr>) = Inr s'"
    using t(2) head by (auto simp: e_row_def split: if_splits)
  from e_row_writes [OF run bound]
  have w1: "length (ecol s') = length (ecol t)"
    and w2: "ecol s' = take (m * L) (ecol t) @ ?cols @ drop (row_head s') (ecol t)"
    by simp_all
  have "take (Suc m * L) (ecol s') = take (m * L + L) ((take (m * L) (ecol t) @ ?cols) @ drop (row_head s') (ecol t))"
    using w2 by (simp add: add.commute)
  also have "\<dots> = take (m * L) (ecol t) @ ?cols"
  proof -
    have "length (take (m * L) (ecol t) @ ?cols) = m * L + L"
      using len_t \<open>m * L \<le> ndv * L\<close> assms(2) by simp
    then show ?thesis by (metis append_eq_conv_conj)
  qed
  also have "\<dots> = concat (replicate (Suc m) ?cols)"
    using pre_t concat_replicate_Suc [of m ?cols] by simp
  finally show ?case using w1 len_t by simp
qed

lemma take_drop_concat_replicate:
  assumes "i < n"
  shows "take (length xs) (drop (i * length xs) (concat (replicate n xs))) = xs"
proof -
  have "replicate n xs = replicate i xs @ xs # replicate (n - Suc i) xs"
    using assms by (metis Suc_diff_Suc add_diff_inverse_nat less_imp_Suc_add not_less_eq  replicate_Suc replicate_add nat_less_le order_less_imp_not_less)
  then have "concat (replicate n xs) = concat (replicate i xs) @ xs @ concat (replicate (n - Suc i) xs)"
    by simp
  moreover have "length (concat (replicate i xs)) = i * length xs"
    by (induction i) auto
  ultimately show ?thesis by simp
qed

lemma assemble_e_rows:
  assumes "assemble_e cm dv_size dv_start erow ndv P rank = Inr E" and "i < ndv"
  shows "e_row_cols E i = e_cols_of cm dv_size dv_start rank P"
proof -
  let ?cols = "e_cols_of cm dv_size dv_start rank P"
  let ?L = "length ?cols"
  from assms(1) obtain counts s where
    c: "count_eptr cm dv_size ndv P rank = Inr counts"
    and f: "foldE (e_row cm dv_size dv_start erow P rank (partial_sum counts)) [0..<ndv]
              \<lparr>ecol = replicate (last (partial_sum counts)) 0,
               eval = replicate (last (partial_sum counts)) 0, row_head = 0\<rparr> = Inr s"
    and E: "E = \<lparr>e_ptr = partial_sum counts, e_col = ecol s, e_val = eval s\<rparr>"
    by (auto simp: assemble_e_def Let_def split: sum.splits)
  have counts: "counts = 0 # replicate ndv ?L"
    using c count_eptr_prefix by (simp add: count_eptr_def)
  have "length (ecol s) = ndv * ?L \<and> take (ndv * ?L) (ecol s) = concat (replicate ndv ?cols)"
    using e_rows_prefix [where L = ?L and m = ndv and ndv = ndv, OF f [unfolded counts]]
    by (simp add: eptr_last)
  then have ecol: "ecol s = concat (replicate ndv ?cols)"
    by (metis order_refl take_all)
  have p1: "e_ptr E ! i = i * ?L" using assms(2) by (simp add: E counts eptr_nth)
  have p2: "e_ptr E ! (i + 1) = (i + 1) * ?L" using assms(2) by (simp add: E counts eptr_nth)
  have "e_row_cols E i = take ?L (drop (i * ?L) (concat (replicate ndv ?cols)))"
    unfolding e_row_cols_def p1 p2 using ecol E by simp
  then show ?thesis using take_drop_concat_replicate [OF assms(2)] by simp
qed

lemma set_e_cols_of:
  "set (e_cols_of cm dv_size dv_start rank n)
     = {x. \<exists>j<n. e_adjacent cm rank j \<and> dv_start ! j \<le> x \<and> x < dv_start ! j + dv_size ! j}"
proof -
  have "\<And>j x. (x \<in> (\<lambda>k. dv_start ! j + k) ` {0..<dv_size ! j})
            \<longleftrightarrow> (dv_start ! j \<le> x \<and> x < dv_start ! j + dv_size ! j)"
  proof
    fix j x
    assume "x \<in> (\<lambda>k. dv_start ! j + k) ` {0..<dv_size ! j}"
    then show "dv_start ! j \<le> x \<and> x < dv_start ! j + dv_size ! j" by auto
  next
    fix j x
    assume a: "dv_start ! j \<le> x \<and> x < dv_start ! j + dv_size ! j"
    then have "x = dv_start ! j + (x - dv_start ! j)" "x - dv_start ! j < dv_size ! j" by auto
    then show "x \<in> (\<lambda>k. dv_start ! j + k) ` {0..<dv_size ! j}"
      by (metis atLeastLessThan_iff image_eqI zero_le)
  qed
  then show ?thesis by (auto simp: e_cols_of_def)
qed

text \<open>
  C4.  Row \<open>dv_start[p] + i\<close> of the coarse operator is row \<open>i\<close> of the strip that rank \<open>p\<close>
  assembles.  Column \<open>dv_start[q] + k\<close> is materialized in it if and only if \<open>p = q\<close> or
  \<open>comm_matrix[p][q] > 0\<close> or \<open>comm_matrix[q][p] > 0\<close>; hence the pattern is symmetric: the
  column of \<open>(q, k)\<close> is in the row of \<open>(p, i)\<close> if and only if the column of \<open>(p, i)\<close> is in
  the row of \<open>(q, k)\<close>.
\<close>

theorem e_pattern_symmetrized:
  assumes Ep: "assemble_e cm dv_size dv_start erow_p (dv_size ! p) P p = Inr Ep"
    and Eq: "assemble_e cm dv_size dv_start erow_q (dv_size ! q) P q = Inr Eq"
    and ds: "dv_start = 0 # partial_sum dv_size" and len: "length dv_size = P"
    and p: "p < P" and q: "q < P" and i: "i < dv_size ! p" and k: "k < dv_size ! q"
  shows "(dv_start ! q + k \<in> set (e_row_cols Ep i)
            \<longleftrightarrow> p = q \<or> 0 < cm ! p ! q \<or> 0 < cm ! q ! p)
       \<and> (dv_start ! q + k \<in> set (e_row_cols Ep i)
            \<longleftrightarrow> dv_start ! p + i \<in> set (e_row_cols Eq k))"
proof -
  have mem: "dv_start ! b + y \<in> set (e_cols_of cm dv_size dv_start a P) \<longleftrightarrow> e_adjacent cm a b"
    if "b < P" "y < dv_size ! b" for a b y
  proof
    assume "dv_start ! b + y \<in> set (e_cols_of cm dv_size dv_start a P)"
    then obtain j where j: "j < P" "e_adjacent cm a j" "dv_start ! j \<le> dv_start ! b + y"
      "dv_start ! b + y < dv_start ! j + dv_size ! j"
      by (auto simp: set_e_cols_of)
    have "j = b"
      using dv_block_unique [OF ds, of j b "dv_start ! b + y"] j that len by simp
    then show "e_adjacent cm a b" using j by simp
  next
    assume "e_adjacent cm a b"
    then show "dv_start ! b + y \<in> set (e_cols_of cm dv_size dv_start a P)"
      using that by (auto simp: set_e_cols_of)
  qed
  have rp: "e_row_cols Ep i = e_cols_of cm dv_size dv_start p P"
    using assemble_e_rows [OF Ep i] .
  have rq: "e_row_cols Eq k = e_cols_of cm dv_size dv_start q P"
    using assemble_e_rows [OF Eq k] .
  have 1: "dv_start ! q + k \<in> set (e_row_cols Ep i) \<longleftrightarrow> e_adjacent cm p q"
    using mem [OF q k] rp by simp
  have 2: "dv_start ! p + i \<in> set (e_row_cols Eq k) \<longleftrightarrow> e_adjacent cm q p"
    using mem [OF p i] rq by simp
  have 3: "e_adjacent cm p q \<longleftrightarrow> p = q \<or> 0 < cm ! p ! q \<or> 0 < cm ! q ! p"
    by (auto simp: e_adjacent_def)
  have 4: "e_adjacent cm q p \<longleftrightarrow> e_adjacent cm p q"
    by (auto simp: e_adjacent_def)
  show ?thesis unfolding 1 2 4 3 by simp
qed

subsection \<open>The partition map\<close>

lemma owner_ge_iff:
  assumes "sorted D" and "i < length D"
  shows "int i \<le> owner D c \<longleftrightarrow> D ! i \<le> c"
  using upper_bound_sorted_iff [OF assms, of c] by (auto simp: owner_def)

lemma owner_eq_iff:
  assumes "sorted D" and "r + 1 < length D"
  shows "owner D c = int r \<longleftrightarrow> D ! r \<le> c \<and> c < D ! (r + 1)"
proof -
  have a: "int r \<le> owner D c \<longleftrightarrow> D ! r \<le> c"
    using owner_ge_iff [OF assms(1), of r c] assms(2) by simp
  have b: "int (r + 1) \<le> owner D c \<longleftrightarrow> D ! (r + 1) \<le> c"
    using owner_ge_iff [OF assms(1), of "r + 1" c] assms(2) by simp
  show ?thesis using a b by auto
qed

lemma owner_mono:
  assumes "c \<le> c'"
  shows "owner D c \<le> owner D c'"
proof -
  have "length (takeWhile (\<lambda>x. x \<le> c) D) \<le> length (takeWhile (\<lambda>x. x \<le> c') D)"
  proof (induction D)
    case Nil
    then show ?case by simp
  next
    case (Cons x D)
    then show ?case using assms by auto
  qed
  then show ?thesis by (simp add: owner_def upper_bound_def)
qed

lemma owner_less_length: "owner D c < int (length D)"
  using upper_bound_le_length [of D c] by (simp add: owner_def)

lemma sorted_domain:
  "sorted (partial_sum (0 # map int xs))"
proof -
  have "partial_sum (0 # map int xs) = map int (partial_sum (0 # xs))"
  proof -
    have "partial_sum_from (int a) (map int ys) = map int (partial_sum_from a ys)" for a ys
      by (induction ys arbitrary: a) (auto simp flip: of_nat_add)
    from this [of 0 "0 # xs"] show ?thesis by (simp add: partial_sum_def)
  qed
  moreover have "sorted (map int (partial_sum (0 # xs)))"
    using sorted_partial_sum_nat [of "0 # xs"] by (simp add: sorted_map sorted_wrt_mono_rel [of _ "(\<le>)"])
  ultimately show ?thesis by simp
qed

subsection \<open>The map of remote columns\<close>

lemma rc_insert_keys: "fst ` set (rc_insert c m) = insert c (fst ` set m)"
  by (induction c m rule: rc_insert.induct) auto

lemma rc_insert_sorted:
  "sorted_wrt (<) (map fst m) \<Longrightarrow> sorted_wrt (<) (map fst (rc_insert c m))"
proof (induction c m rule: rc_insert.induct)
  case (1 c)
  then show ?case by simp
next
  case (2 c k g m)
  have "\<forall>x \<in> fst ` set (rc_insert c m). k < x" if "k < c"
    using that 2(2) by (auto simp: rc_insert_keys)
  then show ?case using 2 by (auto simp: rc_insert_keys)
qed

subsection \<open>First pass\<close>

lemma first_pass_entry_Inr:
  assumes "first_pass_entry D dv rank i a s = Inr s'"
  shows "0 \<le> owner D (fst a)" and "nat (owner D (fst a)) < length (marker1 s)"
    and "length (marker1 s') = length (marker1 s)" and "length (ptr1 s') = length (ptr1 s)"
    and "rc s' = (if owner D (fst a) = int rank then rc s else rc_insert (fst a) (rc s))"
    and "marker1 s ! nat (owner D (fst a)) \<noteq> int i \<Longrightarrow>
           nat (owner D (fst a)) < length dv \<and> i + 1 < length (ptr1 s)
           \<and> marker1 s' = (marker1 s)[nat (owner D (fst a)) := int i]
           \<and> ptr1 s' = (ptr1 s)[i + 1 := ptr1 s ! (i + 1) + dv ! nat (owner D (fst a))]"
    and "marker1 s ! nat (owner D (fst a)) = int i \<Longrightarrow> marker1 s' = marker1 s \<and> ptr1 s' = ptr1 s"
  using assms by (auto simp: first_pass_entry_def Let_def split: if_splits)

lemma row_owners_snoc: "row_owners D (es @ [a]) = insert (owner D (fst a)) (row_owners D es)"
  by (auto simp: row_owners_def)

lemma row_count_snoc:
  "row_count D dv (es @ [a]) =
     (if owner D (fst a) \<in> row_owners D es then row_count D dv es
      else row_count D dv es + dv ! nat (owner D (fst a)))"
proof -
  have fin: "finite (row_owners D es)" by (simp add: row_owners_def)
  show ?thesis
    unfolding row_count_def row_owners_snoc using fin
    by (simp add: insert_absorb)
qed

lemma first_pass_row_marker:
  assumes run: "foldE (first_pass_entry D dv rank i) es s0 = Inr s"
    and fresh: "\<forall>d<length (marker1 s0). marker1 s0 ! d \<noteq> int i"
  shows "length (marker1 s) = length (marker1 s0) \<and> length (ptr1 s) = length (ptr1 s0)
       \<and> (\<forall>d<length (marker1 s0).
             marker1 s ! d = (if int d \<in> row_owners D es then int i else marker1 s0 ! d))
       \<and> ptr1 s = (ptr1 s0)[i + 1 := ptr1 s0 ! (i + 1) + row_count D dv es]
       \<and> (\<forall>d \<in> row_owners D es. 0 \<le> d \<and> nat d < length (marker1 s0) \<and> nat d < length dv)"
    (is "?I es s")
  using run
proof (induction es arbitrary: s rule: rev_induct)
  case Nil
  then show ?case by (simp add: row_owners_def row_count_def)
next
  case (snoc a es)
  then obtain t where t: "foldE (first_pass_entry D dv rank i) es s0 = Inr t"
    and step: "first_pass_entry D dv rank i a t = Inr s"
    by (auto simp: foldE_snoc_Inr)
  let ?d = "owner D (fst a)"
  from snoc.IH [OF t]
  have lm: "length (marker1 t) = length (marker1 s0)" and lp: "length (ptr1 t) = length (ptr1 s0)"
    and mk: "\<forall>d<length (marker1 s0). marker1 t ! d = (if int d \<in> row_owners D es then int i else marker1 s0 ! d)"
    and pt: "ptr1 t = (ptr1 s0)[i + 1 := ptr1 s0 ! (i + 1) + row_count D dv es]"
    and vl: "\<forall>d \<in> row_owners D es. 0 \<le> d \<and> nat d < length (marker1 s0) \<and> nat d < length dv"
    by blast+
  note E = first_pass_entry_Inr [OF step]
  have d0: "0 \<le> ?d" and dm: "nat ?d < length (marker1 s0)" using E(1,2) lm by simp_all
  have seen: "marker1 t ! nat ?d = int i \<longleftrightarrow> ?d \<in> row_owners D es"
    using mk dm d0 fresh by auto
  show ?case
  proof (cases "?d \<in> row_owners D es")
    case True
    then have same: "marker1 s = marker1 t" "ptr1 s = ptr1 t" using E(7) seen by simp_all
    have ro: "row_owners D (es @ [a]) = row_owners D es" using True by (auto simp: row_owners_snoc)
    have rcnt: "row_count D dv (es @ [a]) = row_count D dv es" using True by (simp add: row_count_snoc)
    show ?thesis unfolding ro rcnt same using lm lp mk pt vl by blast
  next
    case False
    then have ne: "marker1 t ! nat ?d \<noteq> int i" using seen by simp
    from E(6) [OF ne] have dv: "nat ?d < length dv" and ip: "i + 1 < length (ptr1 t)"
      and ms: "marker1 s = (marker1 t)[nat ?d := int i]"
      and ps: "ptr1 s = (ptr1 t)[i + 1 := ptr1 t ! (i + 1) + dv ! nat ?d]"
      by blast+
    have rcnt: "row_count D dv (es @ [a]) = row_count D dv es + dv ! nat ?d"
      using False by (simp add: row_count_snoc)
    have 1: "length (marker1 s) = length (marker1 s0)" using ms lm by simp
    have 2: "length (ptr1 s) = length (ptr1 s0)" using ps lp by simp
    have 3: "\<forall>d<length (marker1 s0).
             marker1 s ! d = (if int d \<in> row_owners D (es @ [a]) then int i else marker1 s0 ! d)"
    proof (intro allI impI)
      fix d assume d: "d < length (marker1 s0)"
      show "marker1 s ! d = (if int d \<in> row_owners D (es @ [a]) then int i else marker1 s0 ! d)"
      proof (cases "d = nat ?d")
        case True
        then show ?thesis using ms lm d d0 by (simp add: row_owners_snoc)
      next
        case False
        then have "int d \<noteq> ?d" using d0 by auto
        then show ?thesis using ms lm d mk False by (simp add: row_owners_snoc)
      qed
    qed
    have "ptr1 t ! (i + 1) = ptr1 s0 ! (i + 1) + row_count D dv es"
      using pt ip lp by simp
    then have 4: "ptr1 s = (ptr1 s0)[i + 1 := ptr1 s0 ! (i + 1) + row_count D dv (es @ [a])]"
      using ps pt rcnt by (simp add: add.assoc)
    have 5: "\<forall>d \<in> row_owners D (es @ [a]). 0 \<le> d \<and> nat d < length (marker1 s0) \<and> nat d < length dv"
      using vl d0 dm dv by (auto simp: row_owners_snoc)
    show ?thesis using 1 2 3 4 5 by blast
  qed
qed

lemma first_pass_row_rc:
  assumes "foldE (first_pass_entry D dv rank i) es s0 = Inr s"
    and "sorted_wrt (<) (map fst (rc s0))"
  shows "sorted_wrt (<) (map fst (rc s))
       \<and> fst ` set (rc s) = fst ` set (rc s0) \<union> {c \<in> fst ` set es. owner D c \<noteq> int rank}"
  using assms(1)
proof (induction es arbitrary: s rule: rev_induct)
  case Nil
  then show ?case using assms(2) by simp
next
  case (snoc a es)
  then obtain t where t: "foldE (first_pass_entry D dv rank i) es s0 = Inr t"
    and step: "first_pass_entry D dv rank i a t = Inr s"
    by (auto simp: foldE_snoc_Inr)
  from snoc.IH [OF t] have st: "sorted_wrt (<) (map fst (rc t))"
    and ks: "fst ` set (rc t) = fst ` set (rc s0) \<union> {c \<in> fst ` set es. owner D c \<noteq> int rank}"
    by blast+
  note E = first_pass_entry_Inr(5) [OF step]
  show ?case
  proof (cases "owner D (fst a) = int rank")
    case True
    then have "rc s = rc t" using E by simp
    then show ?thesis using st ks True by auto
  next
    case False
    then have "rc s = rc_insert (fst a) (rc t)" using E by simp
    then show ?thesis using st ks False by (auto simp: rc_insert_keys rc_insert_sorted)
  qed
qed

lemma first_pass_rows:
  assumes run: "foldE (\<lambda>i. foldE (first_pass_entry D dv rank i) (A ! i)) [0..<n]
                  \<lparr>loc_nnz = 0, rem_nnz = 0, rc = [],
                   ptr1 = replicate (length A + 1) 0, marker1 = replicate nz (- 1)\<rparr> = Inr s"
    and n: "n \<le> length A"
  shows "length (marker1 s) = nz \<and> (\<forall>d<nz. marker1 s ! d < int n)
       \<and> ptr1 s = 0 # map (\<lambda>i. row_count D dv (A ! i)) [0..<n] @ replicate (length A - n) 0
       \<and> (\<forall>i<n. \<forall>d \<in> row_owners D (A ! i). 0 \<le> d \<and> nat d < nz \<and> nat d < length dv)
       \<and> sorted_wrt (<) (map fst (rc s))
       \<and> fst ` set (rc s) = {c. \<exists>i<n. c \<in> fst ` set (A ! i) \<and> owner D c \<noteq> int rank}"
  using run n
proof (induction n arbitrary: s)
  case 0
  then show ?case by auto
next
  case (Suc n)
  let ?s0 = "\<lparr>loc_nnz = 0, rem_nnz = 0, rc = [],
             ptr1 = replicate (length A + 1) 0, marker1 = replicate nz (- 1)\<rparr>"
  from Suc.prems(1) obtain t where t: "foldE (\<lambda>i. foldE (first_pass_entry D dv rank i) (A ! i)) [0..<n] ?s0 = Inr t"
    and row: "foldE (first_pass_entry D dv rank n) (A ! n) t = Inr s"
    by (auto simp: foldE_snoc_Inr)
  from Suc.IH [OF t] Suc.prems(2)
  have lm: "length (marker1 t) = nz" and mk: "\<forall>d<nz. marker1 t ! d < int n"
    and pt: "ptr1 t = 0 # map (\<lambda>i. row_count D dv (A ! i)) [0..<n] @ replicate (length A - n) 0"
    and vl: "\<forall>i<n. \<forall>d \<in> row_owners D (A ! i). 0 \<le> d \<and> nat d < nz \<and> nat d < length dv"
    and st: "sorted_wrt (<) (map fst (rc t))"
    and ks: "fst ` set (rc t) = {c. \<exists>i<n. c \<in> fst ` set (A ! i) \<and> owner D c \<noteq> int rank}"
    by simp_all
  have fresh: "\<forall>d<length (marker1 t). marker1 t ! d \<noteq> int n" using lm mk by auto
  from first_pass_row_marker [OF row fresh]
  have lm': "length (marker1 s) = length (marker1 t)"
    and mk': "\<forall>d<length (marker1 t). marker1 s ! d = (if int d \<in> row_owners D (A ! n) then int n else marker1 t ! d)"
    and pt': "ptr1 s = (ptr1 t)[n + 1 := ptr1 t ! (n + 1) + row_count D dv (A ! n)]"
    and vl': "\<forall>d \<in> row_owners D (A ! n). 0 \<le> d \<and> nat d < length (marker1 t) \<and> nat d < length dv"
    by blast+
  from first_pass_row_rc [OF row st]
  have st': "sorted_wrt (<) (map fst (rc s))"
    and ks': "fst ` set (rc s) = fst ` set (rc t) \<union> {c \<in> fst ` set (A ! n). owner D c \<noteq> int rank}"
    by blast+
  have 1: "length (marker1 s) = nz" using lm lm' by simp
  have 2: "\<forall>d<nz. marker1 s ! d < int (Suc n)"
  proof (intro allI impI)
    fix d assume "d < nz"
    then show "marker1 s ! d < int (Suc n)" using mk' mk lm by (auto split: if_splits)
  qed
  have nA: "n < length A" using Suc.prems(2) by simp
  have rep: "replicate (length A - n) (0::nat) = 0 # replicate (length A - Suc n) 0"
    using nA by (simp add: Suc_diff_Suc replicate_Suc [symmetric] del: replicate_Suc)
  have tn: "ptr1 t ! (n + 1) = 0" using pt rep by (simp add: nth_append)
  have "ptr1 s = (0 # map (\<lambda>i. row_count D dv (A ! i)) [0..<n] @ 0 # replicate (length A - Suc n) 0)
                   [n + 1 := row_count D dv (A ! n)]"
    using pt' pt tn rep by simp
  also have "\<dots> = 0 # (map (\<lambda>i. row_count D dv (A ! i)) [0..<n] @ (0 # replicate (length A - Suc n) 0))
                   [n := row_count D dv (A ! n)]"
    by simp
  also have "\<dots> = 0 # map (\<lambda>i. row_count D dv (A ! i)) [0..<n] @ row_count D dv (A ! n) # replicate (length A - Suc n) 0"
    by (simp add: list_update_append)
  finally have 3: "ptr1 s = 0 # map (\<lambda>i. row_count D dv (A ! i)) [0..<Suc n] @ replicate (length A - Suc n) 0"
    by simp
  have 4: "\<forall>i<Suc n. \<forall>d \<in> row_owners D (A ! i). 0 \<le> d \<and> nat d < nz \<and> nat d < length dv"
    using vl vl' lm by (auto simp: less_Suc_eq)
  have 6: "fst ` set (rc s) = {c. \<exists>i<Suc n. c \<in> fst ` set (A ! i) \<and> owner D c \<noteq> int rank}"
    unfolding ks' ks by (auto simp: less_Suc_eq)
  show ?case using 1 2 3 4 st' 6 by blast
qed

lemma first_pass_result:
  assumes "first_pass D dv rank nz A = Inr s"
  shows "ptr1 s = 0 # map (\<lambda>i. row_count D dv (A ! i)) [0..<length A]"
    and "\<forall>i<length A. \<forall>d \<in> row_owners D (A ! i). 0 \<le> d \<and> nat d < nz \<and> nat d < length dv"
    and "sorted_wrt (<) (map fst (rc s))"
    and "fst ` set (rc s) = {c. \<exists>i<length A. c \<in> fst ` set (A ! i) \<and> owner D c \<noteq> int rank}"
  using first_pass_rows [OF assms [unfolded first_pass_def] order_refl] by simp_all

subsection \<open>Renumbering of the remote columns\<close>

lemma advance_nbr_owner:
  assumes "advance_nbr D c cur = Inr cur'" and "sorted D" and "int cur \<le> owner D c"
  shows "int cur' = owner D c"
  using assms
proof (induction D c cur rule: advance_nbr.induct)
  case (1 D c cur)
  from "1.prems"(1) have len: "cur + 1 < length D"
    by (subst (asm) advance_nbr.simps) (auto split: if_splits)
  have ge: "int (cur + 1) \<le> owner D c \<longleftrightarrow> D ! (cur + 1) \<le> c"
    using owner_ge_iff [OF "1.prems"(2) len] .
  show ?case
  proof (cases "D ! (cur + 1) \<le> c")
    case True
    then have "advance_nbr D c (cur + 1) = Inr cur'"
      using "1.prems"(1) len by (subst (asm) advance_nbr.simps) simp
    then show ?thesis using "1.IH" [OF len True] "1.prems"(2) ge True by simp
  next
    case False
    then have "cur' = cur"
      using "1.prems"(1) len by (subst (asm) advance_nbr.simps) simp
    then show ?thesis using ge False "1.prems"(3) by simp
  qed
qed

lemma renumber_step_Inr:
  assumes "renumber_step D e s = Inr s'"
  shows "\<exists>cur. advance_nbr D (fst e) (cur_nbr s) = Inr cur \<and> cur < length (num_recv s)
          \<and> cur_nbr s' = cur
          \<and> num_recv s' = (num_recv s)[cur := num_recv s ! cur + 1]"
    and "rn_rc s' = rn_rc s @ [(fst e, rn_id s)]" and "rn_id s' = rn_id s + 1"
    and "recv_cols s' = recv_cols s @ [fst e]"
  using assms by (auto simp: renumber_step_def split: sum.splits if_splits)

lemma renumber_ids:
  assumes "foldE (renumber_step D) m s0 = Inr s"
  shows "recv_cols s = recv_cols s0 @ map fst m
       \<and> rn_rc s = rn_rc s0 @ zip (map fst m) [rn_id s0..<rn_id s0 + length m]
       \<and> rn_id s = rn_id s0 + length m"
  using assms
proof (induction m arbitrary: s rule: rev_induct)
  case Nil
  then show ?case by simp
next
  case (snoc e m)
  then obtain t where t: "foldE (renumber_step D) m s0 = Inr t" and step: "renumber_step D e t = Inr s"
    by (auto simp: foldE_snoc_Inr)
  from snoc.IH [OF t] have a: "recv_cols t = recv_cols s0 @ map fst m"
    and b: "rn_rc t = rn_rc s0 @ zip (map fst m) [rn_id s0..<rn_id s0 + length m]"
    and c: "rn_id t = rn_id s0 + length m" by blast+
  note E = renumber_step_Inr(2-4) [OF step]
  have z: "zip (map fst (m @ [e])) [rn_id s0..<rn_id s0 + length (m @ [e])]
        = zip (map fst m) [rn_id s0..<rn_id s0 + length m] @ [(fst e, rn_id s0 + length m)]"
    by simp
  show ?case using E a b c z by simp
qed

lemma owned_by_snoc:
  "owned_by D (ks @ [c]) p = owned_by D ks p + (if owner D c = int p then 1 else 0)"
  by (simp add: owned_by_def)

lemma renumber_counts:
  assumes run: "foldE (renumber_step D) m s0 = Inr s"
    and D: "sorted D"
    and keys: "sorted (map fst m)" "\<forall>c \<in> fst ` set m. 0 \<le> owner D c"
    and s0: "cur_nbr s0 = 0"
  shows "length (num_recv s) = length (num_recv s0)
       \<and> (\<forall>p<length (num_recv s0). num_recv s ! p = num_recv s0 ! p + owned_by D (map fst m) p)
       \<and> (\<forall>c \<in> fst ` set m. nat (owner D c) < length (num_recv s0))
       \<and> (m \<noteq> [] \<longrightarrow> int (cur_nbr s) = owner D (fst (last m)))"
  using run keys
proof (induction m arbitrary: s rule: rev_induct)
  case Nil
  then show ?case by (simp add: owned_by_def)
next
  case (snoc e m)
  then obtain t where t: "foldE (renumber_step D) m s0 = Inr t" and step: "renumber_step D e t = Inr s"
    by (auto simp: foldE_snoc_Inr)
  have km: "sorted (map fst m)" "\<forall>c \<in> fst ` set m. 0 \<le> owner D c"
    using snoc.prems(2,3) by (auto simp: sorted_append)
  from snoc.IH [OF t km]
  have ln: "length (num_recv t) = length (num_recv s0)"
    and nr: "\<forall>p<length (num_recv s0). num_recv t ! p = num_recv s0 ! p + owned_by D (map fst m) p"
    and vl: "\<forall>c \<in> fst ` set m. nat (owner D c) < length (num_recv s0)"
    and cu: "m \<noteq> [] \<longrightarrow> int (cur_nbr t) = owner D (fst (last m))"
    by blast+
  from renumber_step_Inr(1) [OF step] obtain cur where
    adv: "advance_nbr D (fst e) (cur_nbr t) = Inr cur" and cl: "cur < length (num_recv t)"
    and cs: "cur_nbr s = cur" and ns: "num_recv s = (num_recv t)[cur := num_recv t ! cur + 1]"
    by blast
  have e0: "0 \<le> owner D (fst e)" using snoc.prems(3) by simp
  have le: "int (cur_nbr t) \<le> owner D (fst e)"
  proof (cases "m = []")
    case True
    then have "cur_nbr t = 0" using t s0 by simp
    then show ?thesis using e0 by simp
  next
    case False
    have "fst (last m) \<in> set (map fst m)" using False by (simp add: last_in_set)
    then have "fst (last m) \<le> fst e" using snoc.prems(2) by (auto simp: sorted_append)
    then show ?thesis using cu False owner_mono by simp
  qed
  have cur: "int cur = owner D (fst e)" using advance_nbr_owner [OF adv D le] .
  have 1: "length (num_recv s) = length (num_recv s0)" using ns ln by simp
  have 2: "\<forall>p<length (num_recv s0). num_recv s ! p = num_recv s0 ! p + owned_by D (map fst (m @ [e])) p"
  proof (intro allI impI)
    fix p assume p: "p < length (num_recv s0)"
    show "num_recv s ! p = num_recv s0 ! p + owned_by D (map fst (m @ [e])) p"
    proof (cases "p = cur")
      case True
      then show ?thesis using ns nr p cl ln cur by (simp add: owned_by_snoc)
    next
      case False
      then have "owner D (fst e) \<noteq> int p" using cur by auto
      then show ?thesis using ns nr p False by (simp add: owned_by_snoc)
    qed
  qed
  have "nat (owner D (fst e)) < length (num_recv s0)" using cur cl ln by (metis nat_int)
  then have 3: "\<forall>c \<in> fst ` set (m @ [e]). nat (owner D c) < length (num_recv s0)"
    using vl by auto
  have 4: "m @ [e] \<noteq> [] \<longrightarrow> int (cur_nbr s) = owner D (fst (last (m @ [e])))"
    using cs cur by simp
  show ?case using 1 2 3 4 by blast
qed

lemma renumber_result:
  assumes run: "renumber D P m = Inr rn"
  shows "recv_cols rn = map fst m" and "rn_rc rn = zip (map fst m) [0..<length m]"
    and "\<lbrakk>sorted D; sorted_wrt (<) (map fst m); \<forall>c \<in> fst ` set m. 0 \<le> owner D c\<rbrakk>
         \<Longrightarrow> length (num_recv rn) = P
           \<and> (\<forall>p<P. num_recv rn ! p = owned_by D (map fst m) p)
           \<and> (\<forall>c \<in> fst ` set m. nat (owner D c) < P)"
proof -
  let ?s0 = "\<lparr>rn_rc = [], rn_id = 0, cur_nbr = 0, recv_cols = [], num_recv = replicate P 0\<rparr>"
  have f: "foldE (renumber_step D) m ?s0 = Inr rn" using run by (simp add: renumber_def)
  from renumber_ids [OF f] show "recv_cols rn = map fst m"
    and "rn_rc rn = zip (map fst m) [0..<length m]" by simp_all
  assume D: "sorted D" and k: "sorted_wrt (<) (map fst m)" "\<forall>c \<in> fst ` set m. 0 \<le> owner D c"
  have "sorted (map fst m)" using k(1) by (simp add: strict_sorted_imp_sorted)
  from renumber_counts [OF f D this k(2)]
  show "length (num_recv rn) = P
           \<and> (\<forall>p<P. num_recv rn ! p = owned_by D (map fst m) p)
           \<and> (\<forall>c \<in> fst ` set m. nat (owner D c) < P)"
    by simp
qed

subsection \<open>The stages of the setup\<close>

lemma setup_stages:
  assumes "subdomain_deflation_setup P rank nrows_all ndv_all nra zp A ndv dvf = Inr res"
  shows "\<exists>s1 rn recv send s2 zrecv_ptr zcol_ptr s3.
      r_dv_size res = all_gather rank ndv ndv_all
    \<and> r_dv_start res = 0 # partial_sum (r_dv_size res)
    \<and> r_domain res = partial_sum (0 # map int (all_gather rank (length A) nrows_all))
    \<and> first_pass (r_domain res) (r_dv_size res) rank (last (r_dv_start res)) A = Inr s1
    \<and> renumber (r_domain res) P (rc s1) = Inr rn
    \<and> r_comm_matrix res = all_gather rank (num_recv rn) nra
    \<and> comm_pattern (r_comm_matrix res) P rank = Inr (recv, send)
    \<and> second_pass (r_domain res) (r_dv_start res) ndv (last (r_dv_start res)) rank dvf (rn_rc rn)
         (ptr1 s1) A = Inr s2
    \<and> zptr (r_dv_size res) recv = Inr (zrecv_ptr, zcol_ptr)
    \<and> third_pass (r_dv_size res) (r_dv_start res) recv zcol_ptr (map zp [0..<last zrecv_ptr])
         (arem_ptr s2) (arem_col s2) (arem_val s2) (length A) s2 = Inr s3
    \<and> r_rc res = rn_rc rn \<and> r_recv_cols res = recv_cols rn \<and> r_num_recv res = num_recv rn
    \<and> r_recv res = recv \<and> r_send res = send
    \<and> r_aloc res = \<lparr>nrows = length A, ncols = length A, ptr = aloc_ptr s2,
                      col = aloc_col s2, val = aloc_val s2\<rparr>
    \<and> r_arem res = \<lparr>nrows = length A, ncols = length (rn_rc rn), ptr = arem_ptr s2,
                      col = arem_col s2, val = arem_val s2\<rparr>
    \<and> r_az res = \<lparr>nrows = length A, ncols = last (r_dv_start res), ptr = fix_ptr (az_ptr s3),
                    col = az_col s3, val = az_val s3\<rparr>
    \<and> r_ptr_alloc res = partial_sum (ptr1 s1) \<and> r_ptr_loc res = az_ptr s2
    \<and> r_ptr_rem res = az_ptr s3
    \<and> r_zcol_ptr res = zcol_ptr \<and> r_zrecv res = map zp [0..<last zrecv_ptr]"
  using assms
  unfolding subdomain_deflation_setup_def Let_def
  by (auto split: sum.splits prod.splits)

subsection \<open>Ghost numbering\<close>

lemma rc_lookup_zip:
  assumes "distinct ks" and "g < length ks"
  shows "rc_lookup (zip ks [0..<length ks]) (ks ! g) = g"
proof -
  have "map_of (zip ks [0..<length ks]) (ks ! g) = Some ([0..<length ks] ! g)"
    using assms by (intro map_of_zip_nth) simp_all
  then show ?thesis using assms by (simp add: rc_lookup_def)
qed

lemma recv_cols_numbering:
  assumes "subdomain_deflation_setup P rank nrows_all ndv_all nra zp A ndv dvf = Inr res"
  shows "sorted_wrt (<) (r_recv_cols res)
       \<and> set (r_recv_cols res)
           = {c. \<exists>i<length A. c \<in> fst ` set (A ! i) \<and> owner (r_domain res) c \<noteq> int rank}
       \<and> (\<forall>g<length (r_recv_cols res). rc_lookup (r_rc res) (r_recv_cols res ! g) = g)
       \<and> (\<forall>c \<in> set (r_recv_cols res).
             rc_lookup (r_rc res) c < length (r_recv_cols res)
             \<and> r_recv_cols res ! rc_lookup (r_rc res) c = c)
       \<and> ncols (r_arem res) = length (r_recv_cols res)"
proof -
  from setup_stages [OF assms] obtain s1 rn where
    fp: "first_pass (r_domain res) (r_dv_size res) rank (last (r_dv_start res)) A = Inr s1"
    and rn: "renumber (r_domain res) P (rc s1) = Inr rn"
    and rc: "r_rc res = rn_rc rn" and cols: "r_recv_cols res = recv_cols rn"
    and nc: "ncols (r_arem res) = length (rn_rc rn)"
    by fastforce
  let ?ks = "map fst (rc s1)"
  have sorted: "sorted_wrt (<) ?ks" using first_pass_result(3) [OF fp] .
  have keys: "fst ` set (rc s1)
      = {c. \<exists>i<length A. c \<in> fst ` set (A ! i) \<and> owner (r_domain res) c \<noteq> int rank}"
    using first_pass_result(4) [OF fp] .
  have c1: "r_recv_cols res = ?ks" using renumber_result(1) [OF rn] cols by simp
  have c2: "r_rc res = zip ?ks [0..<length ?ks]" using renumber_result(2) [OF rn] rc by simp
  have dist: "distinct ?ks" using sorted by (simp add: strict_sorted_iff)
  have 1: "sorted_wrt (<) (r_recv_cols res)" using sorted c1 by simp
  have 2: "set (r_recv_cols res)
           = {c. \<exists>i<length A. c \<in> fst ` set (A ! i) \<and> owner (r_domain res) c \<noteq> int rank}"
    using keys c1 by simp
  have 3: "\<forall>g<length (r_recv_cols res). rc_lookup (r_rc res) (r_recv_cols res ! g) = g"
    unfolding c1 c2 using rc_lookup_zip [OF dist] by blast
  have 4: "\<forall>c \<in> set (r_recv_cols res).
             rc_lookup (r_rc res) c < length (r_recv_cols res)
             \<and> r_recv_cols res ! rc_lookup (r_rc res) c = c"
  proof
    fix c assume "c \<in> set (r_recv_cols res)"
    then obtain g where g: "g < length (r_recv_cols res)" "r_recv_cols res ! g = c"
      by (auto simp: in_set_conv_nth)
    then show "rc_lookup (r_rc res) c < length (r_recv_cols res)
             \<and> r_recv_cols res ! rc_lookup (r_rc res) c = c"
      using 3 by auto
  qed
  have 5: "ncols (r_arem res) = length (r_recv_cols res)"
    using nc c1 c2 rc by simp
  show ?thesis using 1 2 3 4 5 by blast
qed


subsection \<open>Second pass: the local and the remote matrix\<close>

lemma az_touch_Inr:
  assumes "az_touch beg k w s = Inr s'"
  shows "k < length (marker s)" and "az_ptr s' = az_ptr s" and "az_build.more s' = az_build.more s"
    and "length (az_val s') = length (az_val s)"
    and "marker s ! k < int beg \<Longrightarrow>
           az_row_end s < length (az_col s) \<and> marker s' = (marker s)[k := int (az_row_end s)]
           \<and> az_col s' = (az_col s)[az_row_end s := k] \<and> az_row_end s' = az_row_end s + 1"
    and "\<not> marker s ! k < int beg \<Longrightarrow>
           marker s' = marker s \<and> az_col s' = az_col s \<and> az_row_end s' = az_row_end s"
  using assms by (auto simp: az_touch_def Let_def split: if_splits)

lemma az_touch_more:
  fixes s :: second_pass_state
  assumes "az_touch beg k w s = Inr s'"
  shows "aloc_ptr s' = aloc_ptr s \<and> aloc_col s' = aloc_col s \<and> aloc_val s' = aloc_val s
       \<and> arem_ptr s' = arem_ptr s \<and> arem_col s' = arem_col s \<and> arem_val s' = arem_val s"
  using assms by (auto simp: az_touch_def Let_def split: if_splits)

lemma az_touches_more:
  fixes s :: second_pass_state
  assumes "foldE (\<lambda>j. az_touch beg (f j) (g j)) js s = Inr s'"
  shows "aloc_ptr s' = aloc_ptr s \<and> aloc_col s' = aloc_col s \<and> aloc_val s' = aloc_val s
       \<and> arem_ptr s' = arem_ptr s \<and> arem_col s' = arem_col s \<and> arem_val s' = arem_val s"
  using assms
proof (induction js arbitrary: s)
  case Nil
  then show ?case by simp
next
  case (Cons j js)
  then obtain t where t: "az_touch beg (f j) (g j) s = Inr t"
    and r: "foldE (\<lambda>j. az_touch beg (f j) (g j)) js t = Inr s'"
    by (auto split: sum.splits)
  show ?case using Cons.IH [OF r] az_touch_more [OF t] by simp
qed

lemma second_pass_entry_matrices:
  assumes "second_pass_entry D ds ndv rank dvf rcm beg a s = Inr s'"
  shows "rank + 1 < length D"
    and "aloc_ptr s' = aloc_ptr s" and "arem_ptr s' = arem_ptr s"
    and "aloc_col s' = aloc_col s @ map fst (aloc_row D rank [a])"
    and "aloc_val s' = aloc_val s @ map snd (aloc_row D rank [a])"
    and "arem_col s' = arem_col s @ map fst (arem_row D rank rcm [a])"
    and "arem_val s' = arem_val s @ map snd (arem_row D rank rcm [a])"
proof -
  show r: "rank + 1 < length D"
    using assms by (auto simp: second_pass_entry_def Let_def split: if_splits)
  have "aloc_ptr s' = aloc_ptr s \<and> arem_ptr s' = arem_ptr s
      \<and> aloc_col s' = aloc_col s @ map fst (aloc_row D rank [a])
      \<and> aloc_val s' = aloc_val s @ map snd (aloc_row D rank [a])
      \<and> arem_col s' = arem_col s @ map fst (arem_row D rank rcm [a])
      \<and> arem_val s' = arem_val s @ map snd (arem_row D rank rcm [a])"
  proof (cases "is_local D rank (fst a)")
    case True
    let ?s1 = "s\<lparr>aloc_col := aloc_col s @ [nat (fst a - D ! rank)], aloc_val := aloc_val s @ [snd a]\<rparr>"
    have "foldE (\<lambda>j. az_touch beg (ds ! rank + j) (snd a * dvf (nat (fst a - D ! rank)) j)) [0..<ndv] ?s1
            = Inr s'"
      using assms True r by (auto simp: second_pass_entry_def Let_def split: if_splits)
    from az_touches_more [OF this] show ?thesis
      using True by (simp add: aloc_row_def arem_row_def)
  next
    case False
    then have "s' = s\<lparr>arem_col := arem_col s @ [rc_lookup rcm (fst a)], arem_val := arem_val s @ [snd a]\<rparr>"
      using assms r by (auto simp: second_pass_entry_def Let_def split: if_splits)
    then show ?thesis using False by (simp add: aloc_row_def arem_row_def)
  qed
  then show "aloc_ptr s' = aloc_ptr s" and "arem_ptr s' = arem_ptr s"
    and "aloc_col s' = aloc_col s @ map fst (aloc_row D rank [a])"
    and "aloc_val s' = aloc_val s @ map snd (aloc_row D rank [a])"
    and "arem_col s' = arem_col s @ map fst (arem_row D rank rcm [a])"
    and "arem_val s' = arem_val s @ map snd (arem_row D rank rcm [a])"
    by blast+
qed

lemma aloc_row_append: "aloc_row D rank (xs @ ys) = aloc_row D rank xs @ aloc_row D rank ys"
  by (simp add: aloc_row_def)

lemma arem_row_append: "arem_row D rank rcm (xs @ ys) = arem_row D rank rcm xs @ arem_row D rank rcm ys"
  by (simp add: arem_row_def)

lemma second_pass_entries_matrices:
  assumes "foldE (second_pass_entry D ds ndv rank dvf rcm beg) es s = Inr s'"
  shows "aloc_ptr s' = aloc_ptr s \<and> arem_ptr s' = arem_ptr s
      \<and> aloc_col s' = aloc_col s @ map fst (aloc_row D rank es)
      \<and> aloc_val s' = aloc_val s @ map snd (aloc_row D rank es)
      \<and> arem_col s' = arem_col s @ map fst (arem_row D rank rcm es)
      \<and> arem_val s' = arem_val s @ map snd (arem_row D rank rcm es)"
  using assms
proof (induction es arbitrary: s' rule: rev_induct)
  case Nil
  then show ?case by (simp add: aloc_row_def arem_row_def)
next
  case (snoc a es)
  then obtain t where t: "foldE (second_pass_entry D ds ndv rank dvf rcm beg) es s = Inr t"
    and step: "second_pass_entry D ds ndv rank dvf rcm beg a t = Inr s'"
    by (auto simp: foldE_snoc_Inr)
  note E = second_pass_entry_matrices(2-7) [OF step]
  show ?case using snoc.IH [OF t] E by (simp add: aloc_row_append arem_row_append)
qed

lemma second_pass_row_matrices:
  assumes "second_pass_row D ds ndv rank dvf rcm A i s = Inr s'"
  shows "aloc_col s' = aloc_col s @ map fst (aloc_row D rank (A ! i))
      \<and> aloc_val s' = aloc_val s @ map snd (aloc_row D rank (A ! i))
      \<and> arem_col s' = arem_col s @ map fst (arem_row D rank rcm (A ! i))
      \<and> arem_val s' = arem_val s @ map snd (arem_row D rank rcm (A ! i))
      \<and> aloc_ptr s' = aloc_ptr s @ [length (aloc_col s')]
      \<and> arem_ptr s' = arem_ptr s @ [length (arem_col s')]"
proof -
  from assms obtain t where
    t: "foldE (second_pass_entry D ds ndv rank dvf rcm (az_ptr s ! i)) (A ! i)
          (s\<lparr>az_row_end := az_ptr s ! i\<rparr>) = Inr t"
    and s': "s' = t\<lparr>az_ptr := (az_ptr t)[i := az_row_end t],
                    aloc_ptr := aloc_ptr t @ [length (aloc_col t)],
                    arem_ptr := arem_ptr t @ [length (arem_col t)]\<rparr>"
    by (auto simp: second_pass_row_def Let_def split: if_splits sum.splits)
  show ?thesis using second_pass_entries_matrices [OF t] s' by simp
qed

text \<open>The rows of a matrix that was built by appending row after row.\<close>

lemma built_from_snoc:
  assumes "built_from p cs vs rows"
  shows "built_from (p @ [length (cs @ map fst r)]) (cs @ map fst r) (vs @ map snd r) (rows @ [r])"
proof -
  have "map (\<lambda>m. length (concat (take m (rows @ [r])))) [0..<Suc (length rows)]
      = map (\<lambda>m. length (concat (take m rows))) [0..<Suc (length rows)]"
    by (rule map_cong) auto
  moreover have "length (concat (map (map fst) rows)) = length (concat rows)"
    by (simp add: length_concat comp_def)
  ultimately show ?thesis using assms by (simp add: built_from_def)
qed

lemma concat_map_split:
  assumes "i < length rows"
  shows "concat (map f rows)
       = concat (map f (take i rows)) @ f (rows ! i) @ concat (map f (drop (Suc i) rows))"
proof -
  have "rows = take i rows @ rows ! i # drop (Suc i) rows"
    using assms by (simp add: id_take_nth_drop)
  then have "map f rows = map f (take i rows) @ f (rows ! i) # map f (drop (Suc i) rows)"
    by (metis map_append list.simps(9))
  then show ?thesis by simp
qed

lemma built_from_row:
  assumes "built_from p cs vs rows" and "i < length rows"
  shows "row_entries p cs vs i = Inr (rows ! i)"
    and "p ! i + length (rows ! i) = p ! (i + 1)"
proof -
  have pi: "p ! i = length (concat (take i rows))"
    using assms by (simp add: built_from_def nth_append del: upt_Suc)
  have pS: "p ! (i + 1) = length (concat (take (Suc i) rows))"
    using assms by (simp add: built_from_def nth_append del: upt_Suc)
  have lp: "length p = Suc (length rows)" using assms by (simp add: built_from_def)
  have split: "rows = take i rows @ rows ! i # drop (Suc i) rows"
    using assms(2) by (simp add: id_take_nth_drop)
  have tS: "take (Suc i) rows = take i rows @ [rows ! i]"
    using assms(2) by (simp add: take_Suc_conv_app_nth)
  show len: "p ! i + length (rows ! i) = p ! (i + 1)" using pi pS tS by simp
  have cs: "cs = concat (map (map fst) (take i rows)) @ map fst (rows ! i)
                   @ concat (map (map fst) (drop (Suc i) rows))"
    using assms(1) concat_map_split [OF assms(2), of "map fst"] by (simp add: built_from_def)
  have vs: "vs = concat (map (map snd) (take i rows)) @ map snd (rows ! i)
                   @ concat (map (map snd) (drop (Suc i) rows))"
    using assms(1) concat_map_split [OF assms(2), of "map snd"] by (simp add: built_from_def)
  have l1: "length (concat (map (map fst) (take i rows))) = p ! i"
    by (simp add: pi length_concat comp_def)
  have l2: "length (concat (map (map snd) (take i rows))) = p ! i"
    by (simp add: pi length_concat comp_def)
  have d1: "drop (p ! i) cs = map fst (rows ! i) @ concat (map (map fst) (drop (Suc i) rows))"
    by (subst cs) (simp add: l1)
  have d2: "drop (p ! i) vs = map snd (rows ! i) @ concat (map (map snd) (drop (Suc i) rows))"
    by (subst vs) (simp add: l2)
  have n: "p ! (i + 1) - p ! i = length (rows ! i)" using len by simp
  have "length cs = p ! i + length (rows ! i) + length (concat (map (map fst) (drop (Suc i) rows)))"
    by (subst cs) (simp add: l1)
  then have b1: "p ! (i + 1) \<le> length cs" using len by simp
  have "length vs = p ! i + length (rows ! i) + length (concat (map (map snd) (drop (Suc i) rows)))"
    by (subst vs) (simp add: l2)
  then have b2: "p ! (i + 1) \<le> length vs" using len by simp
  have "zip (take (length (rows ! i)) (drop (p ! i) cs)) (take (length (rows ! i)) (drop (p ! i) vs))
        = rows ! i"
    by (simp add: d1 d2 zip_map_fst_snd)
  then show "row_entries p cs vs i = Inr (rows ! i)"
    using b1 b2 lp assms(2) n by (simp add: row_entries_def)
qed

lemma second_pass_rows_matrices:
  assumes "foldE (second_pass_row D ds ndv rank dvf rcm A) [0..<n] s0 = Inr s"
    and "aloc_ptr s0 = [0]" "aloc_col s0 = []" "aloc_val s0 = []"
    and "arem_ptr s0 = [0]" "arem_col s0 = []" "arem_val s0 = []"
    and "n \<le> length A"
  shows "built_from (aloc_ptr s) (aloc_col s) (aloc_val s) (map (aloc_row D rank) (take n A))
       \<and> built_from (arem_ptr s) (arem_col s) (arem_val s) (map (arem_row D rank rcm) (take n A))"
  using assms(1,8)
proof (induction n arbitrary: s)
  case 0
  then show ?case using assms(2-7) by (simp add: built_from_def)
next
  case (Suc n)
  then obtain t where t: "foldE (second_pass_row D ds ndv rank dvf rcm A) [0..<n] s0 = Inr t"
    and row: "second_pass_row D ds ndv rank dvf rcm A n t = Inr s"
    by (auto simp: foldE_snoc_Inr)
  from Suc.IH [OF t] Suc.prems(2)
  have bl: "built_from (aloc_ptr t) (aloc_col t) (aloc_val t) (map (aloc_row D rank) (take n A))"
    and br: "built_from (arem_ptr t) (arem_col t) (arem_val t) (map (arem_row D rank rcm) (take n A))"
    by simp_all
  have tk: "take (Suc n) A = take n A @ [A ! n]"
    using Suc.prems(2) by (simp add: take_Suc_conv_app_nth)
  note R = second_pass_row_matrices [OF row]
  show ?case
    using built_from_snoc [OF bl, of "aloc_row D rank (A ! n)"]
      built_from_snoc [OF br, of "arem_row D rank rcm (A ! n)"] R
    by (simp add: tk)
qed

lemma length_domain:
  "length (partial_sum (0 # map int (all_gather rank n nrows_all))) = length nrows_all + 1"
  by (simp add: all_gather_def)

lemma is_local_owner:
  assumes "sorted D" and "rank + 1 < length D"
  shows "is_local D rank c \<longleftrightarrow> owner D c = int rank"
  using owner_eq_iff [OF assms] by (simp add: is_local_def)

lemma second_pass_matrices:
  assumes "second_pass D ds ndv nz rank dvf rcm counts A = Inr s"
  shows "built_from (aloc_ptr s) (aloc_col s) (aloc_val s) (map (aloc_row D rank) A)"
    and "built_from (arem_ptr s) (arem_col s) (arem_val s) (map (arem_row D rank rcm) A)"
  using second_pass_rows_matrices [OF assms [unfolded second_pass_def Let_def], of]
  by simp_all




subsection \<open>The receive schedule\<close>

lemma comm_pattern_step_recv:
  assumes "comm_pattern_step cm rank i (recv, send) = Inr (recv', send')"
  shows "rank < length cm \<and> i < length (cm ! rank)"
    and "cm ! rank ! i = 0 \<Longrightarrow> recv' = recv"
    and "cm ! rank ! i \<noteq> 0 \<Longrightarrow>
           nbr recv' = nbr recv @ [i] \<and> xptr recv' = xptr recv @ [last (xptr recv) + cm ! rank ! i]"
  using assms by (auto simp: comm_pattern_step_def Let_def split: if_splits)

lemma sorted_le_last:
  assumes "sorted xs" and "y \<in> set xs"
  shows "y \<le> last xs"
proof -
  from assms(2) obtain i where i: "i < length xs" "xs ! i = y" by (auto simp: in_set_conv_nth)
  have "xs \<noteq> []" using assms(2) by auto
  then have "last xs = xs ! (length xs - 1)" by (simp add: last_conv_nth)
  moreover have "xs ! i \<le> xs ! (length xs - 1)"
    using assms(1) i by (intro sorted_nth_mono) auto
  ultimately show ?thesis using i by simp
qed

lemma comm_pattern_recv_prefix:
  assumes "foldE (comm_pattern_step cm rank) [0..<n] (\<lparr>nbr = [], xptr = [0]\<rparr>, \<lparr>nbr = [], xptr = [0]\<rparr>)
             = Inr (recv, send)"
  shows "length (xptr recv) = length (nbr recv) + 1 \<and> sorted (xptr recv)
       \<and> last (xptr recv) = sum_list (map (\<lambda>q. cm ! rank ! q) [0..<n])
       \<and> (\<forall>p<n. cm ! rank ! p \<noteq> 0 \<longrightarrow>
             (\<exists>j<length (nbr recv). nbr recv ! j = p
                \<and> xptr recv ! j = sum_list (map (\<lambda>q. cm ! rank ! q) [0..<p])
                \<and> xptr recv ! (j + 1) = sum_list (map (\<lambda>q. cm ! rank ! q) [0..<p]) + cm ! rank ! p))
       \<and> (\<forall>p \<in> set (nbr recv). p < n \<and> cm ! rank ! p \<noteq> 0)"
  using assms
proof (induction n arbitrary: recv send)
  case 0
  then show ?case by auto
next
  case (Suc n)
  let ?f = "\<lambda>q. cm ! rank ! q"
  let ?S = "\<lambda>p. sum_list (map ?f [0..<p])"
  from Suc.prems obtain t where t: "foldE (comm_pattern_step cm rank) [0..<n]
        (\<lparr>nbr = [], xptr = [0]\<rparr>, \<lparr>nbr = [], xptr = [0]\<rparr>) = Inr t"
    and step: "comm_pattern_step cm rank n t = Inr (recv, send)"
    by (auto simp: foldE_snoc_Inr)
  obtain r0 s0 where t_eq: "t = (r0, s0)" by (cases t)
  from Suc.IH [OF t [unfolded t_eq]]
  have len: "length (xptr r0) = length (nbr r0) + 1" and srt: "sorted (xptr r0)"
    and lst: "last (xptr r0) = ?S n"
    and idx: "\<forall>p<n. ?f p \<noteq> 0 \<longrightarrow>
             (\<exists>j<length (nbr r0). nbr r0 ! j = p \<and> xptr r0 ! j = ?S p \<and> xptr r0 ! (j + 1) = ?S p + ?f p)"
    and mem: "\<forall>p \<in> set (nbr r0). p < n \<and> ?f p \<noteq> 0"
    by blast+
  note E = comm_pattern_step_recv [OF step [unfolded t_eq]]
  show ?case
  proof (cases "?f n = 0")
    case True
    then have r: "recv = r0" using E(2) by simp
    have 4: "\<forall>p<Suc n. ?f p \<noteq> 0 \<longrightarrow>
             (\<exists>j<length (nbr recv). nbr recv ! j = p \<and> xptr recv ! j = ?S p
                \<and> xptr recv ! (j + 1) = ?S p + ?f p)"
      using idx True r by (auto simp: less_Suc_eq)
    have 5: "\<forall>p \<in> set (nbr recv). p < Suc n \<and> ?f p \<noteq> 0" using mem r by auto
    have 3: "last (xptr recv) = ?S (Suc n)" using lst True r by simp
    show ?thesis using len srt r 3 4 5 by blast
  next
    case False
    from E(3) [OF False] have nb: "nbr recv = nbr r0 @ [n]"
      and xp: "xptr recv = xptr r0 @ [last (xptr r0) + ?f n]" by blast+
    have ne: "xptr r0 \<noteq> []" using len by auto
    have 1: "length (xptr recv) = length (nbr recv) + 1" using nb xp len by simp
    have "\<forall>y \<in> set (xptr r0). y \<le> last (xptr r0)"
      using sorted_le_last [OF srt] by blast
    then have 2: "sorted (xptr recv)" using srt xp by (auto simp: sorted_append)
    have 3: "last (xptr recv) = ?S (Suc n)" using xp lst by simp
    have 4: "\<forall>p<Suc n. ?f p \<noteq> 0 \<longrightarrow>
             (\<exists>j<length (nbr recv). nbr recv ! j = p \<and> xptr recv ! j = ?S p
                \<and> xptr recv ! (j + 1) = ?S p + ?f p)"
    proof (intro allI impI)
      fix p assume p: "p < Suc n" "?f p \<noteq> 0"
      show "\<exists>j<length (nbr recv). nbr recv ! j = p \<and> xptr recv ! j = ?S p
                \<and> xptr recv ! (j + 1) = ?S p + ?f p"
      proof (cases "p = n")
        case True
        let ?j = "length (nbr r0)"
        have "nbr recv ! ?j = n" using nb by simp
        moreover have "xptr recv ! ?j = ?S n"
          using xp len lst ne by (simp add: nth_append last_conv_nth)
        moreover have "xptr recv ! (?j + 1) = ?S n + ?f n"
          using xp len lst by (simp add: nth_append)
        moreover have "?j < length (nbr recv)" using nb by simp
        ultimately show ?thesis using True by blast
      next
        case False
        then have "p < n" using p by simp
        then obtain j where j: "j < length (nbr r0)" "nbr r0 ! j = p" "xptr r0 ! j = ?S p"
          "xptr r0 ! (j + 1) = ?S p + ?f p"
          using idx p by blast
        have "nbr recv ! j = p" "xptr recv ! j = ?S p" "xptr recv ! (j + 1) = ?S p + ?f p"
          "j < length (nbr recv)"
          using j nb xp len by (simp_all add: nth_append)
        then show ?thesis by blast
      qed
    qed
    have 5: "\<forall>p \<in> set (nbr recv). p < Suc n \<and> ?f p \<noteq> 0" using mem nb False by auto
    show ?thesis using 1 2 3 4 5 by blast
  qed
qed

lemma recv_lookup:
  assumes cp: "comm_pattern cm P rank = Inr (recv, send)"
    and p: "p < P"
    and lo: "sum_list (map (\<lambda>q. cm ! rank ! q) [0..<p]) \<le> g"
    and hi: "g < sum_list (map (\<lambda>q. cm ! rank ! q) [0..<p]) + cm ! rank ! p"
  shows "0 < upper_bound (xptr recv) g \<and> upper_bound (xptr recv) g - 1 < length (nbr recv)
       \<and> nbr recv ! (upper_bound (xptr recv) g - 1) = p"
proof -
  note I = comm_pattern_recv_prefix [OF cp [unfolded comm_pattern_def]]
  have "cm ! rank ! p \<noteq> 0" using lo hi by auto
  then obtain j where j: "j < length (nbr recv)" "nbr recv ! j = p"
    "xptr recv ! j = sum_list (map (\<lambda>q. cm ! rank ! q) [0..<p])"
    "xptr recv ! (j + 1) = sum_list (map (\<lambda>q. cm ! rank ! q) [0..<p]) + cm ! rank ! p"
    using I p by blast
  have len: "length (xptr recv) = length (nbr recv) + 1" and srt: "sorted (xptr recv)"
    using I by blast+
  have a: "j < upper_bound (xptr recv) g"
    using upper_bound_sorted_iff [OF srt, of j g] j lo len by simp
  have b: "\<not> j + 1 < upper_bound (xptr recv) g"
    using upper_bound_sorted_iff [OF srt, of "j + 1" g] j hi len by simp
  have "upper_bound (xptr recv) g = j + 1" using a b by simp
  then show ?thesis using j by simp
qed

subsection \<open>Positions of the remote columns of one owner\<close>

lemma length_filter_disj:
  assumes "\<And>x. x \<in> set xs \<Longrightarrow> \<not> (Q x \<and> R x)"
  shows "length (filter (\<lambda>x. Q x \<or> R x) xs) = length (filter Q xs) + length (filter R xs)"
  using assms by (induction xs) auto

lemma sum_owned_by:
  "sum_list (map (owned_by D ks) [0..<p])
     = length (filter (\<lambda>c. 0 \<le> owner D c \<and> owner D c < int p) ks)"
proof (induction p)
  case 0
  then show ?case by simp
next
  case (Suc p)
  have "(\<lambda>c. 0 \<le> owner D c \<and> owner D c < int (Suc p))
      = (\<lambda>c. (0 \<le> owner D c \<and> owner D c < int p) \<or> owner D c = int p)"
    by (rule ext) auto
  then have "length (filter (\<lambda>c. 0 \<le> owner D c \<and> owner D c < int (Suc p)) ks)
      = length (filter (\<lambda>c. 0 \<le> owner D c \<and> owner D c < int p) ks)
        + length (filter (\<lambda>c. owner D c = int p) ks)"
    using length_filter_disj [of ks "\<lambda>c. 0 \<le> owner D c \<and> owner D c < int p" "\<lambda>c. owner D c = int p"]
    by simp
  then show ?case using Suc by (simp add: owned_by_def)
qed

lemma sorted_key_position:
  assumes srt: "sorted ks" and g: "g < length ks"
  shows "length (filter (\<lambda>c. owner D c < owner D (ks ! g)) ks) \<le> g"
    and "g < length (filter (\<lambda>c. owner D c \<le> owner D (ks ! g)) ks)"
proof -
  have split: "ks = take g ks @ drop g ks" by simp
  have ge: "\<forall>c \<in> set (drop g ks). owner D (ks ! g) \<le> owner D c"
  proof
    fix c assume "c \<in> set (drop g ks)"
    then obtain j where j: "j < length (drop g ks)" "drop g ks ! j = c"
      by (auto simp: in_set_conv_nth)
    then have "ks ! (g + j) = c" using g by simp
    moreover have "ks ! g \<le> ks ! (g + j)" using srt j g by (intro sorted_nth_mono) auto
    ultimately show "owner D (ks ! g) \<le> owner D c" using owner_mono by blast
  qed
  have "filter (\<lambda>c. owner D c < owner D (ks ! g)) (drop g ks) = []"
    using ge by (auto simp: filter_empty_conv)
  then have "filter (\<lambda>c. owner D c < owner D (ks ! g)) ks
           = filter (\<lambda>c. owner D c < owner D (ks ! g)) (take g ks)"
    by (subst split) (simp only: filter_append, simp)
  then have "length (filter (\<lambda>c. owner D c < owner D (ks ! g)) ks) \<le> length (take g ks)"
    by (simp only: length_filter_le)
  then show "length (filter (\<lambda>c. owner D c < owner D (ks ! g)) ks) \<le> g" by simp
  have split': "ks = take (Suc g) ks @ drop (Suc g) ks" by simp
  have le: "\<forall>c \<in> set (take (Suc g) ks). owner D c \<le> owner D (ks ! g)"
  proof
    fix c assume "c \<in> set (take (Suc g) ks)"
    then obtain j where j: "j < Suc g" "j < length ks" "ks ! j = c"
      by (auto simp: in_set_conv_nth)
    have "ks ! j \<le> ks ! g" using srt j g by (intro sorted_nth_mono) auto
    then show "owner D c \<le> owner D (ks ! g)" using owner_mono j by blast
  qed
  have "filter (\<lambda>c. owner D c \<le> owner D (ks ! g)) (take (Suc g) ks) = take (Suc g) ks"
    using le by (simp add: filter_id_conv)
  then have "length (filter (\<lambda>c. owner D c \<le> owner D (ks ! g)) ks)
         = length (take (Suc g) ks)
           + length (filter (\<lambda>c. owner D c \<le> owner D (ks ! g)) (drop (Suc g) ks))"
    by (subst split') (simp only: filter_append length_append)
  then show "g < length (filter (\<lambda>c. owner D c \<le> owner D (ks ! g)) ks)"
    using g by simp
qed

lemma key_position_bounds:
  assumes srt: "sorted ks" and g: "g < length ks"
    and own: "\<forall>c \<in> set ks. 0 \<le> owner D c"
    and p: "owner D (ks ! g) = int p"
  shows "sum_list (map (owned_by D ks) [0..<p]) \<le> g"
    and "g < sum_list (map (owned_by D ks) [0..<p]) + owned_by D ks p"
proof -
  have a: "filter (\<lambda>c. 0 \<le> owner D c \<and> owner D c < int p) ks
         = filter (\<lambda>c. owner D c < owner D (ks ! g)) ks"
    using own p by (intro filter_cong) auto
  show "sum_list (map (owned_by D ks) [0..<p]) \<le> g"
    using sorted_key_position(1) [OF srt g, of D] by (simp add: sum_owned_by a)
  have b: "filter (\<lambda>c. 0 \<le> owner D c \<and> owner D c < int (Suc p)) ks
         = filter (\<lambda>c. owner D c \<le> owner D (ks ! g)) ks"
    using own p by (intro filter_cong) auto
  have "sum_list (map (owned_by D ks) [0..<p]) + owned_by D ks p
        = sum_list (map (owned_by D ks) [0..<Suc p])" by simp
  also have "\<dots> = length (filter (\<lambda>c. owner D c \<le> owner D (ks ! g)) ks)"
    by (simp only: sum_owned_by b)
  finally show "g < sum_list (map (owned_by D ks) [0..<p]) + owned_by D ks p"
    using sorted_key_position(2) [OF srt g, of D] by simp
qed

lemma remote_key_owner:
  assumes fp: "first_pass D dv rank nz A = Inr s1"
    and c: "c \<in> fst ` set (rc s1)"
  shows "0 \<le> owner D c" and "owner D c \<noteq> int rank" and "nat (owner D c) < length dv"
proof -
  from c first_pass_result(4) [OF fp] obtain i where i: "i < length A" "c \<in> fst ` set (A ! i)"
    and r: "owner D c \<noteq> int rank" by auto
  then have "owner D c \<in> row_owners D (A ! i)" by (auto simp: row_owners_def)
  then show "0 \<le> owner D c" and "nat (owner D c) < length dv"
    using first_pass_result(2) [OF fp] i by auto
  show "owner D c \<noteq> int rank" using r .
qed

lemma ghost_owner:
  assumes fp: "first_pass D dv rank nz A = Inr s1"
    and rn: "renumber D P (rc s1) = Inr rn"
    and cp: "comm_pattern cm P rank = Inr (recv, send)"
    and cm: "cm ! rank = num_recv rn"
    and D: "sorted D"
    and c: "c \<in> fst ` set (rc s1)"
  shows "0 < upper_bound (xptr recv) (rc_lookup (rn_rc rn) c)
       \<and> upper_bound (xptr recv) (rc_lookup (rn_rc rn) c) - 1 < length (nbr recv)
       \<and> int (nbr recv ! (upper_bound (xptr recv) (rc_lookup (rn_rc rn) c) - 1)) = owner D c"
proof -
  let ?ks = "map fst (rc s1)"
  have sk: "sorted_wrt (<) ?ks" using first_pass_result(3) [OF fp] .
  have own: "\<forall>c \<in> fst ` set (rc s1). 0 \<le> owner D c" using remote_key_owner(1) [OF fp] by blast
  from renumber_result(3) [OF rn D sk own]
  have ln: "length (num_recv rn) = P" and nr: "\<forall>p<P. num_recv rn ! p = owned_by D ?ks p"
    and pl: "\<forall>c \<in> fst ` set (rc s1). nat (owner D c) < P" by blast+
  from c obtain g where g: "g < length ?ks" "?ks ! g = c" by (auto simp: in_set_conv_nth)
  have dist: "distinct ?ks" using sk by (simp add: strict_sorted_iff)
  have look: "rc_lookup (rn_rc rn) c = g"
    using rc_lookup_zip [OF dist g(1)] renumber_result(2) [OF rn] g(2) by simp
  define p where "p = nat (owner D c)"
  have c0: "0 \<le> owner D c" and cP: "nat (owner D c) < P" using own pl c by blast+
  have p: "owner D (?ks ! g) = int p" "p < P" using c0 cP g(2) by (simp_all add: p_def)
  have srt: "sorted ?ks" using sk by (simp add: strict_sorted_imp_sorted)
  have own': "\<forall>c \<in> set ?ks. 0 \<le> owner D c" using own by simp
  note B = key_position_bounds [OF srt g(1) own' p(1)]
  have eq: "map (\<lambda>q. cm ! rank ! q) [0..<p] = map (owned_by D ?ks) [0..<p]"
    using nr p(2) cm by (intro map_cong) auto
  have lo: "sum_list (map (\<lambda>q. cm ! rank ! q) [0..<p]) \<le> g" unfolding eq using B(1) .
  have "cm ! rank ! p = owned_by D ?ks p" using nr p(2) cm by simp
  then have hi: "g < sum_list (map (\<lambda>q. cm ! rank ! q) [0..<p]) + cm ! rank ! p"
    unfolding eq using B(2) by simp
  from recv_lookup [OF cp p(2) lo hi] show ?thesis using look p_def c0 by simp
qed

subsection \<open>Filling one row of AZ\<close>

lemma slice_snoc:
  assumes "b \<le> e" and "e < length cs"
  shows "take (Suc e - b) (drop b (cs[e := k])) = take (e - b) (drop b cs) @ [k]"
proof -
  have d: "drop b (cs[e := k]) = (drop b cs)[e - b := k]"
    using assms(1) by (simp add: drop_update_swap)
  have n: "e - b < length (drop b cs)" using assms by simp
  have "take (Suc (e - b)) ((drop b cs)[e - b := k])
      = take (e - b) ((drop b cs)[e - b := k]) @ [(drop b cs)[e - b := k] ! (e - b)]"
    using n by (simp add: take_Suc_conv_app_nth)
  also have "\<dots> = take (e - b) (drop b cs) @ [k]" using n by simp
  finally show ?thesis using d assms(1) by (simp add: Suc_diff_le)
qed

lemma az_touch_inv:
  assumes step: "az_touch beg k w s = Inr s'"
    and inv: "row_inv beg s0 s K"
    and fresh: "\<forall>k<length (marker s0). marker s0 ! k < int beg"
  shows "row_inv beg s0 s' (insert k K)"
proof -
  from inv have lm: "length (marker s) = length (marker s0)"
    and lc: "length (az_col s) = length (az_col s0)" and pt: "az_ptr s = az_ptr s0"
    and rf: "row_filled (az_col s) beg (az_row_end s) K"
    and kv: "\<forall>k \<in> K. k < length (marker s0)"
    and mk: "\<forall>k<length (marker s0).
           (k \<in> K \<longrightarrow> int beg \<le> marker s ! k \<and> marker s ! k < int (az_row_end s))
           \<and> (k \<notin> K \<longrightarrow> marker s ! k = marker s0 ! k)"
    and un: "\<forall>p. p < beg \<or> az_row_end s \<le> p \<longrightarrow> az_col s ! p = az_col s0 ! p"
    unfolding row_inv_def by blast+
  from rf have be: "beg \<le> az_row_end s" and el: "az_row_end s \<le> length (az_col s)"
    and ds: "distinct (take (az_row_end s - beg) (drop beg (az_col s)))"
    and st: "set (take (az_row_end s - beg) (drop beg (az_col s))) = K"
    unfolding row_filled_def by blast+
  note T = az_touch_Inr [OF step]
  have k: "k < length (marker s0)" using T(1) lm by simp
  show ?thesis
  proof (cases "marker s ! k < int beg")
    case True
    then have knK: "k \<notin> K" using mk k by auto
    from T(5) [OF True] have e: "az_row_end s < length (az_col s)"
      and m': "marker s' = (marker s)[k := int (az_row_end s)]"
      and c': "az_col s' = (az_col s)[az_row_end s := k]"
      and e': "az_row_end s' = az_row_end s + 1" by blast+
    have sl: "take (az_row_end s' - beg) (drop beg (az_col s'))
            = take (az_row_end s - beg) (drop beg (az_col s)) @ [k]"
      using slice_snoc [OF be e, of k] c' e' by simp
    have 1: "row_filled (az_col s') beg (az_row_end s') (insert k K)"
      unfolding row_filled_def sl using be e e' c' ds st knK by auto
    have 2: "\<forall>k' \<in> insert k K. k' < length (marker s0)" using kv k by auto
    have 3: "\<forall>k'<length (marker s0).
           (k' \<in> insert k K \<longrightarrow> int beg \<le> marker s' ! k' \<and> marker s' ! k' < int (az_row_end s'))
           \<and> (k' \<notin> insert k K \<longrightarrow> marker s' ! k' = marker s0 ! k')"
    proof (intro allI impI)
      fix k' assume k': "k' < length (marker s0)"
      show "(k' \<in> insert k K \<longrightarrow> int beg \<le> marker s' ! k' \<and> marker s' ! k' < int (az_row_end s'))
           \<and> (k' \<notin> insert k K \<longrightarrow> marker s' ! k' = marker s0 ! k')"
      proof (cases "k' = k")
        case True
        then show ?thesis using m' e' be k lm by simp
      next
        case False
        then have "marker s' ! k' = marker s ! k'" using m' by simp
        then show ?thesis using mk k' False e' by auto
      qed
    qed
    have 4: "\<forall>p. p < beg \<or> az_row_end s' \<le> p \<longrightarrow> az_col s' ! p = az_col s0 ! p"
      using un c' e' be by auto
    show ?thesis
      unfolding row_inv_def using 1 2 3 4 lm lc pt m' c' T(2) by simp
  next
    case False
    have kK: "k \<in> K"
    proof (rule ccontr)
      assume "k \<notin> K"
      then have "marker s ! k = marker s0 ! k" using mk k by blast
      then show False using fresh k False by auto
    qed
    from T(6) [OF False] have "marker s' = marker s" "az_col s' = az_col s"
      "az_row_end s' = az_row_end s" by blast+
    moreover have "insert k K = K" using kK by auto
    ultimately show ?thesis using inv T(2) unfolding row_inv_def by simp
  qed
qed

lemma az_touches_inv:
  assumes run: "foldE h js s = Inr s'"
    and h: "\<And>j t t'. h j t = Inr t' \<Longrightarrow> \<exists>w. az_touch beg (f j) w t = Inr t'"
    and inv: "row_inv beg s0 s K"
    and fresh: "\<forall>k<length (marker s0). marker s0 ! k < int beg"
  shows "row_inv beg s0 s' (K \<union> f ` set js)"
  using run inv
proof (induction js arbitrary: s K)
  case Nil
  then show ?case by simp
next
  case (Cons j js)
  from Cons.prems(1) obtain t where t: "h j s = Inr t" and r: "foldE h js t = Inr s'"
    by (auto split: sum.splits)
  from h [OF t] obtain w where "az_touch beg (f j) w s = Inr t" by blast
  from az_touch_inv [OF this Cons.prems(2) fresh] have "row_inv beg s0 t (insert (f j) K)" .
  from Cons.IH [OF r this] show ?case by simp
qed

lemma image_add_upt: "(\<lambda>j. a + j) ` {0..<n} = {a..<a + (n::nat)}"
proof
  show "(\<lambda>j. a + j) ` {0..<n} \<subseteq> {a..<a + n}" by auto
  show "{a..<a + n} \<subseteq> (\<lambda>j. a + j) ` {0..<n}"
  proof
    fix x assume "x \<in> {a..<a + n}"
    then have "x = a + (x - a)" "x - a \<in> {0..<n}" by auto
    then show "x \<in> (\<lambda>j. a + j) ` {0..<n}" by (rule image_eqI)
  qed
qed

lemma row_inv_same:
  assumes "marker s1 = marker s" and "az_col s1 = az_col s" and "az_row_end s1 = az_row_end s"
    and "az_ptr s1 = az_ptr s"
  shows "row_inv beg s0 s1 K = row_inv beg s0 s K"
  using assms unfolding row_inv_def by simp

lemma row_filled_card: "row_filled cs b e K \<Longrightarrow> e = b + card K"
proof -
  assume a: "row_filled cs b e K"
  then have "card K = length (take (e - b) (drop b cs))"
    unfolding row_filled_def using distinct_card by metis
  also have "\<dots> = e - b" using a unfolding row_filled_def by auto
  finally show ?thesis using a unfolding row_filled_def by auto
qed

lemma row_filled_cong:
  assumes "row_filled cs b e K" and "length cs' = length cs"
    and "\<forall>p. b \<le> p \<and> p < e \<longrightarrow> cs' ! p = cs ! p"
  shows "row_filled cs' b e K"
proof -
  have be: "b \<le> e" "e \<le> length cs" using assms(1) unfolding row_filled_def by blast+
  have "take (e - b) (drop b cs') = take (e - b) (drop b cs)"
  proof (rule nth_equalityI)
    show "length (take (e - b) (drop b cs')) = length (take (e - b) (drop b cs))"
      using assms(2) by simp
  next
    fix i assume "i < length (take (e - b) (drop b cs'))"
    then have i: "i < e - b" "b + i < length cs" using be assms(2) by simp_all
    then show "take (e - b) (drop b cs') ! i = take (e - b) (drop b cs) ! i"
      using assms(2,3) by simp
  qed
  then show ?thesis using assms(1,2) unfolding row_filled_def by simp
qed

lemma row_inv_start:
  assumes "beg \<le> length (az_col s)"
  shows "row_inv beg (s\<lparr>az_row_end := beg\<rparr>) (s\<lparr>az_row_end := beg\<rparr>) {}"
  using assms unfolding row_inv_def row_filled_def by simp

subsection \<open>Second pass: the local part of AZ\<close>

lemma second_pass_entry_inv:
  assumes step: "second_pass_entry D ds ndv rank dvf rcm beg a s = Inr s'"
    and inv: "row_inv beg s0 s K"
    and fresh: "\<forall>k<length (marker s0). marker s0 ! k < int beg"
  shows "row_inv beg s0 s' (K \<union> loc_block D rank ds ndv [a])"
proof (cases "is_local D rank (fst a)")
  case True
  let ?s1 = "s\<lparr>aloc_col := aloc_col s @ [nat (fst a - D ! rank)], aloc_val := aloc_val s @ [snd a]\<rparr>"
  have r: "rank + 1 < length D" using second_pass_entry_matrices(1) [OF step] .
  have run: "foldE (\<lambda>j. az_touch beg (ds ! rank + j) (snd a * dvf (nat (fst a - D ! rank)) j)) [0..<ndv] ?s1
            = Inr s'"
    using step True r by (auto simp: second_pass_entry_def Let_def split: if_splits)
  have inv1: "row_inv beg s0 ?s1 K" using inv row_inv_same [of ?s1 s beg s0 K] by simp
  have h: "\<exists>w. az_touch beg (ds ! rank + j) w t = Inr t'"
    if "az_touch beg (ds ! rank + j) (snd a * dvf (nat (fst a - D ! rank)) j) t = Inr t'"
    for j and t t' :: second_pass_state
    using that by (rule exI)
  have "row_inv beg s0 s' (K \<union> (\<lambda>j. ds ! rank + j) ` set [0..<ndv])"
    using az_touches_inv [OF run h inv1 fresh] .
  moreover have "(\<lambda>j. ds ! rank + j) ` set [0..<ndv] = {ds ! rank..<ds ! rank + ndv}"
    using image_add_upt [of "ds ! rank" ndv] by simp
  ultimately show ?thesis using True by (simp add: loc_block_def)
next
  case False
  have r: "rank + 1 < length D" using second_pass_entry_matrices(1) [OF step] .
  have "s' = s\<lparr>arem_col := arem_col s @ [rc_lookup rcm (fst a)], arem_val := arem_val s @ [snd a]\<rparr>"
    using step False r by (auto simp: second_pass_entry_def Let_def split: if_splits)
  then have "row_inv beg s0 s' K" using inv row_inv_same [of s' s beg s0 K] by simp
  then show ?thesis using False by (simp add: loc_block_def)
qed

lemma loc_block_snoc:
  "loc_block D rank ds ndv (es @ [a]) = loc_block D rank ds ndv es \<union> loc_block D rank ds ndv [a]"
  by (auto simp: loc_block_def)

lemma second_pass_entries_inv:
  assumes run: "foldE (second_pass_entry D ds ndv rank dvf rcm beg) es s = Inr s'"
    and inv: "row_inv beg s0 s {}"
    and fresh: "\<forall>k<length (marker s0). marker s0 ! k < int beg"
  shows "row_inv beg s0 s' (loc_block D rank ds ndv es)"
  using run
proof (induction es arbitrary: s' rule: rev_induct)
  case Nil
  then show ?case using inv by (simp add: loc_block_def)
next
  case (snoc a es)
  then obtain t where t: "foldE (second_pass_entry D ds ndv rank dvf rcm beg) es s = Inr t"
    and step: "second_pass_entry D ds ndv rank dvf rcm beg a t = Inr s'"
    by (auto simp: foldE_snoc_Inr)
  from second_pass_entry_inv [OF step snoc.IH [OF t] fresh]
  show ?case by (simp add: loc_block_snoc)
qed

text \<open>What one row of a filling pass does, as far as later rows are concerned.\<close>

lemma row_done_from_inv:
  assumes inv: "row_inv beg (s\<lparr>az_row_end := beg\<rparr>) t K"
    and fresh: "\<forall>k<length (marker s). marker s ! k < int beg"
    and beg: "beg = az_ptr s ! i"
    and s': "marker s' = marker t" "az_col s' = az_col t" "az_ptr s' = (az_ptr t)[i := az_row_end t]"
  shows "row_done i K s s'"
proof -
  from inv have lm: "length (marker t) = length (marker s)"
    and lc: "length (az_col t) = length (az_col s)" and pt: "az_ptr t = az_ptr s"
    and rf: "row_filled (az_col t) beg (az_row_end t) K"
    and mk: "\<forall>k<length (marker s).
           (k \<in> K \<longrightarrow> int beg \<le> marker t ! k \<and> marker t ! k < int (az_row_end t))
           \<and> (k \<notin> K \<longrightarrow> marker t ! k = marker s ! k)"
    and un: "\<forall>p. p < beg \<or> az_row_end t \<le> p \<longrightarrow> az_col t ! p = az_col s ! p"
    unfolding row_inv_def by simp_all
  have e: "az_row_end t = beg + card K" using row_filled_card [OF rf] .
  have 5: "\<forall>k<length (marker s). marker s' ! k < int (az_ptr s ! i + card K)"
  proof (intro allI impI)
    fix k assume k: "k < length (marker s)"
    show "marker s' ! k < int (az_ptr s ! i + card K)"
    proof (cases "k \<in> K")
      case True
      then show ?thesis using mk k e beg s'(1) by auto
    next
      case False
      then have "marker t ! k = marker s ! k" using mk k by blast
      then show ?thesis using fresh k beg s'(1) by auto
    qed
  qed
  show ?thesis
    unfolding row_done_def using lm lc pt rf un e beg s' 5 by simp
qed

lemma second_pass_row_done:
  assumes row: "second_pass_row D ds ndv rank dvf rcm A i s = Inr s'"
    and fresh: "\<forall>k<length (marker s). marker s ! k < int (az_ptr s ! i)"
    and room: "az_ptr s ! i \<le> length (az_col s)"
  shows "row_done i (loc_block D rank ds ndv (A ! i)) s s'"
proof -
  let ?beg = "az_ptr s ! i"
  from row obtain t where
    t: "foldE (second_pass_entry D ds ndv rank dvf rcm ?beg) (A ! i) (s\<lparr>az_row_end := ?beg\<rparr>) = Inr t"
    and s': "s' = t\<lparr>az_ptr := (az_ptr t)[i := az_row_end t],
                    aloc_ptr := aloc_ptr t @ [length (aloc_col t)],
                    arem_ptr := arem_ptr t @ [length (arem_col t)]\<rparr>"
    by (auto simp: second_pass_row_def Let_def split: if_splits sum.splits)
  have fresh': "\<forall>k<length (marker (s\<lparr>az_row_end := ?beg\<rparr>)). marker (s\<lparr>az_row_end := ?beg\<rparr>) ! k < int ?beg"
    using fresh by simp
  from second_pass_entries_inv [OF t row_inv_start [OF room] fresh']
  have inv: "row_inv ?beg (s\<lparr>az_row_end := ?beg\<rparr>) t (loc_block D rank ds ndv (A ! i))" .
  show ?thesis
    by (rule row_done_from_inv [OF inv fresh refl]) (simp_all add: s')
qed

subsection \<open>Filling all rows\<close>

lemma fill_rows:
  fixes s0 :: "'a az_build_scheme"
  assumes run: "foldE rowf [0..<n] s0 = Inr s"
    and step: "\<And>i t t'. \<lbrakk>i < N; rowf i t = Inr t';
                 \<forall>k<length (marker t). marker t ! k < int (az_ptr t ! i);
                 az_ptr t ! i \<le> length (az_col t)\<rbrakk> \<Longrightarrow> row_done i (K i) t t'"
    and n: "n \<le> N"
    and B: "az_ptr s0 = B" "length B = N + 1"
    and Q: "sorted Q" "length Q = N + 1" "Q ! N \<le> length (az_col s0)"
    and room: "\<forall>i<N. Q ! i \<le> B ! i \<and> B ! i + card (K i) \<le> Q ! (i + 1)"
    and m0: "\<forall>k<length (marker s0). marker s0 ! k < int (Q ! 0)"
  shows "length (marker s) = length (marker s0) \<and> length (az_col s) = length (az_col s0)
       \<and> (\<forall>k<length (marker s0). marker s ! k < int (Q ! n))
       \<and> length (az_ptr s) = N + 1
       \<and> (\<forall>i\<le>N. az_ptr s ! i = (if i < n then B ! i + card (K i) else B ! i))
       \<and> (\<forall>i<n. row_filled (az_col s) (B ! i) (B ! i + card (K i)) (K i))
       \<and> (\<forall>p. (\<forall>i<n. \<not> (B ! i \<le> p \<and> p < B ! i + card (K i))) \<longrightarrow> az_col s ! p = az_col s0 ! p)"
  using run n
proof (induction n arbitrary: s)
  case 0
  then show ?case using B m0 by simp
next
  case (Suc n)
  from Suc.prems(1) obtain t where t: "foldE rowf [0..<n] s0 = Inr t" and row: "rowf n t = Inr s"
    by (auto simp: foldE_snoc_Inr)
  have nN: "n < N" using Suc.prems(2) by simp
  from Suc.IH [OF t] nN
  have lm: "length (marker t) = length (marker s0)" and lc: "length (az_col t) = length (az_col s0)"
    and mk: "\<forall>k<length (marker s0). marker t ! k < int (Q ! n)"
    and lp: "length (az_ptr t) = N + 1"
    and pt: "\<forall>i\<le>N. az_ptr t ! i = (if i < n then B ! i + card (K i) else B ! i)"
    and rf: "\<forall>i<n. row_filled (az_col t) (B ! i) (B ! i + card (K i)) (K i)"
    and un: "\<forall>p. (\<forall>i<n. \<not> (B ! i \<le> p \<and> p < B ! i + card (K i))) \<longrightarrow> az_col t ! p = az_col s0 ! p"
    by simp_all
  have beg: "az_ptr t ! n = B ! n" using pt nN by simp
  have rn: "Q ! n \<le> B ! n" "B ! n + card (K n) \<le> Q ! (n + 1)" using room nN by simp_all
  have mono: "Q ! a \<le> Q ! b" if "a \<le> b" "b \<le> N" for a b
    using Q(1,2) that by (intro sorted_nth_mono) auto
  have fresh: "\<forall>k<length (marker t). marker t ! k < int (az_ptr t ! n)"
    using mk lm rn(1) beg by auto
  have "B ! n + card (K n) \<le> Q ! N" using rn(2) mono [of "n + 1" N] nN by simp
  then have fits: "az_ptr t ! n \<le> length (az_col t)" using beg lc Q(3) by simp
  from step [OF nN row fresh fits]
  have lm': "length (marker s) = length (marker t)" and lc': "length (az_col s) = length (az_col t)"
    and pt': "az_ptr s = (az_ptr t)[n := B ! n + card (K n)]"
    and rf': "row_filled (az_col s) (B ! n) (B ! n + card (K n)) (K n)"
    and mk': "\<forall>k<length (marker t). marker s ! k < int (B ! n + card (K n))"
    and un': "\<forall>p. p < B ! n \<or> B ! n + card (K n) \<le> p \<longrightarrow> az_col s ! p = az_col t ! p"
    unfolding row_done_def beg by blast+
  have 3: "\<forall>k<length (marker s0). marker s ! k < int (Q ! Suc n)"
    using mk' lm rn(2) by fastforce
  have 5: "\<forall>i\<le>N. az_ptr s ! i = (if i < Suc n then B ! i + card (K i) else B ! i)"
  proof (intro allI impI)
    fix i assume i: "i \<le> N"
    show "az_ptr s ! i = (if i < Suc n then B ! i + card (K i) else B ! i)"
    proof (cases "i = n")
      case True
      then show ?thesis using pt' lp nN by simp
    next
      case False
      then have "az_ptr s ! i = az_ptr t ! i" using pt' by simp
      then show ?thesis using pt i False by (simp add: less_Suc_eq)
    qed
  qed
  have below: "B ! i + card (K i) \<le> B ! n" if "i < n" for i
  proof -
    have "B ! i + card (K i) \<le> Q ! (i + 1)" using room that nN by simp
    also have "\<dots> \<le> Q ! n" using mono [of "i + 1" n] that nN by simp
    finally show ?thesis using rn(1) by simp
  qed
  have 6: "\<forall>i<Suc n. row_filled (az_col s) (B ! i) (B ! i + card (K i)) (K i)"
  proof (intro allI impI)
    fix i assume i: "i < Suc n"
    show "row_filled (az_col s) (B ! i) (B ! i + card (K i)) (K i)"
    proof (cases "i = n")
      case True
      then show ?thesis using rf' by simp
    next
      case False
      then have il: "i < n" using i by simp
      have "\<forall>p. B ! i \<le> p \<and> p < B ! i + card (K i) \<longrightarrow> az_col s ! p = az_col t ! p"
        using un' below [OF il] by auto
      then show ?thesis using row_filled_cong [OF rf [rule_format, OF il] lc'] by blast
    qed
  qed
  have 7: "\<forall>p. (\<forall>i<Suc n. \<not> (B ! i \<le> p \<and> p < B ! i + card (K i))) \<longrightarrow> az_col s ! p = az_col s0 ! p"
  proof (intro allI impI)
    fix p assume p: "\<forall>i<Suc n. \<not> (B ! i \<le> p \<and> p < B ! i + card (K i))"
    then have "p < B ! n \<or> B ! n + card (K n) \<le> p" by (metis lessI not_le_imp_less)
    then have "az_col s ! p = az_col t ! p" using un' by blast
    moreover have "az_col t ! p = az_col s0 ! p" using un p by simp
    ultimately show "az_col s ! p = az_col s0 ! p" by simp
  qed
  have 4: "length (az_ptr s) = N + 1" using pt' lp by simp
  show ?case using lm lm' lc lc' 3 4 5 6 7 by simp
qed

subsection \<open>Third pass: the remote part of AZ\<close>

lemma third_pass_entry_inv:
  fixes s :: "'a az_build_scheme"
  assumes step: "third_pass_entry dv ds recv zcol zrecv beg a s = Inr s'"
    and inv: "row_inv beg s0 s K"
    and fresh: "\<forall>k<length (marker s0). marker s0 ! k < int beg"
  shows "row_inv beg s0 s' (K \<union> rem_blocks ds dv recv [a])"
proof -
  define d where "d = nbr recv ! (upper_bound (xptr recv) (fst a) - 1)"
  let ?h = "\<lambda>j (s :: 'a az_build_scheme). if zcol ! fst a + j < length zrecv
               then az_touch beg (ds ! d + j) (snd a * zrecv ! (zcol ! fst a + j)) s
               else Inl OutOfBounds"
  have run: "foldE ?h [0..<dv ! d] s = Inr s'"
    using step unfolding third_pass_entry_def Let_def d_def by (simp split: if_splits)
  have h: "\<exists>w. az_touch beg (ds ! d + j) w t = Inr t'" if "?h j t = Inr t'"
    for j and t t' :: "'a az_build_scheme"
  proof -
    from that have "az_touch beg (ds ! d + j) (snd a * zrecv ! (zcol ! fst a + j)) t = Inr t'"
      by (simp split: if_splits)
    then show ?thesis by (rule exI)
  qed
  have "row_inv beg s0 s' (K \<union> (\<lambda>j. ds ! d + j) ` set [0..<dv ! d])"
    using az_touches_inv [OF run h inv fresh] .
  moreover have "(\<lambda>j. ds ! d + j) ` set [0..<dv ! d] = dv_block ds dv d"
    using image_add_upt [of "ds ! d" "dv ! d"] by (simp add: dv_block_def)
  ultimately show ?thesis by (simp add: rem_blocks_def d_def)
qed

lemma rem_blocks_snoc:
  "rem_blocks ds dv recv (es @ [a]) = rem_blocks ds dv recv es \<union> rem_blocks ds dv recv [a]"
  by (auto simp: rem_blocks_def)

lemma third_pass_entries_inv:
  fixes s :: "'a az_build_scheme"
  assumes run: "foldE (third_pass_entry dv ds recv zcol zrecv beg) es s = Inr s'"
    and inv: "row_inv beg s0 s {}"
    and fresh: "\<forall>k<length (marker s0). marker s0 ! k < int beg"
  shows "row_inv beg s0 s' (rem_blocks ds dv recv es)"
  using run
proof (induction es arbitrary: s' rule: rev_induct)
  case Nil
  then show ?case using inv by (simp add: rem_blocks_def)
next
  case (snoc a es)
  then obtain t where t: "foldE (third_pass_entry dv ds recv zcol zrecv beg) es s = Inr t"
    and step: "third_pass_entry dv ds recv zcol zrecv beg a t = Inr s'"
    by (auto simp: foldE_snoc_Inr)
  from third_pass_entry_inv [OF step snoc.IH [OF t] fresh]
  show ?case by (simp add: rem_blocks_snoc)
qed

lemma third_pass_row_done:
  fixes s :: "'a az_build_scheme"
  assumes row: "third_pass_row dv ds recv zcol zrecv rp rcs rvs i s = Inr s'"
    and ent: "row_entries rp rcs rvs i = Inr R"
    and fresh: "\<forall>k<length (marker s). marker s ! k < int (az_ptr s ! i)"
    and room: "az_ptr s ! i \<le> length (az_col s)"
  shows "row_done i (rem_blocks ds dv recv R) s s'"
proof -
  let ?beg = "az_ptr s ! i"
  from row ent obtain t where
    t: "foldE (third_pass_entry dv ds recv zcol zrecv ?beg) R (s\<lparr>az_row_end := ?beg\<rparr>) = Inr t"
    and s': "s' = t\<lparr>az_ptr := (az_ptr t)[i := az_row_end t]\<rparr>"
    by (auto simp: third_pass_row_def Let_def split: if_splits sum.splits)
  have fresh': "\<forall>k<length (marker (s\<lparr>az_row_end := ?beg\<rparr>)). marker (s\<lparr>az_row_end := ?beg\<rparr>) ! k < int ?beg"
    using fresh by simp
  from third_pass_entries_inv [OF t row_inv_start [OF room] fresh']
  have inv: "row_inv ?beg (s\<lparr>az_row_end := ?beg\<rparr>) t (rem_blocks ds dv recv R)" .
  show ?thesis
    by (rule row_done_from_inv [OF inv fresh refl]) (simp_all add: s')
qed

subsection \<open>Counting the slots of a row\<close>

lemma card_dv_block [simp]: "card (dv_block ds dv d) = dv ! d"
  by (simp add: dv_block_def)

lemma finite_dv_block [simp]: "finite (dv_block ds dv d)"
  by (simp add: dv_block_def)

lemma dv_block_disjoint:
  assumes "ds = 0 # partial_sum dv" and "a < length dv" and "b < length dv" and "a \<noteq> b"
  shows "dv_block ds dv a \<inter> dv_block ds dv b = {}"
proof (rule ccontr)
  assume "dv_block ds dv a \<inter> dv_block ds dv b \<noteq> {}"
  then obtain x where "x \<in> dv_block ds dv a" "x \<in> dv_block ds dv b" by blast
  then have "a = b"
    using dv_block_unique [OF assms(1,2,3), of x] by (simp add: dv_block_def)
  then show False using assms(4) by simp
qed

lemma card_blocks:
  assumes ds: "ds = 0 # partial_sum dv" and fin: "finite S" and S: "\<forall>d \<in> S. d < length dv"
  shows "card (\<Union>d \<in> S. dv_block ds dv d) = (\<Sum>d \<in> S. dv ! d)"
proof -
  have "card (\<Union>d \<in> S. dv_block ds dv d) = (\<Sum>d \<in> S. card (dv_block ds dv d))"
    using fin S dv_block_disjoint [OF ds] by (intro card_UN_disjoint) auto
  then show ?thesis by simp
qed

lemma row_filled_append:
  assumes "row_filled cs a b K" and "row_filled cs b c K'" and "K \<inter> K' = {}"
  shows "row_filled cs a c (K \<union> K')"
proof -
  have ab: "a \<le> b" "b \<le> length cs" and bc: "b \<le> c" "c \<le> length cs"
    using assms(1,2) unfolding row_filled_def by blast+
  have "c - a = (b - a) + (c - b)" using ab bc by simp
  then have "take (c - a) (drop a cs) = take (b - a) (drop a cs) @ take (c - b) (drop (b - a) (drop a cs))"
    by (simp only: take_add)
  also have "drop (b - a) (drop a cs) = drop b cs" using ab by simp
  finally have "take (c - a) (drop a cs) = take (b - a) (drop a cs) @ take (c - b) (drop b cs)" .
  then show ?thesis
    using assms ab bc unfolding row_filled_def by auto
qed

lemma loc_block_owner:
  assumes D: "sorted D" "rank + 1 < length D" and ndv: "dv ! rank = ndv"
  shows "loc_block D rank ds ndv row
       = (if int rank \<in> row_owners D row then dv_block ds dv rank else {})"
proof -
  have "(\<exists>a \<in> set row. is_local D rank (fst a)) \<longleftrightarrow> (\<exists>a \<in> set row. owner D (fst a) = int rank)"
    using is_local_owner [OF D] by simp
  also have "\<dots> \<longleftrightarrow> int rank \<in> row_owners D row"
    unfolding row_owners_def image_iff by (metis)
  finally have "(\<exists>a \<in> set row. is_local D rank (fst a)) \<longleftrightarrow> int rank \<in> row_owners D row" .
  then show ?thesis using ndv by (simp add: loc_block_def dv_block_def)
qed

lemma rem_blocks_owner:
  assumes fp: "first_pass D dv rank nz A = Inr s1"
    and rn: "renumber D P (rc s1) = Inr rn"
    and cp: "comm_pattern cm P rank = Inr (recv, send)"
    and cm: "cm ! rank = num_recv rn"
    and D: "sorted D" "rank + 1 < length D"
    and i: "i < length A"
  shows "rem_blocks ds dv recv (arem_row D rank (rn_rc rn) (A ! i))
       = (\<Union>d \<in> row_owners D (A ! i) - {int rank}. dv_block ds dv (nat d))"
proof -
  have key: "nbr recv ! (upper_bound (xptr recv) (rc_lookup (rn_rc rn) (fst a)) - 1) = nat (owner D (fst a))"
    if "a \<in> set (A ! i)" "\<not> is_local D rank (fst a)" for a
  proof -
    have "owner D (fst a) \<noteq> int rank" using that(2) is_local_owner [OF D] by simp
    then have "fst a \<in> fst ` set (rc s1)"
      using first_pass_result(4) [OF fp] that(1) i by auto
    from ghost_owner [OF fp rn cp cm D(1) this] show ?thesis by linarith
  qed
  have "rem_blocks ds dv recv (arem_row D rank (rn_rc rn) (A ! i))
      = (\<Union>a \<in> {a \<in> set (A ! i). \<not> is_local D rank (fst a)}.
           dv_block ds dv (nbr recv ! (upper_bound (xptr recv) (rc_lookup (rn_rc rn) (fst a)) - 1)))"
    by (auto simp: rem_blocks_def arem_row_def)
  also have "\<dots> = (\<Union>a \<in> {a \<in> set (A ! i). \<not> is_local D rank (fst a)}. dv_block ds dv (nat (owner D (fst a))))"
    using key by auto
  also have "\<dots> = (\<Union>d \<in> row_owners D (A ! i) - {int rank}. dv_block ds dv (nat d))"
    using is_local_owner [OF D] by (auto simp: row_owners_def)
  finally show ?thesis .
qed

lemma row_blocks_count:
  assumes ds: "ds = 0 # partial_sum dv"
    and valid: "\<forall>d \<in> row_owners D row. 0 \<le> d \<and> nat d < length dv"
    and K2: "K2 = (if int rank \<in> row_owners D row then dv_block ds dv rank else {})"
    and K3: "K3 = (\<Union>d \<in> row_owners D row - {int rank}. dv_block ds dv (nat d))"
  shows "K2 \<inter> K3 = {}" and "card K2 + card K3 = row_count D dv row"
    and "K2 \<union> K3 = (\<Union>d \<in> row_owners D row. dv_block ds dv (nat d))"
proof -
  let ?S = "row_owners D row"
  have fin: "finite ?S" by (simp add: row_owners_def)
  show un: "K2 \<union> K3 = (\<Union>d \<in> ?S. dv_block ds dv (nat d))"
    unfolding K2 K3 by auto
  show dj: "K2 \<inter> K3 = {}"
  proof (cases "int rank \<in> ?S")
    case False
    then show ?thesis unfolding K2 by simp
  next
    case True
    then have r: "rank < length dv" using valid by fastforce
    have "dv_block ds dv rank \<inter> dv_block ds dv (nat d) = {}" if "d \<in> ?S - {int rank}" for d
    proof -
      have "nat d < length dv" "nat d \<noteq> rank" using that valid by auto
      then show ?thesis using dv_block_disjoint [OF ds r] by blast
    qed
    then show ?thesis unfolding K2 K3 using True by auto
  qed
  have f2: "finite K2" unfolding K2 by simp
  have f3: "finite K3" unfolding K3 using fin by simp
  have inj: "inj_on nat ?S"
  proof (rule inj_onI)
    fix x y assume "x \<in> ?S" "y \<in> ?S" "nat x = nat y"
    moreover have "0 \<le> x" "0 \<le> y" using valid calculation by blast+
    ultimately show "x = y" by simp
  qed
  have "card K2 + card K3 = card (K2 \<union> K3)"
    using card_Un_disjoint [OF f2 f3 dj] by simp
  also have "\<dots> = card (\<Union>d \<in> nat ` ?S. dv_block ds dv d)" using un by simp
  also have "\<dots> = (\<Sum>d \<in> nat ` ?S. dv ! d)"
    using valid fin by (intro card_blocks [OF ds]) auto
  also have "\<dots> = (\<Sum>d \<in> ?S. dv ! nat d)"
    using inj by (simp add: sum.reindex)
  finally show "card K2 + card K3 = row_count D dv row" by (simp add: row_count_def)
qed

subsection \<open>The two filling passes as a whole\<close>

lemma second_pass_az:
  assumes sp: "second_pass D ds ndv nz rank dvf rcm counts A = Inr s2"
    and Q: "Q = partial_sum counts" "length counts = length A + 1"
    and room: "\<forall>i<length A. Q ! i + card (loc_block D rank ds ndv (A ! i)) \<le> Q ! (i + 1)"
  shows "length (az_col s2) = last Q \<and> length (az_ptr s2) = length A + 1
       \<and> (\<forall>i\<le>length A. az_ptr s2 ! i
             = (if i < length A then Q ! i + card (loc_block D rank ds ndv (A ! i)) else Q ! i))
       \<and> (\<forall>i<length A. row_filled (az_col s2) (Q ! i)
             (Q ! i + card (loc_block D rank ds ndv (A ! i))) (loc_block D rank ds ndv (A ! i)))"
proof -
  let ?s0 = "\<lparr>marker = replicate nz (- 1), az_row_end = 0, az_ptr = Q,
         az_col = replicate (last Q) 0, az_val = replicate (last Q) 0,
         aloc_ptr = [0], aloc_col = [], aloc_val = [],
         arem_ptr = [0], arem_col = [], arem_val = []\<rparr>"
  have run: "foldE (second_pass_row D ds ndv rank dvf rcm A) [0..<length A] ?s0 = Inr s2"
    using sp unfolding second_pass_def Let_def Q(1) .
  have lQ: "length Q = length A + 1" using Q by simp
  have sQ: "sorted Q" unfolding Q(1) by (rule sorted_partial_sum_nat)
  have "Q \<noteq> []" using lQ by auto
  then have last: "last Q = Q ! length A" using lQ by (simp add: last_conv_nth)
  have step: "row_done i (loc_block D rank ds ndv (A ! i)) t t'"
    if "i < length A" "second_pass_row D ds ndv rank dvf rcm A i t = Inr t'"
      "\<forall>k<length (marker t). marker t ! k < int (az_ptr t ! i)" "az_ptr t ! i \<le> length (az_col t)"
    for i t t'
    using second_pass_row_done [OF that(2,3,4)] .
  have room': "\<forall>i<length A. Q ! i \<le> Q ! i \<and> Q ! i + card (loc_block D rank ds ndv (A ! i)) \<le> Q ! (i + 1)"
    using room by simp
  have "length (marker s2) = length (marker ?s0) \<and> length (az_col s2) = length (az_col ?s0)
       \<and> (\<forall>k<length (marker ?s0). marker s2 ! k < int (Q ! length A))
       \<and> length (az_ptr s2) = length A + 1
       \<and> (\<forall>i\<le>length A. az_ptr s2 ! i
             = (if i < length A then Q ! i + card (loc_block D rank ds ndv (A ! i)) else Q ! i))
       \<and> (\<forall>i<length A. row_filled (az_col s2) (Q ! i)
             (Q ! i + card (loc_block D rank ds ndv (A ! i))) (loc_block D rank ds ndv (A ! i)))
       \<and> (\<forall>p. (\<forall>i<length A. \<not> (Q ! i \<le> p \<and> p < Q ! i + card (loc_block D rank ds ndv (A ! i))))
              \<longrightarrow> az_col s2 ! p = az_col ?s0 ! p)"
    by (rule fill_rows [OF run step order_refl _ lQ sQ lQ _ room'])
       (simp_all add: last)
  then show ?thesis by simp
qed

lemma third_pass_az:
  fixes s2 :: "'a az_build_scheme"
  assumes tp: "third_pass dv ds recv zcol zrecv rp rcs rvs N s2 = Inr s3"
    and ent: "\<forall>i<N. row_entries rp rcs rvs i = Inr (R i)"
    and B: "az_ptr s2 = B" "length B = N + 1"
    and Q: "sorted Q" "length Q = N + 1" "Q ! N \<le> length (az_col s2)"
    and room: "\<forall>i<N. Q ! i \<le> B ! i \<and> B ! i + card (rem_blocks ds dv recv (R i)) \<le> Q ! (i + 1)"
  shows "length (az_col s3) = length (az_col s2) \<and> length (az_ptr s3) = N + 1
       \<and> (\<forall>i\<le>N. az_ptr s3 ! i
             = (if i < N then B ! i + card (rem_blocks ds dv recv (R i)) else B ! i))
       \<and> (\<forall>i<N. row_filled (az_col s3) (B ! i)
             (B ! i + card (rem_blocks ds dv recv (R i))) (rem_blocks ds dv recv (R i)))
       \<and> (\<forall>p. (\<forall>i<N. \<not> (B ! i \<le> p \<and> p < B ! i + card (rem_blocks ds dv recv (R i))))
              \<longrightarrow> az_col s3 ! p = az_col s2 ! p)"
proof -
  let ?s0 = "s2\<lparr>marker := replicate (length (marker s2)) (- 1)\<rparr>"
  have run: "foldE (third_pass_row dv ds recv zcol zrecv rp rcs rvs) [0..<N] ?s0 = Inr s3"
    using tp unfolding third_pass_def .
  have step: "row_done i (rem_blocks ds dv recv (R i)) t t'"
    if "i < N" "third_pass_row dv ds recv zcol zrecv rp rcs rvs i t = Inr t'"
      "\<forall>k<length (marker t). marker t ! k < int (az_ptr t ! i)" "az_ptr t ! i \<le> length (az_col t)"
    for i and t t' :: "'a az_build_scheme"
    using third_pass_row_done [OF that(2) ent [rule_format, OF that(1)] that(3,4)] .
  have "length (marker s3) = length (marker ?s0) \<and> length (az_col s3) = length (az_col ?s0)
       \<and> (\<forall>k<length (marker ?s0). marker s3 ! k < int (Q ! N))
       \<and> length (az_ptr s3) = N + 1
       \<and> (\<forall>i\<le>N. az_ptr s3 ! i
             = (if i < N then B ! i + card (rem_blocks ds dv recv (R i)) else B ! i))
       \<and> (\<forall>i<N. row_filled (az_col s3) (B ! i)
             (B ! i + card (rem_blocks ds dv recv (R i))) (rem_blocks ds dv recv (R i)))
       \<and> (\<forall>p. (\<forall>i<N. \<not> (B ! i \<le> p \<and> p < B ! i + card (rem_blocks ds dv recv (R i))))
              \<longrightarrow> az_col s3 ! p = az_col ?s0 ! p)"
    by (rule fill_rows [OF run step order_refl _ B(2) Q(1,2) _ room])
       (use B(1) Q(3) in simp_all)
  then show ?thesis by simp
qed

subsection \<open>The values of the slots of a row\<close>

lemma contrib_Nil [simp]: "contrib [] k = 0"
  by (simp add: contrib_def)

lemma contrib_append [simp]: "contrib (ts @ us) k = contrib ts k + contrib us k"
  by (simp add: contrib_def)

lemma contrib_single [simp]: "contrib [(k', w)] k = (if k' = k then w else 0)"
  by (simp add: contrib_def)

lemma contrib_notin: "k \<notin> fst ` set ts \<Longrightarrow> contrib ts k = 0"
proof -
  assume "k \<notin> fst ` set ts"
  then have "filter (\<lambda>t. fst t = k) ts = []" by (auto simp: filter_empty_conv)
  then show ?thesis by (simp add: contrib_def)
qed

lemma row_filled_nth:
  assumes "row_filled cs b e K" and "b \<le> p" and "p < e"
  shows "cs ! p \<in> K"
proof -
  from assms(1) have be: "b \<le> e" "e \<le> length cs"
    and st: "set (take (e - b) (drop b cs)) = K" unfolding row_filled_def by blast+
  have "p - b < length (take (e - b) (drop b cs))" using assms(2,3) be by simp
  then have "take (e - b) (drop b cs) ! (p - b) \<in> K" using st nth_mem by blast
  then show ?thesis using assms(2,3) be by simp
qed

lemma row_filled_inj:
  assumes "row_filled cs b e K" and "b \<le> p" "p < e" and "b \<le> q" "q < e" and "cs ! p = cs ! q"
  shows "p = q"
proof -
  from assms(1) have be: "b \<le> e" "e \<le> length cs"
    and ds: "distinct (take (e - b) (drop b cs))" unfolding row_filled_def by blast+
  have lp: "p - b < length (take (e - b) (drop b cs))" using assms(2,3) be by simp
  have lq: "q - b < length (take (e - b) (drop b cs))" using assms(4,5) be by simp
  have "take (e - b) (drop b cs) ! (p - b) = take (e - b) (drop b cs) ! (q - b)"
    using assms be by simp
  then have "p - b = q - b" using nth_eq_iff_index_eq [OF ds lp lq] by blast
  then show ?thesis using assms(2,4) by simp
qed

lemma az_touch_val_Inr:
  assumes "az_touch beg k w s = Inr s'"
  shows "marker s ! k < int beg \<Longrightarrow>
           az_row_end s < length (az_val s) \<and> az_val s' = (az_val s)[az_row_end s := w]"
    and "\<not> marker s ! k < int beg \<Longrightarrow>
           nat (marker s ! k) < length (az_val s)
           \<and> az_val s' = (az_val s)[nat (marker s ! k) := az_val s ! nat (marker s ! k) + w]"
  using assms by (auto simp: az_touch_def Let_def split: if_splits)

lemma az_touch_val:
  assumes step: "az_touch beg k w s = Inr s'"
    and inv: "row_inv beg s0 s (fst ` set ts)"
    and vinv: "val_inv beg s0 s ts"
    and fresh: "\<forall>k<length (marker s0). marker s0 ! k < int beg"
  shows "val_inv beg s0 s' (ts @ [(k, w)])"
proof -
  let ?K = "fst ` set ts"
  from inv have lm: "length (marker s) = length (marker s0)"
    and rf: "row_filled (az_col s) beg (az_row_end s) ?K"
    and mk: "\<forall>k<length (marker s0).
           (k \<in> ?K \<longrightarrow> int beg \<le> marker s ! k \<and> marker s ! k < int (az_row_end s))
           \<and> (k \<notin> ?K \<longrightarrow> marker s ! k = marker s0 ! k)"
    and kv: "\<forall>k \<in> ?K. k < length (marker s0)"
    unfolding row_inv_def by blast+
  from vinv have lv: "length (az_val s) = length (az_val s0)"
    and lk: "\<forall>k \<in> ?K. az_col s ! nat (marker s ! k) = k"
    and vi: "\<forall>p. beg \<le> p \<and> p < az_row_end s \<longrightarrow> az_val s ! p = contrib ts (az_col s ! p)"
    and vo: "\<forall>p. p < beg \<or> az_row_end s \<le> p \<longrightarrow> az_val s ! p = az_val s0 ! p"
    unfolding val_inv_def by blast+
  from rf have be: "beg \<le> az_row_end s" unfolding row_filled_def by blast
  note T = az_touch_Inr [OF step]
  note V = az_touch_val_Inr [OF step]
  have k: "k < length (marker s0)" using T(1) lm by simp
  have pos: "int beg \<le> marker s ! k' \<and> marker s ! k' < int (az_row_end s)" if "k' \<in> ?K" for k'
    using mk kv that by blast
  show ?thesis
  proof (cases "marker s ! k < int beg")
    case True
    then have knK: "k \<notin> ?K" using pos by force
    from T(5) [OF True] have e: "az_row_end s < length (az_col s)"
      and m': "marker s' = (marker s)[k := int (az_row_end s)]"
      and c': "az_col s' = (az_col s)[az_row_end s := k]"
      and e': "az_row_end s' = az_row_end s + 1" by blast+
    from V(1) [OF True] have ev: "az_row_end s < length (az_val s)"
      and v': "az_val s' = (az_val s)[az_row_end s := w]" by blast+
    have 1: "length (az_val s') = length (az_val s0)" using v' lv by simp
    have 2: "\<forall>k' \<in> fst ` set (ts @ [(k, w)]). az_col s' ! nat (marker s' ! k') = k'"
    proof
      fix k' assume "k' \<in> fst ` set (ts @ [(k, w)])"
      then consider "k' = k" | "k' \<in> ?K" "k' \<noteq> k" by auto
      then show "az_col s' ! nat (marker s' ! k') = k'"
      proof cases
        case 1
        then show ?thesis using m' c' e T(1) by simp
      next
        case 2
        then have "marker s' ! k' = marker s ! k'" using m' by simp
        moreover have "nat (marker s ! k') \<noteq> az_row_end s" using pos [OF 2(1)] by linarith
        moreover have "az_col s ! nat (marker s ! k') = k'" using lk 2(1) by blast
        ultimately show ?thesis using c' by simp
      qed
    qed
    have 3: "\<forall>p. beg \<le> p \<and> p < az_row_end s' \<longrightarrow>
               az_val s' ! p = contrib (ts @ [(k, w)]) (az_col s' ! p)"
    proof (intro allI impI)
      fix p assume p: "beg \<le> p \<and> p < az_row_end s'"
      show "az_val s' ! p = contrib (ts @ [(k, w)]) (az_col s' ! p)"
      proof (cases "p = az_row_end s")
        case True
        then show ?thesis using v' c' e ev contrib_notin [OF knK] by simp
      next
        case False
        then have pl: "p < az_row_end s" using p e' by simp
        have "az_col s ! p \<in> ?K" using row_filled_nth [OF rf] p pl by blast
        then have "az_col s ! p \<noteq> k" using knK by auto
        then show ?thesis using v' c' False vi p pl by simp
      qed
    qed
    have 4: "\<forall>p. p < beg \<or> az_row_end s' \<le> p \<longrightarrow> az_val s' ! p = az_val s0 ! p"
      using vo v' e' be by auto
    show ?thesis unfolding val_inv_def using 1 2 3 4 by blast
  next
    case False
    have kK: "k \<in> ?K"
    proof (rule ccontr)
      assume "k \<notin> ?K"
      then have "marker s ! k = marker s0 ! k" using mk k by blast
      then show False using fresh k False by auto
    qed
    let ?m = "nat (marker s ! k)"
    from T(6) [OF False] have m': "marker s' = marker s" and c': "az_col s' = az_col s"
      and e': "az_row_end s' = az_row_end s" by blast+
    from V(2) [OF False] have mv: "?m < length (az_val s)"
      and v': "az_val s' = (az_val s)[?m := az_val s ! ?m + w]" by blast+
    have mr: "beg \<le> ?m" "?m < az_row_end s" using pos [OF kK] by linarith+
    have cm: "az_col s ! ?m = k" using lk kK by blast
    have 1: "length (az_val s') = length (az_val s0)" using v' lv by simp
    have 2: "\<forall>k' \<in> fst ` set (ts @ [(k, w)]). az_col s' ! nat (marker s' ! k') = k'"
      using lk kK m' c' by auto
    have 3: "\<forall>p. beg \<le> p \<and> p < az_row_end s' \<longrightarrow>
               az_val s' ! p = contrib (ts @ [(k, w)]) (az_col s' ! p)"
    proof (intro allI impI)
      fix p assume p: "beg \<le> p \<and> p < az_row_end s'"
      show "az_val s' ! p = contrib (ts @ [(k, w)]) (az_col s' ! p)"
      proof (cases "p = ?m")
        case True
        then show ?thesis using v' c' mv cm vi mr by simp
      next
        case False
        have "az_col s ! p \<noteq> k"
        proof
          assume "az_col s ! p = k"
          then have "az_col s ! p = az_col s ! ?m" using cm by simp
          from row_filled_inj [OF rf _ _ mr this] p e' have "p = ?m" by simp
          then show False using False by simp
        qed
        then show ?thesis using v' c' False vi p e' by simp
      qed
    qed
    have 4: "\<forall>p. p < beg \<or> az_row_end s' \<le> p \<longrightarrow> az_val s' ! p = az_val s0 ! p"
    proof (intro allI impI)
      fix p assume p: "p < beg \<or> az_row_end s' \<le> p"
      then have "p \<noteq> ?m" using mr e' by auto
      then have "az_val s' ! p = az_val s ! p" using v' by simp
      moreover have "az_val s ! p = az_val s0 ! p" using vo p e' by auto
      ultimately show "az_val s' ! p = az_val s0 ! p" by simp
    qed
    show ?thesis unfolding val_inv_def using 1 2 3 4 by blast
  qed
qed

lemma az_touches_val:
  assumes run: "foldE h js s = Inr s'"
    and h: "\<And>j t t'. h j t = Inr t' \<Longrightarrow> az_touch beg (f j) (g j) t = Inr t'"
    and inv: "row_inv beg s0 s (fst ` set ts)"
    and vinv: "val_inv beg s0 s ts"
    and fresh: "\<forall>k<length (marker s0). marker s0 ! k < int beg"
  shows "row_inv beg s0 s' (fst ` set (ts @ map (\<lambda>j. (f j, g j)) js))
       \<and> val_inv beg s0 s' (ts @ map (\<lambda>j. (f j, g j)) js)"
  using run inv vinv
proof (induction js arbitrary: s ts)
  case Nil
  then show ?case by simp
next
  case (Cons j js)
  from Cons.prems(1) obtain t where t: "h j s = Inr t" and r: "foldE h js t = Inr s'"
    by (auto split: sum.splits)
  note st = h [OF t]
  have i1: "row_inv beg s0 t (fst ` set (ts @ [(f j, g j)]))"
    using az_touch_inv [OF st Cons.prems(2) fresh] by simp
  have v1: "val_inv beg s0 t (ts @ [(f j, g j)])"
    using az_touch_val [OF st Cons.prems(2,3) fresh] .
  from Cons.IH [OF r i1 v1] show ?case by simp
qed

lemma val_inv_same:
  assumes "marker s1 = marker s" and "az_col s1 = az_col s" and "az_row_end s1 = az_row_end s"
    and "az_val s1 = az_val s"
  shows "val_inv beg s0 s1 ts = val_inv beg s0 s ts"
  using assms unfolding val_inv_def by simp

lemma val_inv_start: "val_inv beg (s\<lparr>az_row_end := beg\<rparr>) (s\<lparr>az_row_end := beg\<rparr>) []"
  unfolding val_inv_def by simp

lemma loc_updates_append:
  "loc_updates ds rank ndv dvf (xs @ ys) = loc_updates ds rank ndv dvf xs @ loc_updates ds rank ndv dvf ys"
  by (simp add: loc_updates_def)

lemma rem_updates_append:
  "rem_updates ds dv recv zcol zrecv (xs @ ys)
     = rem_updates ds dv recv zcol zrecv xs @ rem_updates ds dv recv zcol zrecv ys"
  by (simp add: rem_updates_def)

lemma val_done_from_inv:
  assumes inv: "row_inv beg (s\<lparr>az_row_end := beg\<rparr>) t (fst ` set ts)"
    and vinv: "val_inv beg (s\<lparr>az_row_end := beg\<rparr>) t ts"
    and beg: "beg = az_ptr s ! i"
    and s': "az_val s' = az_val t" "az_col s' = az_col t"
  shows "val_done i ts s s'"
proof -
  from inv have rf: "row_filled (az_col t) beg (az_row_end t) (fst ` set ts)"
    unfolding row_inv_def by simp
  have e: "az_row_end t = beg + card (fst ` set ts)" using row_filled_card [OF rf] .
  from vinv have "length (az_val t) = length (az_val s)"
    and "\<forall>p. beg \<le> p \<and> p < az_row_end t \<longrightarrow> az_val t ! p = contrib ts (az_col t ! p)"
    and "\<forall>p. p < beg \<or> az_row_end t \<le> p \<longrightarrow> az_val t ! p = az_val s ! p"
    unfolding val_inv_def by simp_all
  then show ?thesis unfolding val_done_def using e beg s' by simp
qed

subsection \<open>Second pass: the values of the local part of AZ\<close>

lemma second_pass_entry_val:
  assumes step: "second_pass_entry D ds ndv rank dvf rcm beg a s = Inr s'"
    and inv: "row_inv beg s0 s (fst ` set ts)"
    and vinv: "val_inv beg s0 s ts"
    and fresh: "\<forall>k<length (marker s0). marker s0 ! k < int beg"
  shows "row_inv beg s0 s' (fst ` set (ts @ loc_updates ds rank ndv dvf (aloc_row D rank [a])))
       \<and> val_inv beg s0 s' (ts @ loc_updates ds rank ndv dvf (aloc_row D rank [a]))"
proof (cases "is_local D rank (fst a)")
  case True
  let ?c = "nat (fst a - D ! rank)"
  let ?s1 = "s\<lparr>aloc_col := aloc_col s @ [?c], aloc_val := aloc_val s @ [snd a]\<rparr>"
  have r: "rank + 1 < length D" using second_pass_entry_matrices(1) [OF step] .
  have run: "foldE (\<lambda>j. az_touch beg (ds ! rank + j) (snd a * dvf ?c j)) [0..<ndv] ?s1 = Inr s'"
    using step True r by (auto simp: second_pass_entry_def Let_def split: if_splits)
  have inv1: "row_inv beg s0 ?s1 (fst ` set ts)"
    using inv row_inv_same [of ?s1 s beg s0 "fst ` set ts"] by simp
  have vinv1: "val_inv beg s0 ?s1 ts" using vinv val_inv_same [of ?s1 s beg s0 ts] by simp
  have u: "loc_updates ds rank ndv dvf (aloc_row D rank [a])
         = map (\<lambda>j. (ds ! rank + j, snd a * dvf ?c j)) [0..<ndv]"
    using True by (simp add: loc_updates_def aloc_row_def)
  show ?thesis
    unfolding u by (rule az_touches_val [OF run _ inv1 vinv1 fresh])
next
  case False
  have r: "rank + 1 < length D" using second_pass_entry_matrices(1) [OF step] .
  have s': "s' = s\<lparr>arem_col := arem_col s @ [rc_lookup rcm (fst a)], arem_val := arem_val s @ [snd a]\<rparr>"
    using step False r by (auto simp: second_pass_entry_def Let_def split: if_splits)
  have "row_inv beg s0 s' (fst ` set ts)"
    using inv row_inv_same [of s' s beg s0 "fst ` set ts"] s' by simp
  moreover have "val_inv beg s0 s' ts" using vinv val_inv_same [of s' s beg s0 ts] s' by simp
  moreover have "loc_updates ds rank ndv dvf (aloc_row D rank [a]) = []"
    using False by (simp add: loc_updates_def aloc_row_def)
  ultimately show ?thesis by simp
qed

lemma second_pass_entries_val:
  assumes run: "foldE (second_pass_entry D ds ndv rank dvf rcm beg) es s = Inr s'"
    and inv: "row_inv beg s0 s {}"
    and vinv: "val_inv beg s0 s []"
    and fresh: "\<forall>k<length (marker s0). marker s0 ! k < int beg"
  shows "row_inv beg s0 s' (fst ` set (loc_updates ds rank ndv dvf (aloc_row D rank es)))
       \<and> val_inv beg s0 s' (loc_updates ds rank ndv dvf (aloc_row D rank es))"
  using run
proof (induction es arbitrary: s' rule: rev_induct)
  case Nil
  then show ?case using inv vinv by (simp add: loc_updates_def aloc_row_def)
next
  case (snoc a es)
  then obtain t where t: "foldE (second_pass_entry D ds ndv rank dvf rcm beg) es s = Inr t"
    and step: "second_pass_entry D ds ndv rank dvf rcm beg a t = Inr s'"
    by (auto simp: foldE_snoc_Inr)
  from snoc.IH [OF t]
  have i: "row_inv beg s0 t (fst ` set (loc_updates ds rank ndv dvf (aloc_row D rank es)))"
    and v: "val_inv beg s0 t (loc_updates ds rank ndv dvf (aloc_row D rank es))" by blast+
  from second_pass_entry_val [OF step i v fresh]
  show ?case by (simp add: aloc_row_append loc_updates_append)
qed

lemma second_pass_row_val:
  assumes row: "second_pass_row D ds ndv rank dvf rcm A i s = Inr s'"
    and fresh: "\<forall>k<length (marker s). marker s ! k < int (az_ptr s ! i)"
    and room: "az_ptr s ! i \<le> length (az_col s)"
  shows "row_done i (fst ` set (loc_updates ds rank ndv dvf (aloc_row D rank (A ! i)))) s s'
       \<and> val_done i (loc_updates ds rank ndv dvf (aloc_row D rank (A ! i))) s s'"
proof -
  let ?beg = "az_ptr s ! i"
  let ?T = "loc_updates ds rank ndv dvf (aloc_row D rank (A ! i))"
  from row obtain t where
    t: "foldE (second_pass_entry D ds ndv rank dvf rcm ?beg) (A ! i) (s\<lparr>az_row_end := ?beg\<rparr>) = Inr t"
    and s': "s' = t\<lparr>az_ptr := (az_ptr t)[i := az_row_end t],
                    aloc_ptr := aloc_ptr t @ [length (aloc_col t)],
                    arem_ptr := arem_ptr t @ [length (arem_col t)]\<rparr>"
    by (auto simp: second_pass_row_def Let_def split: if_splits sum.splits)
  have fresh': "\<forall>k<length (marker (s\<lparr>az_row_end := ?beg\<rparr>)). marker (s\<lparr>az_row_end := ?beg\<rparr>) ! k < int ?beg"
    using fresh by simp
  from second_pass_entries_val [OF t row_inv_start [OF room] val_inv_start fresh']
  have inv: "row_inv ?beg (s\<lparr>az_row_end := ?beg\<rparr>) t (fst ` set ?T)"
    and vinv: "val_inv ?beg (s\<lparr>az_row_end := ?beg\<rparr>) t ?T" by blast+
  have 1: "row_done i (fst ` set ?T) s s'"
    by (rule row_done_from_inv [OF inv fresh refl]) (simp_all add: s')
  have 2: "val_done i ?T s s'"
    by (rule val_done_from_inv [OF inv vinv refl]) (simp_all add: s')
  show ?thesis using 1 2 by blast
qed

subsection \<open>Third pass: the values of the remote part of AZ\<close>

lemma third_pass_entry_val:
  fixes s :: "'a az_build_scheme"
  assumes step: "third_pass_entry dv ds recv zcol zrecv beg a s = Inr s'"
    and inv: "row_inv beg s0 s (fst ` set ts)"
    and vinv: "val_inv beg s0 s ts"
    and fresh: "\<forall>k<length (marker s0). marker s0 ! k < int beg"
  shows "row_inv beg s0 s' (fst ` set (ts @ rem_updates ds dv recv zcol zrecv [a]))
       \<and> val_inv beg s0 s' (ts @ rem_updates ds dv recv zcol zrecv [a])"
proof -
  define d where "d = nbr recv ! (upper_bound (xptr recv) (fst a) - 1)"
  let ?h = "\<lambda>j (s :: 'a az_build_scheme). if zcol ! fst a + j < length zrecv
               then az_touch beg (ds ! d + j) (snd a * zrecv ! (zcol ! fst a + j)) s
               else Inl OutOfBounds"
  have run: "foldE ?h [0..<dv ! d] s = Inr s'"
    using step unfolding third_pass_entry_def Let_def d_def by (simp split: if_splits)
  have h: "az_touch beg (ds ! d + j) (snd a * zrecv ! (zcol ! fst a + j)) t = Inr t'"
    if "?h j t = Inr t'" for j and t t' :: "'a az_build_scheme"
    using that by (simp split: if_splits)
  have u: "rem_updates ds dv recv zcol zrecv [a]
         = map (\<lambda>j. (ds ! d + j, snd a * zrecv ! (zcol ! fst a + j))) [0..<dv ! d]"
    by (simp add: rem_updates_def d_def)
  show ?thesis
    unfolding u by (rule az_touches_val [OF run h inv vinv fresh])
qed

lemma third_pass_entries_val:
  fixes s :: "'a az_build_scheme"
  assumes run: "foldE (third_pass_entry dv ds recv zcol zrecv beg) es s = Inr s'"
    and inv: "row_inv beg s0 s {}"
    and vinv: "val_inv beg s0 s []"
    and fresh: "\<forall>k<length (marker s0). marker s0 ! k < int beg"
  shows "row_inv beg s0 s' (fst ` set (rem_updates ds dv recv zcol zrecv es))
       \<and> val_inv beg s0 s' (rem_updates ds dv recv zcol zrecv es)"
  using run
proof (induction es arbitrary: s' rule: rev_induct)
  case Nil
  then show ?case using inv vinv by (simp add: rem_updates_def)
next
  case (snoc a es)
  then obtain t where t: "foldE (third_pass_entry dv ds recv zcol zrecv beg) es s = Inr t"
    and step: "third_pass_entry dv ds recv zcol zrecv beg a t = Inr s'"
    by (auto simp: foldE_snoc_Inr)
  from snoc.IH [OF t]
  have i: "row_inv beg s0 t (fst ` set (rem_updates ds dv recv zcol zrecv es))"
    and v: "val_inv beg s0 t (rem_updates ds dv recv zcol zrecv es)" by blast+
  from third_pass_entry_val [OF step i v fresh]
  show ?case by (simp add: rem_updates_append)
qed

lemma third_pass_row_val:
  fixes s :: "'a az_build_scheme"
  assumes row: "third_pass_row dv ds recv zcol zrecv rp rcs rvs i s = Inr s'"
    and ent: "row_entries rp rcs rvs i = Inr R"
    and fresh: "\<forall>k<length (marker s). marker s ! k < int (az_ptr s ! i)"
    and room: "az_ptr s ! i \<le> length (az_col s)"
  shows "row_done i (fst ` set (rem_updates ds dv recv zcol zrecv R)) s s'
       \<and> val_done i (rem_updates ds dv recv zcol zrecv R) s s'"
proof -
  let ?beg = "az_ptr s ! i"
  let ?T = "rem_updates ds dv recv zcol zrecv R"
  from row ent obtain t where
    t: "foldE (third_pass_entry dv ds recv zcol zrecv ?beg) R (s\<lparr>az_row_end := ?beg\<rparr>) = Inr t"
    and s': "s' = t\<lparr>az_ptr := (az_ptr t)[i := az_row_end t]\<rparr>"
    by (auto simp: third_pass_row_def Let_def split: if_splits sum.splits)
  have fresh': "\<forall>k<length (marker (s\<lparr>az_row_end := ?beg\<rparr>)). marker (s\<lparr>az_row_end := ?beg\<rparr>) ! k < int ?beg"
    using fresh by simp
  from third_pass_entries_val [OF t row_inv_start [OF room] val_inv_start fresh']
  have inv: "row_inv ?beg (s\<lparr>az_row_end := ?beg\<rparr>) t (fst ` set ?T)"
    and vinv: "val_inv ?beg (s\<lparr>az_row_end := ?beg\<rparr>) t ?T" by blast+
  have 1: "row_done i (fst ` set ?T) s s'"
    by (rule row_done_from_inv [OF inv fresh refl]) (simp_all add: s')
  have 2: "val_done i ?T s s'"
    by (rule val_done_from_inv [OF inv vinv refl]) (simp_all add: s')
  show ?thesis using 1 2 by blast
qed

subsection \<open>The values after all rows\<close>

lemma fill_rows_val:
  fixes s0 :: "'a az_build_scheme"
  assumes run: "foldE rowf [0..<n] s0 = Inr s"
    and step: "\<And>i t t'. \<lbrakk>i < N; rowf i t = Inr t';
                 \<forall>k<length (marker t). marker t ! k < int (az_ptr t ! i);
                 az_ptr t ! i \<le> length (az_col t)\<rbrakk>
                \<Longrightarrow> row_done i (fst ` set (T i)) t t' \<and> val_done i (T i) t t'"
    and n: "n \<le> N"
    and B: "az_ptr s0 = B" "length B = N + 1"
    and Q: "sorted Q" "length Q = N + 1" "Q ! N \<le> length (az_col s0)"
    and room: "\<forall>i<N. Q ! i \<le> B ! i \<and> B ! i + card (fst ` set (T i)) \<le> Q ! (i + 1)"
    and m0: "\<forall>k<length (marker s0). marker s0 ! k < int (Q ! 0)"
  shows "length (az_val s) = length (az_val s0)
       \<and> (\<forall>i<n. \<forall>p. B ! i \<le> p \<and> p < B ! i + card (fst ` set (T i))
              \<longrightarrow> az_val s ! p = contrib (T i) (az_col s ! p))
       \<and> (\<forall>p. (\<forall>i<n. \<not> (B ! i \<le> p \<and> p < B ! i + card (fst ` set (T i))))
              \<longrightarrow> az_val s ! p = az_val s0 ! p)"
  using run n
proof (induction n arbitrary: s)
  case 0
  then show ?case by simp
next
  case (Suc n)
  let ?K = "\<lambda>i. fst ` set (T i)"
  from Suc.prems(1) obtain t where t: "foldE rowf [0..<n] s0 = Inr t" and row: "rowf n t = Inr s"
    by (auto simp: foldE_snoc_Inr)
  have nN: "n < N" and nle: "n \<le> N" using Suc.prems(2) by simp_all
  have step1: "row_done i (?K i) u u'"
    if "i < N" "rowf i u = Inr u'" "\<forall>k<length (marker u). marker u ! k < int (az_ptr u ! i)"
      "az_ptr u ! i \<le> length (az_col u)" for i u u'
    using step [OF that] by blast
  from fill_rows [OF t step1 nle B Q room m0]
  have lm: "length (marker t) = length (marker s0)" and lc: "length (az_col t) = length (az_col s0)"
    and mk: "\<forall>k<length (marker s0). marker t ! k < int (Q ! n)"
    and pt: "\<forall>i\<le>N. az_ptr t ! i = (if i < n then B ! i + card (?K i) else B ! i)"
    by blast+
  from Suc.IH [OF t nle]
  have lv: "length (az_val t) = length (az_val s0)"
    and vi: "\<forall>i<n. \<forall>p. B ! i \<le> p \<and> p < B ! i + card (?K i)
                \<longrightarrow> az_val t ! p = contrib (T i) (az_col t ! p)"
    and vo: "\<forall>p. (\<forall>i<n. \<not> (B ! i \<le> p \<and> p < B ! i + card (?K i))) \<longrightarrow> az_val t ! p = az_val s0 ! p"
    by blast+
  have beg: "az_ptr t ! n = B ! n" using pt nN by simp
  have rn: "Q ! n \<le> B ! n" "B ! n + card (?K n) \<le> Q ! (n + 1)" using room nN by simp_all
  have mono: "Q ! a \<le> Q ! b" if "a \<le> b" "b \<le> N" for a b
    using Q(1,2) that by (intro sorted_nth_mono) auto
  have fresh: "\<forall>k<length (marker t). marker t ! k < int (az_ptr t ! n)"
    using mk lm rn(1) beg by auto
  have "B ! n + card (?K n) \<le> Q ! N" using rn(2) mono [of "n + 1" N] nN by simp
  then have fits: "az_ptr t ! n \<le> length (az_col t)" using beg lc Q(3) by simp
  from step [OF nN row fresh fits]
  have rd: "row_done n (?K n) t s" and vd: "val_done n (T n) t s" by blast+
  from rd have un': "\<forall>p. p < B ! n \<or> B ! n + card (?K n) \<le> p \<longrightarrow> az_col s ! p = az_col t ! p"
    unfolding row_done_def beg by blast
  from vd have lv': "length (az_val s) = length (az_val t)"
    and vi': "\<forall>p. B ! n \<le> p \<and> p < B ! n + card (?K n) \<longrightarrow> az_val s ! p = contrib (T n) (az_col s ! p)"
    and vo': "\<forall>p. p < B ! n \<or> B ! n + card (?K n) \<le> p \<longrightarrow> az_val s ! p = az_val t ! p"
    unfolding val_done_def beg by blast+
  have below: "B ! i + card (?K i) \<le> B ! n" if "i < n" for i
  proof -
    have "B ! i + card (?K i) \<le> Q ! (i + 1)" using room that nN by simp
    also have "\<dots> \<le> Q ! n" using mono [of "i + 1" n] that nN by simp
    finally show ?thesis using rn(1) by simp
  qed
  have 2: "\<forall>i<Suc n. \<forall>p. B ! i \<le> p \<and> p < B ! i + card (?K i)
              \<longrightarrow> az_val s ! p = contrib (T i) (az_col s ! p)"
  proof (intro allI impI)
    fix i p assume i: "i < Suc n" and p: "B ! i \<le> p \<and> p < B ! i + card (?K i)"
    show "az_val s ! p = contrib (T i) (az_col s ! p)"
    proof (cases "i = n")
      case True
      then show ?thesis using vi' p by simp
    next
      case False
      then have il: "i < n" using i by simp
      have pl: "p < B ! n" using below [OF il] p by simp
      have "az_val s ! p = az_val t ! p" using vo' pl by blast
      moreover have "az_col s ! p = az_col t ! p" using un' pl by blast
      moreover have "az_val t ! p = contrib (T i) (az_col t ! p)" using vi il p by blast
      ultimately show ?thesis by simp
    qed
  qed
  have 3: "\<forall>p. (\<forall>i<Suc n. \<not> (B ! i \<le> p \<and> p < B ! i + card (?K i))) \<longrightarrow> az_val s ! p = az_val s0 ! p"
  proof (intro allI impI)
    fix p assume p: "\<forall>i<Suc n. \<not> (B ! i \<le> p \<and> p < B ! i + card (?K i))"
    then have "p < B ! n \<or> B ! n + card (?K n) \<le> p" by (metis lessI not_le_imp_less)
    then have "az_val s ! p = az_val t ! p" using vo' by blast
    moreover have "az_val t ! p = az_val s0 ! p" using vo p by simp
    ultimately show "az_val s ! p = az_val s0 ! p" by simp
  qed
  show ?case using lv lv' 2 3 by simp
qed

lemma set_concat_map_fst:
  "fst ` set (concat (map (\<lambda>a. map (\<lambda>j. (f a + j, g a j)) [0..<n a]) row))
     = (\<Union>a \<in> set row. {f a..<f a + n a})"
proof (induction row)
  case Nil
  then show ?case by simp
next
  case (Cons a row)
  have "fst ` set (map (\<lambda>j. (f a + j, g a j)) [0..<n a]) = (\<lambda>j. f a + j) ` {0..<n a}"
    by (simp add: image_image)
  then have "fst ` set (map (\<lambda>j. (f a + j, g a j)) [0..<n a]) = {f a..<f a + n a}"
    using image_add_upt [of "f a" "n a"] by simp
  then show ?case using Cons by (simp add: image_Un)
qed

lemma fst_loc_updates:
  "fst ` set (loc_updates ds rank ndv dvf (aloc_row D rank row)) = loc_block D rank ds ndv row"
proof -
  have "fst ` set (loc_updates ds rank ndv dvf (aloc_row D rank row))
      = (\<Union>a \<in> set (aloc_row D rank row). {ds ! rank..<ds ! rank + ndv})"
    unfolding loc_updates_def
    using set_concat_map_fst [of "\<lambda>a. ds ! rank" "\<lambda>a j. snd a * dvf (fst a) j" "\<lambda>a. ndv"] by simp
  moreover have "(aloc_row D rank row = []) = (\<not> (\<exists>a \<in> set row. is_local D rank (fst a)))"
    by (auto simp: aloc_row_def filter_empty_conv)
  ultimately show ?thesis by (cases "aloc_row D rank row = []") (auto simp: loc_block_def)
qed

lemma fst_rem_updates:
  "fst ` set (rem_updates ds dv recv zcol zrecv row) = rem_blocks ds dv recv row"
  unfolding rem_updates_def rem_blocks_def dv_block_def
  using set_concat_map_fst [of "\<lambda>a. ds ! (nbr recv ! (upper_bound (xptr recv) (fst a) - 1))"
      "\<lambda>a j. snd a * zrecv ! (zcol ! fst a + j)"
      "\<lambda>a. dv ! (nbr recv ! (upper_bound (xptr recv) (fst a) - 1))" row]
  by simp

lemma second_pass_val:
  assumes sp: "second_pass D ds ndv nz rank dvf rcm counts A = Inr s2"
    and Q: "Q = partial_sum counts" "length counts = length A + 1"
    and room: "\<forall>i<length A. Q ! i + card (loc_block D rank ds ndv (A ! i)) \<le> Q ! (i + 1)"
  shows "length (az_val s2) = last Q
       \<and> (\<forall>i<length A. \<forall>p. Q ! i \<le> p \<and> p < Q ! i + card (loc_block D rank ds ndv (A ! i))
              \<longrightarrow> az_val s2 ! p
                  = contrib (loc_updates ds rank ndv dvf (aloc_row D rank (A ! i))) (az_col s2 ! p))"
proof -
  let ?s0 = "\<lparr>marker = replicate nz (- 1), az_row_end = 0, az_ptr = Q,
         az_col = replicate (last Q) 0, az_val = replicate (last Q) 0,
         aloc_ptr = [0], aloc_col = [], aloc_val = [],
         arem_ptr = [0], arem_col = [], arem_val = []\<rparr>"
  let ?T = "\<lambda>i. loc_updates ds rank ndv dvf (aloc_row D rank (A ! i))"
  have run: "foldE (second_pass_row D ds ndv rank dvf rcm A) [0..<length A] ?s0 = Inr s2"
    using sp unfolding second_pass_def Let_def Q(1) .
  have lQ: "length Q = length A + 1" using Q by simp
  have sQ: "sorted Q" unfolding Q(1) by (rule sorted_partial_sum_nat)
  have "Q \<noteq> []" using lQ by auto
  then have last: "last Q = Q ! length A" using lQ by (simp add: last_conv_nth)
  have step: "row_done i (fst ` set (?T i)) t t' \<and> val_done i (?T i) t t'"
    if "i < length A" "second_pass_row D ds ndv rank dvf rcm A i t = Inr t'"
      "\<forall>k<length (marker t). marker t ! k < int (az_ptr t ! i)" "az_ptr t ! i \<le> length (az_col t)"
    for i t t'
    using second_pass_row_val [OF that(2,3,4)] .
  have room': "\<forall>i<length A. Q ! i \<le> Q ! i \<and> Q ! i + card (fst ` set (?T i)) \<le> Q ! (i + 1)"
    using room by (simp add: fst_loc_updates)
  have "length (az_val s2) = length (az_val ?s0)
       \<and> (\<forall>i<length A. \<forall>p. Q ! i \<le> p \<and> p < Q ! i + card (fst ` set (?T i))
              \<longrightarrow> az_val s2 ! p = contrib (?T i) (az_col s2 ! p))
       \<and> (\<forall>p. (\<forall>i<length A. \<not> (Q ! i \<le> p \<and> p < Q ! i + card (fst ` set (?T i))))
              \<longrightarrow> az_val s2 ! p = az_val ?s0 ! p)"
    by (rule fill_rows_val [OF run step order_refl _ lQ sQ lQ _ room'])
       (simp_all add: last)
  then show ?thesis by (simp add: fst_loc_updates)
qed

lemma third_pass_val:
  fixes s2 :: "'a az_build_scheme"
  assumes tp: "third_pass dv ds recv zcol zrecv rp rcs rvs N s2 = Inr s3"
    and ent: "\<forall>i<N. row_entries rp rcs rvs i = Inr (R i)"
    and B: "az_ptr s2 = B" "length B = N + 1"
    and Q: "sorted Q" "length Q = N + 1" "Q ! N \<le> length (az_col s2)"
    and room: "\<forall>i<N. Q ! i \<le> B ! i \<and> B ! i + card (rem_blocks ds dv recv (R i)) \<le> Q ! (i + 1)"
  shows "length (az_val s3) = length (az_val s2)
       \<and> (\<forall>i<N. \<forall>p. B ! i \<le> p \<and> p < B ! i + card (rem_blocks ds dv recv (R i))
              \<longrightarrow> az_val s3 ! p = contrib (rem_updates ds dv recv zcol zrecv (R i)) (az_col s3 ! p))
       \<and> (\<forall>p. (\<forall>i<N. \<not> (B ! i \<le> p \<and> p < B ! i + card (rem_blocks ds dv recv (R i))))
              \<longrightarrow> az_val s3 ! p = az_val s2 ! p)"
proof -
  let ?s0 = "s2\<lparr>marker := replicate (length (marker s2)) (- 1)\<rparr>"
  let ?T = "\<lambda>i. rem_updates ds dv recv zcol zrecv (R i)"
  have run: "foldE (third_pass_row dv ds recv zcol zrecv rp rcs rvs) [0..<N] ?s0 = Inr s3"
    using tp unfolding third_pass_def .
  have step: "row_done i (fst ` set (?T i)) t t' \<and> val_done i (?T i) t t'"
    if "i < N" "third_pass_row dv ds recv zcol zrecv rp rcs rvs i t = Inr t'"
      "\<forall>k<length (marker t). marker t ! k < int (az_ptr t ! i)" "az_ptr t ! i \<le> length (az_col t)"
    for i and t t' :: "'a az_build_scheme"
    using third_pass_row_val [OF that(2) ent [rule_format, OF that(1)] that(3,4)] .
  have room': "\<forall>i<N. Q ! i \<le> B ! i \<and> B ! i + card (fst ` set (?T i)) \<le> Q ! (i + 1)"
    using room by (simp add: fst_rem_updates)
  have "length (az_val s3) = length (az_val ?s0)
       \<and> (\<forall>i<N. \<forall>p. B ! i \<le> p \<and> p < B ! i + card (fst ` set (?T i))
              \<longrightarrow> az_val s3 ! p = contrib (?T i) (az_col s3 ! p))
       \<and> (\<forall>p. (\<forall>i<N. \<not> (B ! i \<le> p \<and> p < B ! i + card (fst ` set (?T i))))
              \<longrightarrow> az_val s3 ! p = az_val ?s0 ! p)"
    by (rule fill_rows_val [OF run step order_refl _ B(2) Q(1,2) _ room'])
       (use B(1) Q(3) in simp_all)
  then show ?thesis by (simp add: fst_rem_updates)
qed

lemma skeleton_nth:
  assumes "i < n"
  shows "partial_sum (0 # map f [0..<n]) ! 0 = (0::nat)"
    and "partial_sum (0 # map f [0..<n]) ! (i + 1) = partial_sum (0 # map f [0..<n]) ! i + f i"
proof -
  show "partial_sum (0 # map f [0..<n]) ! 0 = (0::nat)" by (simp add: partial_sum_nth)
  have "take (Suc i) (map f [0..<n]) = take i (map f [0..<n]) @ [f i]"
    using assms by (simp add: take_Suc_conv_app_nth)
  then show "partial_sum (0 # map f [0..<n]) ! (i + 1) = partial_sum (0 # map f [0..<n]) ! i + f i"
    using assms by (simp add: partial_sum_nth)
qed

lemma fix_ptr_shift:
  assumes len: "length p = n + 1" "length q = n + 1" and q0: "q ! 0 = 0"
    and sh: "\<forall>i<n. p ! i = q ! (i + 1)"
  shows "fix_ptr p = q"
proof (rule nth_equalityI)
  have ne: "p \<noteq> []" using len by auto
  show "length (fix_ptr p) = length q"
    using len ne by (simp add: fix_ptr_def rotate_last_to_front_def)
  fix i assume "i < length (fix_ptr p)"
  then have i: "i < n + 1" using len ne by (simp add: fix_ptr_def rotate_last_to_front_def)
  show "fix_ptr p ! i = q ! i"
  proof (cases i)
    case 0
    then show ?thesis using q0 ne by (simp add: fix_ptr_def rotate_last_to_front_def)
  next
    case (Suc j)
    then have j: "j < n" using i by simp
    have "fix_ptr p ! i = butlast p ! j"
      using Suc ne by (simp add: fix_ptr_def rotate_last_to_front_def)
    also have "\<dots> = p ! j" using j len by (simp add: nth_butlast)
    finally show ?thesis using sh j Suc by simp
  qed
qed

text \<open>The assembled AZ of a rank, in terms of the owners of the columns of each row.\<close>

lemma az_assembled:
  assumes run: "subdomain_deflation_setup P rank nrows_all ndv_all nra zp A ndv dvf = Inr res"
    and rank: "rank < P"
    and lens: "length nrows_all = P" "length ndv_all = P" "length nra = P"
  shows "ptr (r_az res) = r_ptr_alloc res"
    and "length (r_ptr_alloc res) = length A + 1" and "r_ptr_alloc res ! 0 = 0"
    and "sorted (r_ptr_alloc res)"
    and "\<forall>i<length A. r_ptr_alloc res ! i \<le> r_ptr_loc res ! i
           \<and> r_ptr_loc res ! i \<le> r_ptr_rem res ! i
           \<and> r_ptr_rem res ! i = r_ptr_alloc res ! (i + 1)"
    and "\<forall>i<length A.
           row_filled (col (r_az res)) (r_ptr_alloc res ! i) (r_ptr_alloc res ! (i + 1))
             (\<Union>d \<in> row_owners (r_domain res) (A ! i).
                dv_block (r_dv_start res) (r_dv_size res) (nat d))"
    and "length (val (r_az res)) = length (col (r_az res))"
    and "\<forall>i<length A. \<forall>p. r_ptr_alloc res ! i \<le> p \<and> p < r_ptr_alloc res ! (i + 1)
           \<longrightarrow> val (r_az res) ! p
               = contrib (az_updates res rank ndv dvf (A ! i)) (col (r_az res) ! p)"
    and "\<forall>i<length A. \<forall>d \<in> row_owners (r_domain res) (A ! i).
           0 \<le> d \<and> nat d < P \<and> (nat d = rank \<or> r_comm_matrix res ! rank ! nat d \<noteq> 0)"
proof -
  let ?D = "r_domain res" and ?dv = "r_dv_size res" and ?ds = "r_dv_start res"
  let ?Q = "r_ptr_alloc res"
  let ?N = "length A"
  from setup_stages [OF run] obtain s1 :: first_pass_state and rn :: renumber_state
    and recv send s2 zrecv_ptr zcol_ptr s3
    where dv: "?dv = all_gather rank ndv ndv_all"
    and ds: "?ds = 0 # partial_sum ?dv"
    and D: "?D = partial_sum (0 # map int (all_gather rank (length A) nrows_all))"
    and fp: "first_pass ?D ?dv rank (last ?ds) A = Inr s1"
    and rn: "renumber ?D P (rc s1) = Inr rn"
    and cm: "r_comm_matrix res = all_gather rank (num_recv rn) nra"
    and cp: "comm_pattern (r_comm_matrix res) P rank = Inr (recv, send)"
    and sp: "second_pass ?D ?ds ndv (last ?ds) rank dvf (rn_rc rn) (ptr1 s1) A = Inr s2"
    and tp: "third_pass ?dv ?ds recv zcol_ptr (map zp [0..<last zrecv_ptr])
         (arem_ptr s2) (arem_col s2) (arem_val s2) (length A) s2 = Inr s3"
    and az: "r_az res = \<lparr>nrows = length A, ncols = last ?ds, ptr = fix_ptr (az_ptr s3),
                    col = az_col s3, val = az_val s3\<rparr>"
    and Q: "?Q = partial_sum (ptr1 s1)" and pl: "r_ptr_loc res = az_ptr s2"
    and pr: "r_ptr_rem res = az_ptr s3"
    and rz: "r_rc res = rn_rc rn" "r_recv res = recv" "r_zcol_ptr res = zcol_ptr"
      "r_zrecv res = map zp [0..<last zrecv_ptr]"
    by blast
  have sD: "sorted ?D" unfolding D by (rule sorted_domain)
  have lD: "rank + 1 < length ?D" unfolding D using rank lens by (simp add: all_gather_def)
  have ndv: "?dv ! rank = ndv" unfolding dv using rank lens by (simp add: all_gather_def)
  have cmr: "r_comm_matrix res ! rank = num_recv rn"
    unfolding cm using rank lens by (simp add: all_gather_def)
  let ?cnt = "\<lambda>j. row_count ?D ?dv (A ! j)"
  let ?K2 = "\<lambda>j. loc_block ?D rank ?ds ndv (A ! j)"
  let ?R = "\<lambda>j. arem_row ?D rank (rn_rc rn) (A ! j)"
  let ?K3 = "\<lambda>j. rem_blocks ?ds ?dv recv (?R j)"
  have p1: "ptr1 s1 = 0 # map ?cnt [0..<?N]" using first_pass_result(1) [OF fp] .
  have Qe: "?Q = partial_sum (0 # map ?cnt [0..<?N])" using Q p1 by simp
  have lQ: "length ?Q = ?N + 1" using Qe by simp
  have sQ: "sorted ?Q" unfolding Q by (rule sorted_partial_sum_nat)
  have Q0: "?Q ! 0 = 0" unfolding Qe by (simp add: partial_sum_nth)
  have QS: "?Q ! (j + 1) = ?Q ! j + ?cnt j" if "j < ?N" for j
    unfolding Qe using skeleton_nth(2) [OF that, of ?cnt] .
  have cnt: "?K2 j \<inter> ?K3 j = {} \<and> card (?K2 j) + card (?K3 j) = ?cnt j
      \<and> ?K2 j \<union> ?K3 j = (\<Union>d \<in> row_owners ?D (A ! j). dv_block ?ds ?dv (nat d))"
    if "j < ?N" for j
  proof -
    have valid: "\<forall>d \<in> row_owners ?D (A ! j). 0 \<le> d \<and> nat d < length ?dv"
      using first_pass_result(2) [OF fp] that by blast
    note a = loc_block_owner [OF sD lD ndv, of ?ds "A ! j"]
    note b = rem_blocks_owner [OF fp rn cp cmr sD lD that, of ?ds]
    from row_blocks_count [OF ds valid a b] show ?thesis by blast
  qed
  have room2: "\<forall>j<?N. ?Q ! j + card (?K2 j) \<le> ?Q ! (j + 1)"
    using cnt QS by fastforce
  have lp1: "length (ptr1 s1) = ?N + 1" using p1 by simp
  from second_pass_az [OF sp Q lp1 room2]
  have lc2: "length (az_col s2) = last ?Q" and lp2: "length (az_ptr s2) = ?N + 1"
    and p2: "\<forall>j\<le>?N. az_ptr s2 ! j = (if j < ?N then ?Q ! j + card (?K2 j) else ?Q ! j)"
    and f2: "\<forall>j<?N. row_filled (az_col s2) (?Q ! j) (?Q ! j + card (?K2 j)) (?K2 j)"
    by blast+
  have "?Q \<noteq> []" using lQ by auto
  then have lastQ: "last ?Q = ?Q ! ?N" using lQ by (simp add: last_conv_nth)
  have ent: "\<forall>j<?N. row_entries (arem_ptr s2) (arem_col s2) (arem_val s2) j = Inr (?R j)"
    using built_from_row(1) [OF second_pass_matrices(2) [OF sp]] by simp
  have room3: "\<forall>j<?N. ?Q ! j \<le> az_ptr s2 ! j \<and> az_ptr s2 ! j + card (?K3 j) \<le> ?Q ! (j + 1)"
    using cnt QS p2 by fastforce
  have fits: "?Q ! ?N \<le> length (az_col s2)" using lc2 lastQ by simp
  from third_pass_az [OF tp ent refl lp2 sQ lQ fits room3]
  have lc3: "length (az_col s3) = length (az_col s2)" and lp3: "length (az_ptr s3) = ?N + 1"
    and p3: "\<forall>j\<le>?N. az_ptr s3 ! j = (if j < ?N then az_ptr s2 ! j + card (?K3 j) else az_ptr s2 ! j)"
    and f3: "\<forall>j<?N. row_filled (az_col s3) (az_ptr s2 ! j) (az_ptr s2 ! j + card (?K3 j)) (?K3 j)"
    and un: "\<forall>p. (\<forall>j<?N. \<not> (az_ptr s2 ! j \<le> p \<and> p < az_ptr s2 ! j + card (?K3 j)))
              \<longrightarrow> az_col s3 ! p = az_col s2 ! p"
    by blast+
  have e2: "az_ptr s2 ! j = ?Q ! j + card (?K2 j)" if "j < ?N" for j using p2 that by simp
  have e3: "az_ptr s3 ! j = ?Q ! (j + 1)" if "j < ?N" for j
    using p3 e2 [OF that] cnt [OF that] QS [OF that] that by simp
  have mono: "?Q ! a \<le> ?Q ! b" if "a \<le> b" "b \<le> ?N" for a b
    using sQ lQ that by (intro sorted_nth_mono) auto
  let ?T2 = "\<lambda>j. loc_updates ?ds rank ndv dvf (aloc_row ?D rank (A ! j))"
  let ?T3 = "\<lambda>j. rem_updates ?ds ?dv recv zcol_ptr (map zp [0..<last zrecv_ptr]) (?R j)"
  from second_pass_val [OF sp Q lp1 room2]
  have lv2: "length (az_val s2) = last ?Q"
    and v2: "\<forall>j<?N. \<forall>p. ?Q ! j \<le> p \<and> p < ?Q ! j + card (?K2 j)
               \<longrightarrow> az_val s2 ! p = contrib (?T2 j) (az_col s2 ! p)"
    by blast+
  from third_pass_val [OF tp ent refl lp2 sQ lQ fits room3]
  have lv3: "length (az_val s3) = length (az_val s2)"
    and v3: "\<forall>j<?N. \<forall>p. az_ptr s2 ! j \<le> p \<and> p < az_ptr s2 ! j + card (?K3 j)
               \<longrightarrow> az_val s3 ! p = contrib (?T3 j) (az_col s3 ! p)"
    and vun: "\<forall>p. (\<forall>j<?N. \<not> (az_ptr s2 ! j \<le> p \<and> p < az_ptr s2 ! j + card (?K3 j)))
              \<longrightarrow> az_val s3 ! p = az_val s2 ! p"
    by blast+
  have outside: "\<forall>j<?N. \<not> (az_ptr s2 ! j \<le> p \<and> p < az_ptr s2 ! j + card (?K3 j))"
    if i: "i < ?N" and p: "?Q ! i \<le> p" "p < az_ptr s2 ! i" for i p
  proof (intro allI impI)
    fix j assume j: "j < ?N"
    consider "j < i" | "j = i" | "i < j" by linarith
    then show "\<not> (az_ptr s2 ! j \<le> p \<and> p < az_ptr s2 ! j + card (?K3 j))"
    proof cases
      case 1
      have "az_ptr s2 ! j + card (?K3 j) \<le> ?Q ! (j + 1)" using room3 j by simp
      also have "\<dots> \<le> ?Q ! i" using mono [of "j + 1" i] 1 i by simp
      finally show ?thesis using p(1) by simp
    next
      case 2
      then show ?thesis using p(2) by simp
    next
      case 3
      have "az_ptr s2 ! i \<le> ?Q ! (i + 1)" using room3 i by fastforce
      also have "\<dots> \<le> ?Q ! j" using mono [of "i + 1" j] 3 j by simp
      also have "\<dots> \<le> az_ptr s2 ! j" using room3 j by simp
      finally show ?thesis using p(2) by simp
    qed
  qed
  show "length (val (r_az res)) = length (col (r_az res))"
    using az lv3 lv2 lc3 lc2 by simp
  show "\<forall>i<length A. \<forall>d \<in> row_owners ?D (A ! i).
           0 \<le> d \<and> nat d < P \<and> (nat d = rank \<or> r_comm_matrix res ! rank ! nat d \<noteq> 0)"
  proof (intro allI impI ballI)
    fix i d assume i: "i < length A" and d: "d \<in> row_owners ?D (A ! i)"
    have ldv: "length ?dv = P" unfolding dv using lens by (simp add: all_gather_def)
    have v: "0 \<le> d" "nat d < P" using first_pass_result(2) [OF fp] i d ldv by auto
    have "nat d = rank \<or> r_comm_matrix res ! rank ! nat d \<noteq> 0"
    proof (cases "d = int rank")
      case True
      then show ?thesis by simp
    next
      case False
      from d obtain a where a: "a \<in> set (A ! i)" "d = owner ?D (fst a)"
        by (auto simp: row_owners_def)
      have "fst a \<in> fst ` set (rc s1)"
        using first_pass_result(4) [OF fp] a i False by auto
      from ghost_owner [OF fp rn cp cmr sD this]
      have "nat d \<in> set (nbr recv)" using a(2) by (metis nat_int nth_mem)
      moreover have "\<forall>p \<in> set (nbr recv). p < P \<and> r_comm_matrix res ! rank ! p \<noteq> 0"
        using comm_pattern_recv_prefix [OF cp [unfolded comm_pattern_def]] by blast
      ultimately show ?thesis by blast
    qed
    then show "0 \<le> d \<and> nat d < P \<and> (nat d = rank \<or> r_comm_matrix res ! rank ! nat d \<noteq> 0)"
      using v by blast
  qed
  show "\<forall>i<length A. \<forall>p. ?Q ! i \<le> p \<and> p < ?Q ! (i + 1)
           \<longrightarrow> val (r_az res) ! p = contrib (az_updates res rank ndv dvf (A ! i)) (col (r_az res) ! p)"
  proof (intro allI impI)
    fix i p assume i: "i < length A" and p: "?Q ! i \<le> p \<and> p < ?Q ! (i + 1)"
    have upd: "az_updates res rank ndv dvf (A ! i) = ?T2 i @ ?T3 i"
      by (simp add: az_updates_def rz)
    have k2: "fst ` set (?T2 i) = ?K2 i" by (rule fst_loc_updates)
    have k3: "fst ` set (?T3 i) = ?K3 i" by (rule fst_rem_updates)
    have dj: "?K2 i \<inter> ?K3 i = {}" using cnt [OF i] by blast
    show "val (r_az res) ! p = contrib (az_updates res rank ndv dvf (A ! i)) (col (r_az res) ! p)"
    proof (cases "p < az_ptr s2 ! i")
      case True
      note out = outside [OF i _ True]
      have c: "az_col s3 ! p = az_col s2 ! p" using un out p by blast
      have v: "az_val s3 ! p = az_val s2 ! p" using vun out p by blast
      have "az_val s2 ! p = contrib (?T2 i) (az_col s2 ! p)"
        using v2 i p True e2 [OF i] by simp
      moreover have "az_col s2 ! p \<in> ?K2 i"
        using row_filled_nth [OF f2 [rule_format, OF i]] p True e2 [OF i] by simp
      then have "az_col s2 ! p \<notin> fst ` set (?T3 i)" using dj k3 by blast
      then have "contrib (?T3 i) (az_col s2 ! p) = 0" by (rule contrib_notin)
      ultimately show ?thesis using az upd c v by simp
    next
      case False
      then have lo: "az_ptr s2 ! i \<le> p" by simp
      have hi: "p < az_ptr s2 ! i + card (?K3 i)"
        using p e2 [OF i] cnt [OF i] QS [OF i] by simp
      have "az_val s3 ! p = contrib (?T3 i) (az_col s3 ! p)" using v3 i lo hi by blast
      moreover have "az_col s3 ! p \<in> ?K3 i"
        using row_filled_nth [OF f3 [rule_format, OF i] lo hi] .
      then have "az_col s3 ! p \<notin> fst ` set (?T2 i)" using dj k2 by blast
      then have "contrib (?T2 i) (az_col s3 ! p) = 0" by (rule contrib_notin)
      ultimately show ?thesis using az upd by simp
    qed
  qed
  show "length ?Q = ?N + 1" using lQ .
  show "?Q ! 0 = 0" using Q0 .
  show "sorted ?Q" using sQ .
  show "ptr (r_az res) = ?Q"
    using fix_ptr_shift [OF lp3 lQ Q0] e3 az by simp
  show "\<forall>i<length A. ?Q ! i \<le> r_ptr_loc res ! i \<and> r_ptr_loc res ! i \<le> r_ptr_rem res ! i
           \<and> r_ptr_rem res ! i = ?Q ! (i + 1)"
  proof (intro allI impI)
    fix i assume i: "i < length A"
    have "?Q ! i \<le> r_ptr_loc res ! i" using pl e2 [OF i] by simp
    moreover have "r_ptr_loc res ! i \<le> r_ptr_rem res ! i"
      using pl pr e2 [OF i] e3 [OF i] cnt [OF i] QS [OF i] by simp
    moreover have "r_ptr_rem res ! i = ?Q ! (i + 1)" using pr e3 [OF i] by simp
    ultimately show "?Q ! i \<le> r_ptr_loc res ! i \<and> r_ptr_loc res ! i \<le> r_ptr_rem res ! i
           \<and> r_ptr_rem res ! i = ?Q ! (i + 1)" by blast
  qed
  show "\<forall>i<length A. row_filled (col (r_az res)) (?Q ! i) (?Q ! (i + 1))
           (\<Union>d \<in> row_owners ?D (A ! i). dv_block ?ds ?dv (nat d))"
  proof (intro allI impI)
    fix i assume i: "i < length A"
    have keep: "az_col s3 ! p = az_col s2 ! p" if p: "?Q ! i \<le> p" "p < az_ptr s2 ! i" for p
    proof -
      have "\<not> (az_ptr s2 ! j \<le> p \<and> p < az_ptr s2 ! j + card (?K3 j))" if j: "j < ?N" for j
      proof -
        consider "j < i" | "j = i" | "i < j" by linarith
        then show ?thesis
        proof cases
          case 1
          have "az_ptr s2 ! j + card (?K3 j) \<le> ?Q ! (j + 1)" using room3 j by simp
          also have "\<dots> \<le> ?Q ! i" using mono [of "j + 1" i] 1 i by simp
          finally show ?thesis using p(1) by simp
        next
          case 2
          then show ?thesis using p(2) by simp
        next
          case 3
          have "az_ptr s2 ! i \<le> ?Q ! (i + 1)" using room3 i by fastforce
          also have "\<dots> \<le> ?Q ! j" using mono [of "i + 1" j] 3 j by simp
          also have "\<dots> \<le> az_ptr s2 ! j" using room3 j by simp
          finally show ?thesis using p(2) by simp
        qed
      qed
      then show ?thesis using un by blast
    qed
    have r2: "row_filled (az_col s3) (?Q ! i) (az_ptr s2 ! i) (?K2 i)"
      using row_filled_cong [OF f2 [rule_format, OF i, folded e2 [OF i]] lc3] keep by blast
    have r3: "row_filled (az_col s3) (az_ptr s2 ! i) (?Q ! (i + 1)) (?K3 i)"
      using f3 [rule_format, OF i] e3 [OF i] p3 i by simp
    have "row_filled (az_col s3) (?Q ! i) (?Q ! (i + 1)) (?K2 i \<union> ?K3 i)"
      using row_filled_append [OF r2 r3] cnt [OF i] by blast
    then show "row_filled (col (r_az res)) (?Q ! i) (?Q ! (i + 1))
           (\<Union>d \<in> row_owners ?D (A ! i). dv_block ?ds ?dv (nat d))"
      using cnt [OF i] az by simp
  qed
qed



subsection \<open>The call operator\<close>

text \<open>
  C1, as amended.  The call operator of subdomain\_deflation.hpp hands the driver the object
  itself as the operator and the local AMG hierarchy \<open>*P\<close> as the preconditioner; the one of
  deflation.hpp hands over the object itself twice, and the \<open>apply\<close> of that object forwards
  to \<open>P->apply\<close>.  Both then run \<open>postprocess(rhs, x)\<close> on the approximation the driver left
  and return the tuple the driver returned.
\<close>

theorem call_operator_spec:
  "call_operator solve postprocess rhs x
     = (fst (solve This AMG_P rhs x), postprocess rhs (snd (solve This AMG_P rhs x)))
   \<and> call_operator_deflation solve postprocess rhs x
     = (fst (solve This This rhs x), postprocess rhs (snd (solve This This rhs x)))
   \<and> apply_deflation P_apply rhs x = P_apply rhs x"
  by (simp add: call_operator_def call_operator_deflation_def apply_deflation_def split: prod.splits)

text \<open>
  C1 as stated fails for subdomain\_deflation.hpp: a driver that tells the preconditioner it
  was given returns another tuple than it would with the object itself in that place.
\<close>

theorem call_operator_counterexample:
  "fst (call_operator sample_driver sample_postprocess [] [])
     \<noteq> fst (sample_driver This This [] [])"
  by (simp add: call_operator_def sample_driver_def)

subsection \<open>The distributed matrix-vector product\<close>

lemma mapE_known:
  assumes "\<forall>x \<in> set xs. f x = Inr (g x)"
  shows "mapE f xs = Inr (map g xs)"
  using assms by (induction xs) auto

lemma spmv_known_rows:
  assumes rows: "\<forall>i<nrows M. row_entries (ptr M) (col M) (val M) i = Inr (R i)"
    and cols: "\<forall>i<nrows M. \<forall>a \<in> set (R i). fst a < length x"
    and y: "nrows M \<le> length y"
  shows "spmv alpha M x beta y
       = Inr (map (\<lambda>i. alpha * sum_list (map (\<lambda>a. snd a * x ! fst a) (R i)) + beta * y ! i)
                [0..<nrows M])"
proof -
  have "\<forall>i \<in> set [0..<nrows M]. spmv_row alpha M x beta y i
          = Inr (alpha * sum_list (map (\<lambda>a. snd a * x ! fst a) (R i)) + beta * y ! i)"
    using rows cols y by (auto simp: spmv_row_def)
  then show ?thesis unfolding spmv_def by (rule mapE_known)
qed

lemma domain_width:
  assumes "r < length xs"
  shows "partial_sum (0 # map int xs) ! (r + 1) = partial_sum (0 # map int xs) ! r + int (xs ! r)"
proof -
  have "take (Suc r) (map int xs) = take r (map int xs) @ [int (xs ! r)]"
    using assms by (simp add: take_Suc_conv_app_nth)
  then show ?thesis using assms by (simp add: partial_sum_nth)
qed

lemma sum_list_filter_split:
  fixes f :: "'a \<Rightarrow> real"
  shows "sum_list (map f (filter Q xs)) + sum_list (map f (filter (\<lambda>a. \<not> Q a) xs)) = sum_list (map f xs)"
  by (induction xs) auto

text \<open>
  C2.  \<open>mul\<close> first runs the local product, which leaves \<open>\<alpha> A_loc x + \<beta> y\<close> in \<open>y\<close>; then, only
  if \<open>recv.val\<close> is not empty, it adds \<open>\<alpha> A_rem\<close> times the received ghost values.  If the local
  \<open>x\<close> is the part of a global vector \<open>xg\<close> that the rank owns and the ghost values are the
  entries of \<open>xg\<close> at the referenced remote columns, then the result is, row by row,
  \<open>\<alpha>\<close> times the product of the row of the strip with \<open>xg\<close> plus \<open>\<beta> y\<close>.
\<close>

theorem mul_spec:
  assumes run: "subdomain_deflation_setup P rank nrows_all ndv_all nra zp A ndv dvf = Inr res"
    and rank: "rank < P" and len: "length nrows_all = P"
    and x: "length x = length A" "\<forall>j<length A. x ! j = xg (r_domain res ! rank + int j)"
    and gh: "length recv_val = length (r_recv_cols res)"
            "\<forall>g<length recv_val. recv_val ! g = xg (r_recv_cols res ! g)"
    and y: "length y = length A"
  shows "\<exists>y1 y2.
      spmv alpha (r_aloc res) x beta y = Inr y1
    \<and> length y1 = length A
    \<and> (\<forall>i<length A. \<exists>row. row_entries (ptr (r_aloc res)) (col (r_aloc res)) (val (r_aloc res)) i = Inr row
          \<and> y1 ! i = alpha * sum_list (map (\<lambda>a. snd a * x ! fst a) row) + beta * y ! i)
    \<and> mul (r_aloc res) (r_arem res) recv_val alpha x beta y
        = (if recv_val \<noteq> [] then spmv alpha (r_arem res) recv_val 1 y1 else Inr y1)
    \<and> mul (r_aloc res) (r_arem res) recv_val alpha x beta y = Inr y2
    \<and> length y2 = length A
    \<and> (recv_val \<noteq> [] \<longrightarrow>
         (\<forall>i<length A. \<exists>row. row_entries (ptr (r_arem res)) (col (r_arem res)) (val (r_arem res)) i = Inr row
            \<and> y2 ! i = alpha * sum_list (map (\<lambda>a. snd a * recv_val ! fst a) row) + y1 ! i))
    \<and> (\<forall>i<length A. y2 ! i = alpha * sum_list (map (\<lambda>a. snd a * xg (fst a)) (A ! i)) + beta * y ! i)"
proof -
  let ?D = "r_domain res"
  let ?N = "length A"
  from setup_stages [OF run] obtain s1 :: first_pass_state and rn :: renumber_state and s2 where
    D: "?D = partial_sum (0 # map int (all_gather rank (length A) nrows_all))"
    and sp: "second_pass ?D (r_dv_start res) ndv (last (r_dv_start res)) rank dvf (rn_rc rn)
         (ptr1 s1) A = Inr s2"
    and rc: "r_rc res = rn_rc rn"
    and al: "r_aloc res = \<lparr>nrows = length A, ncols = length A, ptr = aloc_ptr s2,
                      col = aloc_col s2, val = aloc_val s2\<rparr>"
    and ar: "r_arem res = \<lparr>nrows = length A, ncols = length (rn_rc rn), ptr = arem_ptr s2,
                      col = arem_col s2, val = arem_val s2\<rparr>"
    by blast
  note G = recv_cols_numbering [OF run]
  have sD: "sorted ?D" unfolding D by (rule sorted_domain)
  have lD: "rank + 1 < length ?D" unfolding D using rank len by (simp add: all_gather_def)
  have loc: "is_local ?D rank c \<longleftrightarrow> owner ?D c = int rank" for c
    using is_local_owner [OF sD lD] .
  have width: "?D ! (rank + 1) = ?D ! rank + int ?N"
    unfolding D using domain_width [of rank "all_gather rank (length A) nrows_all"] rank len
    by (simp add: all_gather_def)
  let ?L = "\<lambda>i. aloc_row ?D rank (A ! i)"
  let ?R = "\<lambda>i. arem_row ?D rank (r_rc res) (A ! i)"
  have bl: "built_from (ptr (r_aloc res)) (col (r_aloc res)) (val (r_aloc res)) (map (aloc_row ?D rank) A)"
    using second_pass_matrices(1) [OF sp] al by simp
  have br: "built_from (ptr (r_arem res)) (col (r_arem res)) (val (r_arem res))
              (map (arem_row ?D rank (r_rc res)) A)"
    using second_pass_matrices(2) [OF sp] ar rc by simp
  have rl: "\<forall>i<nrows (r_aloc res). row_entries (ptr (r_aloc res)) (col (r_aloc res)) (val (r_aloc res)) i
              = Inr (?L i)"
    using built_from_row(1) [OF bl] al by simp
  have rr: "\<forall>i<nrows (r_arem res). row_entries (ptr (r_arem res)) (col (r_arem res)) (val (r_arem res)) i
              = Inr (?R i)"
    using built_from_row(1) [OF br] ar by simp
  have nl: "nrows (r_aloc res) = ?N" and nr: "nrows (r_arem res) = ?N" using al ar by simp_all
  text \<open>Local columns index the local part of \<open>xg\<close>.\<close>
  have lcol: "nat (c - ?D ! rank) < length x \<and> x ! nat (c - ?D ! rank) = xg c"
    if "is_local ?D rank c" for c
  proof -
    have b: "?D ! rank \<le> c" "c < ?D ! rank + int ?N"
      using that width by (simp_all add: is_local_def)
    then have "nat (c - ?D ! rank) < ?N" by linarith
    moreover have "?D ! rank + int (nat (c - ?D ! rank)) = c" using b by simp
    ultimately show ?thesis using x by metis
  qed
  have cl: "\<forall>i<nrows (r_aloc res). \<forall>a \<in> set (?L i). fst a < length x"
    using lcol by (auto simp: aloc_row_def)
  have suml: "sum_list (map (\<lambda>a. snd a * x ! fst a) (?L i))
            = sum_list (map (\<lambda>a. snd a * xg (fst a)) (filter (\<lambda>a. is_local ?D rank (fst a)) (A ! i)))"
    for i
  proof -
    have "map (\<lambda>a. snd a * x ! fst a) (?L i)
        = map (\<lambda>a. snd a * x ! nat (fst a - ?D ! rank)) (filter (\<lambda>a. is_local ?D rank (fst a)) (A ! i))"
      by (simp add: aloc_row_def comp_def)
    also have "\<dots> = map (\<lambda>a. snd a * xg (fst a)) (filter (\<lambda>a. is_local ?D rank (fst a)) (A ! i))"
      using lcol by (intro map_cong) auto
    finally show ?thesis by simp
  qed
  text \<open>Remote columns index the ghost values.\<close>
  have rcol: "rc_lookup (r_rc res) c < length recv_val \<and> recv_val ! rc_lookup (r_rc res) c = xg c"
    if "a \<in> set (A ! i)" "fst a = c" "i < ?N" "\<not> is_local ?D rank c" for a c i
  proof -
    have "c \<in> set (r_recv_cols res)" using G that loc by force
    then have "rc_lookup (r_rc res) c < length (r_recv_cols res)"
      "r_recv_cols res ! rc_lookup (r_rc res) c = c" using G by blast+
    then show ?thesis using gh by metis
  qed
  have cr: "\<forall>i<nrows (r_arem res). \<forall>a \<in> set (?R i). fst a < length recv_val"
    using rcol nr by (auto simp: arem_row_def)
  have sumr: "sum_list (map (\<lambda>a. snd a * recv_val ! fst a) (?R i))
            = sum_list (map (\<lambda>a. snd a * xg (fst a)) (filter (\<lambda>a. \<not> is_local ?D rank (fst a)) (A ! i)))"
    if "i < ?N" for i
  proof -
    have "map (\<lambda>a. snd a * recv_val ! fst a) (?R i)
        = map (\<lambda>a. snd a * recv_val ! rc_lookup (r_rc res) (fst a))
            (filter (\<lambda>a. \<not> is_local ?D rank (fst a)) (A ! i))"
      by (simp add: arem_row_def comp_def)
    also have "\<dots> = map (\<lambda>a. snd a * xg (fst a)) (filter (\<lambda>a. \<not> is_local ?D rank (fst a)) (A ! i))"
      using rcol that by (intro map_cong) auto
    finally show ?thesis by simp
  qed
  define y1 where "y1 = map (\<lambda>i. alpha * sum_list (map (\<lambda>a. snd a * x ! fst a) (?L i)) + beta * y ! i) [0..<?N]"
  have s1: "spmv alpha (r_aloc res) x beta y = Inr y1"
    using spmv_known_rows [OF rl cl, of y alpha beta] y nl by (simp add: y1_def)
  have ly1: "length y1 = ?N" by (simp add: y1_def)
  have y1i: "y1 ! i = alpha * sum_list (map (\<lambda>a. snd a * x ! fst a) (?L i)) + beta * y ! i"
    if "i < ?N" for i using that by (simp add: y1_def)
  define y2 where "y2 = (if recv_val \<noteq> []
      then map (\<lambda>i. alpha * sum_list (map (\<lambda>a. snd a * recv_val ! fst a) (?R i)) + 1 * y1 ! i) [0..<?N]
      else y1)"
  have s2: "recv_val \<noteq> [] \<Longrightarrow> spmv alpha (r_arem res) recv_val 1 y1 = Inr y2"
    using spmv_known_rows [OF rr cr, of y1 alpha 1] ly1 nr by (simp add: y2_def)
  have m: "mul (r_aloc res) (r_arem res) recv_val alpha x beta y
        = (if recv_val \<noteq> [] then spmv alpha (r_arem res) recv_val 1 y1 else Inr y1)"
    by (simp add: mul_def s1)
  have m2: "mul (r_aloc res) (r_arem res) recv_val alpha x beta y = Inr y2"
    using m s2 by (simp add: y2_def)
  have ly2: "length y2 = ?N" using ly1 by (simp add: y2_def)
  have norem: "filter (\<lambda>a. \<not> is_local ?D rank (fst a)) (A ! i) = []" if "recv_val = []" "i < ?N" for i
  proof -
    have "set (r_recv_cols res) = {}" using that(1) gh by simp
    then have "\<forall>a \<in> set (A ! i). owner ?D (fst a) = int rank" using G that(2) by force
    then show ?thesis using loc by (simp add: filter_empty_conv)
  qed
  have fin: "y2 ! i = alpha * sum_list (map (\<lambda>a. snd a * xg (fst a)) (A ! i)) + beta * y ! i"
    if i: "i < ?N" for i
  proof -
    let ?f = "\<lambda>a. snd a * xg (fst a)"
    let ?Sl = "sum_list (map ?f (filter (\<lambda>a. is_local ?D rank (fst a)) (A ! i)))"
    let ?Sr = "sum_list (map ?f (filter (\<lambda>a. \<not> is_local ?D rank (fst a)) (A ! i)))"
    have tot: "?Sl + ?Sr = sum_list (map ?f (A ! i))" by (rule sum_list_filter_split)
    have a: "y1 ! i = alpha * ?Sl + beta * y ! i" using y1i [OF i] suml by simp
    show ?thesis
    proof (cases "recv_val = []")
      case True
      then have "?Sr = 0" using norem [OF True i] by simp
      then show ?thesis using a tot True by (simp add: y2_def)
    next
      case False
      then have "y2 ! i = alpha * ?Sr + y1 ! i" using i sumr [OF i] by (simp add: y2_def)
      then have "y2 ! i = alpha * (?Sl + ?Sr) + beta * y ! i" using a by (simp add: algebra_simps)
      then show ?thesis using tot by simp
    qed
  qed
  have p3: "\<forall>i<?N. \<exists>row. row_entries (ptr (r_aloc res)) (col (r_aloc res)) (val (r_aloc res)) i = Inr row
          \<and> y1 ! i = alpha * sum_list (map (\<lambda>a. snd a * x ! fst a) row) + beta * y ! i"
  proof (intro allI impI)
    fix i assume i: "i < ?N"
    have "row_entries (ptr (r_aloc res)) (col (r_aloc res)) (val (r_aloc res)) i = Inr (?L i)"
      using rl nl i by simp
    then show "\<exists>row. row_entries (ptr (r_aloc res)) (col (r_aloc res)) (val (r_aloc res)) i = Inr row
          \<and> y1 ! i = alpha * sum_list (map (\<lambda>a. snd a * x ! fst a) row) + beta * y ! i"
      using y1i [OF i] by blast
  qed
  have p7: "recv_val \<noteq> [] \<longrightarrow>
         (\<forall>i<?N. \<exists>row. row_entries (ptr (r_arem res)) (col (r_arem res)) (val (r_arem res)) i = Inr row
            \<and> y2 ! i = alpha * sum_list (map (\<lambda>a. snd a * recv_val ! fst a) row) + y1 ! i)"
  proof (intro impI allI)
    fix i assume ne: "recv_val \<noteq> []" and i: "i < ?N"
    have "y2 ! i = alpha * sum_list (map (\<lambda>a. snd a * recv_val ! fst a) (?R i)) + y1 ! i"
      using ne i by (simp add: y2_def)
    moreover have "row_entries (ptr (r_arem res)) (col (r_arem res)) (val (r_arem res)) i = Inr (?R i)"
      using rr nr i by simp
    ultimately show "\<exists>row. row_entries (ptr (r_arem res)) (col (r_arem res)) (val (r_arem res)) i = Inr row
            \<and> y2 ! i = alpha * sum_list (map (\<lambda>a. snd a * recv_val ! fst a) row) + y1 ! i"
      by blast
  qed
  show ?thesis
    using s1 ly1 p3 m m2 ly2 p7 fin by blast
qed

subsection \<open>The values of the rows of E\<close>

lemma e_put_seq_val:
  assumes "foldE (e_put erow i) cs s = Inr s'" and "row_head s \<le> length (eval s)"
  shows "length (eval s') = length (eval s)
       \<and> eval s' = take (row_head s) (eval s) @ map (\<lambda>c. erow ! i ! c) cs
                     @ drop (row_head s + length cs) (eval s)"
  using assms
proof (induction cs arbitrary: s)
  case Nil
  then show ?case by simp
next
  case (Cons c cs)
  from Cons.prems obtain t where t: "e_put erow i c s = Inr t" "foldE (e_put erow i) cs t = Inr s'"
    by (auto split: sum.splits)
  from t(1) have h: "row_head s < length (eval s)"
    and t_def: "row_head t = row_head s + 1" "eval t = (eval s)[row_head s := erow ! i ! c]"
    by (auto simp: e_put_def split: if_splits)
  have "row_head t \<le> length (eval t)" using h t_def by simp
  note IH = Cons.IH [OF t(2) this]
  have a: "take (row_head t) (eval t) = take (row_head s) (eval s) @ [erow ! i ! c]"
    using h t_def by (simp add: take_Suc_conv_app_nth)
  have b: "drop (row_head t + length cs) (eval t) = drop (row_head s + length (c # cs)) (eval s)"
    using t_def by simp
  from IH have i2: "length (eval s') = length (eval t)"
    and i4: "eval s' = take (row_head t) (eval t) @ map (\<lambda>c. erow ! i ! c) cs
                       @ drop (row_head t + length cs) (eval t)"
    by blast+
  have 2: "length (eval s') = length (eval s)" using i2 t_def by simp
  have "eval s' = (take (row_head s) (eval s) @ [erow ! i ! c]) @ map (\<lambda>c. erow ! i ! c) cs
                   @ drop (row_head s + length (c # cs)) (eval s)"
    using i4 a b by simp
  then have 4: "eval s' = take (row_head s) (eval s) @ map (\<lambda>c. erow ! i ! c) (c # cs)
                   @ drop (row_head s + length (c # cs)) (eval s)"
    by simp
  show ?case using 2 4 by blast
qed

lemma e_put_seq_head:
  assumes "foldE (e_put erow i) cs s = Inr s'"
  shows "row_head s' = row_head s + length cs"
  using assms
proof (induction cs arbitrary: s)
  case Nil
  then show ?case by simp
next
  case (Cons c cs)
  from Cons.prems obtain t where t: "e_put erow i c s = Inr t" "foldE (e_put erow i) cs t = Inr s'"
    by (auto split: sum.splits)
  from t(1) have "row_head t = row_head s + 1" by (auto simp: e_put_def split: if_splits)
  then show ?case using Cons.IH [OF t(2)] by simp
qed

lemma e_row_writes_val:
  assumes "foldE (e_block cm dv_size dv_start erow rank i) [0..<n] s = Inr s'"
    and "row_head s \<le> length (eval s)"
  shows "row_head s' = row_head s + length (e_cols_of cm dv_size dv_start rank n)
       \<and> length (eval s') = length (eval s)
       \<and> row_head s' \<le> length (eval s)
       \<and> eval s' = take (row_head s) (eval s)
                     @ map (\<lambda>c. erow ! i ! c) (e_cols_of cm dv_size dv_start rank n)
                     @ drop (row_head s') (eval s)"
  using assms
proof (induction n arbitrary: s')
  case 0
  then show ?case by (simp add: e_cols_of_def)
next
  case (Suc n)
  from Suc.prems obtain t where t: "foldE (e_block cm dv_size dv_start erow rank i) [0..<n] s = Inr t"
    "e_block cm dv_size dv_start erow rank i n t = Inr s'"
    by (auto simp: foldE_snoc_Inr)
  note IH = Suc.IH [OF t(1) Suc.prems(2)]
  show ?case
  proof (cases "e_adjacent cm rank n")
    case False
    then have "s' = t" using t(2) by (auto simp: e_block_def split: if_splits)
    then show ?thesis using IH False by (simp add: e_cols_of_Suc)
  next
    case True
    let ?cs = "map (\<lambda>k. dv_start ! n + k) [0..<dv_size ! n]"
    let ?old = "e_cols_of cm dv_size dv_start rank n"
    from t(2) True have run: "foldE (e_put erow i) ?cs t = Inr s'"
      by (auto simp: e_block_def foldE_map split: if_splits)
    have ht: "row_head t \<le> length (eval t)" using IH by simp
    note W = e_put_seq_val [OF run ht]
    note H = e_put_seq_head [OF run]
    have fit: "row_head t + length ?cs \<le> length (eval t)"
    proof -
      have "\<And>c cs u u'. foldE (e_put erow i) cs u = Inr u' \<Longrightarrow> row_head u \<le> length (eval u)
              \<Longrightarrow> row_head u + length cs \<le> length (eval u)"
      proof -
        fix c cs u u'
        show "foldE (e_put erow i) cs u = Inr u' \<Longrightarrow> row_head u \<le> length (eval u)
              \<Longrightarrow> row_head u + length cs \<le> length (eval u)"
        proof (induction cs arbitrary: u)
          case Nil
          then show ?case by simp
        next
          case (Cons c cs)
          from Cons.prems(1) obtain v where v: "e_put erow i c u = Inr v"
            "foldE (e_put erow i) cs v = Inr u'" by (auto split: sum.splits)
          from v(1) have "row_head u < length (eval u)" "row_head v = row_head u + 1"
            "length (eval v) = length (eval u)" by (auto simp: e_put_def split: if_splits)
          then show ?case using Cons.IH [OF v(2)] by simp
        qed
      qed
      from this [OF run ht] show ?thesis .
    qed
    have a: "take (row_head t) (eval t)
           = take (row_head s) (eval s) @ map (\<lambda>c. erow ! i ! c) ?old"
      using IH by simp
    have b: "drop (row_head t + length ?cs) (eval t) = drop (row_head t + length ?cs) (eval s)"
    proof -
      let ?pre = "take (row_head s) (eval s) @ map (\<lambda>c. erow ! i ! c) ?old"
      have len: "length ?pre = row_head t" using IH by simp
      have "drop (row_head t + length ?cs) (eval t)
              = drop (row_head t + length ?cs) (?pre @ drop (row_head t) (eval s))"
        using IH by simp
      also have "\<dots> = drop (length ?cs) (drop (row_head t) (eval s))"
        using len by (rule drop_add_append)
      finally show ?thesis by (simp add: add.commute)
    qed
    have 1: "row_head s' = row_head s + length (e_cols_of cm dv_size dv_start rank (Suc n))"
      using H IH True by (simp add: e_cols_of_Suc)
    from W have "length (eval s') = length (eval t)" by blast
    moreover from IH have "length (eval t) = length (eval s)" by blast
    ultimately have 2: "length (eval s') = length (eval s)" by simp
    have 3: "row_head s' \<le> length (eval s)" using H fit IH by simp
    have "eval s' = (take (row_head s) (eval s) @ map (\<lambda>c. erow ! i ! c) ?old)
                     @ map (\<lambda>c. erow ! i ! c) ?cs @ drop (row_head s') (eval s)"
      using W a b H by simp
    then have 4: "eval s' = take (row_head s) (eval s)
                     @ map (\<lambda>c. erow ! i ! c) (e_cols_of cm dv_size dv_start rank (Suc n))
                     @ drop (row_head s') (eval s)"
      using True by (simp add: e_cols_of_Suc)
    show ?thesis using 1 2 3 4 by blast
  qed
qed

lemma e_rows_prefix_val:
  assumes "foldE (e_row cm dv_size dv_start erow P rank (partial_sum (0 # replicate ndv L))) [0..<m] s
             = Inr s'"
    and "L = length (e_cols_of cm dv_size dv_start rank P)"
    and "length (eval s) = ndv * L" and "m \<le> ndv"
  shows "length (eval s') = ndv * L
       \<and> take (m * L) (eval s')
           = concat (map (\<lambda>j. map (\<lambda>c. erow ! j ! c) (e_cols_of cm dv_size dv_start rank P)) [0..<m])"
  using assms(1,4)
proof (induction m arbitrary: s')
  case 0
  then show ?case using assms(3) by simp
next
  case (Suc m)
  let ?eptr = "partial_sum (0 # replicate ndv L)"
  let ?cols = "e_cols_of cm dv_size dv_start rank P"
  let ?vals = "\<lambda>j. map (\<lambda>c. erow ! j ! c) ?cols"
  from Suc.prems(1) obtain t where t: "foldE (e_row cm dv_size dv_start erow P rank ?eptr) [0..<m] s = Inr t"
    "e_row cm dv_size dv_start erow P rank ?eptr m t = Inr s'"
    by (auto simp: foldE_snoc_Inr)
  from Suc.IH [OF t(1)] Suc.prems(2)
  have len_t: "length (eval t) = ndv * L"
    and pre_t: "take (m * L) (eval t) = concat (map ?vals [0..<m])" by simp_all
  have head: "?eptr ! m = m * L" using Suc.prems(2) by (simp add: eptr_nth)
  have mL: "m * L \<le> ndv * L" using Suc.prems(2) by simp
  then have bound: "row_head (t\<lparr>row_head := m * L\<rparr>) \<le> length (eval (t\<lparr>row_head := m * L\<rparr>))"
    using len_t by simp
  have run: "foldE (e_block cm dv_size dv_start erow rank m) [0..<P] (t\<lparr>row_head := m * L\<rparr>) = Inr s'"
    using t(2) head by (auto simp: e_row_def split: if_splits)
  from e_row_writes_val [OF run bound]
  have w1: "length (eval s') = length (eval t)"
    and w2: "eval s' = take (m * L) (eval t) @ ?vals m @ drop (row_head s') (eval t)"
    by simp_all
  have "take (Suc m * L) (eval s')
      = take (m * L + L) ((take (m * L) (eval t) @ ?vals m) @ drop (row_head s') (eval t))"
    using w2 by (simp add: add.commute)
  also have "\<dots> = take (m * L) (eval t) @ ?vals m"
  proof -
    have "length (take (m * L) (eval t) @ ?vals m) = m * L + L"
      using len_t mL assms(2) by simp
    then show ?thesis by (metis append_eq_conv_conj)
  qed
  also have "\<dots> = concat (map ?vals [0..<Suc m])" using pre_t by simp
  finally show ?case using w1 len_t by simp
qed

lemma take_drop_concat_rows:
  assumes "i < n" and "\<forall>j<n. length (f j) = L"
  shows "take L (drop (i * L) (concat (map f [0..<n]))) = f i"
proof -
  have len: "length (concat (map f [0..<k])) = k * L" if "k \<le> n" for k
    using that assms(2) by (induction k) auto
  have "i \<le> n" using assms(1) by simp
  then have "[0..<n] = [0..<i] @ [i..<n]" using upt_add_eq_append [of 0 i "n - i"] by simp
  moreover have "[i..<n] = i # [Suc i..<n]" using assms(1) by (rule upt_conv_Cons)
  ultimately have "[0..<n] = [0..<i] @ i # [Suc i..<n]" by simp
  then have "map f [0..<n] = map f [0..<i] @ f i # map f [Suc i..<n]"
    by (metis list.simps(9) map_append)
  then have "concat (map f [0..<n]) = concat (map f [0..<i]) @ f i @ concat (map f [Suc i..<n])"
    by simp
  moreover have "length (concat (map f [0..<i])) = i * L" using len [of i] assms(1) by simp
  moreover have "length (f i) = L" using assms by simp
  ultimately show ?thesis by simp
qed

lemma assemble_e_row_entries:
  assumes "assemble_e cm dv_size dv_start erow ndv P rank = Inr E"
  shows "e_rows E = map (\<lambda>i. map (\<lambda>c. (c, erow ! i ! c)) (e_cols_of cm dv_size dv_start rank P)) [0..<ndv]"
proof -
  let ?cols = "e_cols_of cm dv_size dv_start rank P"
  let ?L = "length ?cols"
  let ?vals = "\<lambda>j. map (\<lambda>c. erow ! j ! c) ?cols"
  from assms(1) obtain counts s where
    c: "count_eptr cm dv_size ndv P rank = Inr counts"
    and f: "foldE (e_row cm dv_size dv_start erow P rank (partial_sum counts)) [0..<ndv]
              \<lparr>ecol = replicate (last (partial_sum counts)) 0,
               eval = replicate (last (partial_sum counts)) 0, row_head = 0\<rparr> = Inr s"
    and E: "E = \<lparr>e_ptr = partial_sum counts, e_col = ecol s, e_val = eval s\<rparr>"
    by (auto simp: assemble_e_def Let_def split: sum.splits)
  have counts: "counts = 0 # replicate ndv ?L"
    using c count_eptr_prefix by (simp add: count_eptr_def)
  have "length (eval s) = ndv * ?L \<and> take (ndv * ?L) (eval s) = concat (map ?vals [0..<ndv])"
    using e_rows_prefix_val [where L = ?L and m = ndv and ndv = ndv, OF f [unfolded counts]]
    by (simp add: eptr_last)
  then have ev: "eval s = concat (map ?vals [0..<ndv])"
    by (metis order_refl take_all)
  have lp: "length (e_ptr E) - 1 = ndv" by (simp add: E counts)
  show ?thesis
    unfolding e_rows_def lp
  proof (rule map_cong [OF refl])
    fix i assume "i \<in> set [0..<ndv]"
    then have i: "i < ndv" by simp
    have p1: "e_ptr E ! i = i * ?L" using i by (simp add: E counts eptr_nth)
    have p2: "e_ptr E ! (i + 1) = (i + 1) * ?L" using i by (simp add: E counts eptr_nth)
    have cols: "take (e_ptr E ! (i + 1) - e_ptr E ! i) (drop (e_ptr E ! i) (e_col E)) = ?cols"
      using assemble_e_rows [OF assms i] by (simp add: e_row_cols_def)
    have "take ?L (drop (i * ?L) (concat (map ?vals [0..<ndv]))) = ?vals i"
      by (rule take_drop_concat_rows [OF i]) simp
    then have vals: "take (e_ptr E ! (i + 1) - e_ptr E ! i) (drop (e_ptr E ! i) (e_val E)) = ?vals i"
      unfolding p1 p2 using ev E by simp
    show "zip (take (e_ptr E ! (i + 1) - e_ptr E ! i) (drop (e_ptr E ! i) (e_col E)))
              (take (e_ptr E ! (i + 1) - e_ptr E ! i) (drop (e_ptr E ! i) (e_val E)))
        = map (\<lambda>c. (c, erow ! i ! c)) ?cols"
      unfolding cols vals by (simp add: zip_map2 zip_same_conv_map)
  qed
qed

subsection \<open>The dense rows of E\<close>

lemma erow_entry_val:
  assumes run: "erow_entry ndv dvf i a er = Inr er'"
    and shape: "length er = ndv" "\<forall>j<ndv. length (er ! j) = nz"
  shows "length er' = ndv \<and> (\<forall>j<ndv. length (er' ! j) = nz)
       \<and> (\<forall>j<ndv. \<forall>c<nz. er' ! j ! c = er ! j ! c + (if fst a = c then snd a * dvf i j else 0))"
proof -
  let ?f = "\<lambda>j er. if j < length er \<and> fst a < length (er ! j)
                    then Inr (er[j := (er ! j)[fst a := er ! j ! fst a + snd a * dvf i j]])
                    else Inl OutOfBounds"
  let ?I = "\<lambda>m t. length t = ndv \<and> (\<forall>j<ndv. length (t ! j) = nz)
       \<and> (\<forall>j<ndv. \<forall>c<nz. t ! j ! c
              = er ! j ! c + (if j < m \<and> fst a = c then snd a * dvf i j else 0))"
  have run': "foldE ?f [0..<ndv] er = Inr er'" using run unfolding erow_entry_def .
  have "?I ndv er'"
  proof (rule foldE_upt_invariant [OF run', where I = ?I])
    show "?I 0 er" using shape by simp
  next
    fix m t t' assume m: "m < ndv" and I: "?I m t" and st: "?f m t = Inr t'"
    from st have t': "t' = t[m := (t ! m)[fst a := t ! m ! fst a + snd a * dvf i m]]"
      and g: "fst a < length (t ! m)" by (auto split: if_splits)
    from I have lt: "length t = ndv" and ls: "\<forall>j<ndv. length (t ! j) = nz"
      and v: "\<forall>j<ndv. \<forall>c<nz. t ! j ! c
              = er ! j ! c + (if j < m \<and> fst a = c then snd a * dvf i j else 0)" by blast+
    have 1: "length t' = ndv" using t' lt by simp
    have 2: "\<forall>j<ndv. length (t' ! j) = nz"
    proof (intro allI impI)
      fix j assume "j < ndv"
      then show "length (t' ! j) = nz" using t' lt ls by (cases "j = m") simp_all
    qed
    have 3: "\<forall>j<ndv. \<forall>c<nz. t' ! j ! c
              = er ! j ! c + (if j < Suc m \<and> fst a = c then snd a * dvf i j else 0)"
    proof (intro allI impI)
      fix j c assume j: "j < ndv" and c: "c < nz"
      show "t' ! j ! c = er ! j ! c + (if j < Suc m \<and> fst a = c then snd a * dvf i j else 0)"
      proof (cases "j = m")
        case True
        have "t' ! m = (t ! m)[fst a := t ! m ! fst a + snd a * dvf i m]"
          using t' lt m by simp
        moreover have "t ! m ! c = er ! m ! c" using v m c by simp
        moreover have "t ! m ! fst a = er ! m ! fst a" using v m g ls by simp
        ultimately show ?thesis using True g by (cases "fst a = c") simp_all
      next
        case False
        then have "t' ! j = t ! j" using t' by simp
        then show ?thesis using v j c False by (simp add: less_Suc_eq)
      qed
    qed
    show "?I (Suc m) t'" using 1 2 3 by blast
  qed
  then show ?thesis by simp
qed

lemma erow_row_val:
  assumes run: "foldE (erow_entry ndv dvf i) row er = Inr er'"
    and shape: "length er = ndv" "\<forall>j<ndv. length (er ! j) = nz"
  shows "length er' = ndv \<and> (\<forall>j<ndv. length (er' ! j) = nz)
       \<and> (\<forall>j<ndv. \<forall>c<nz. er' ! j ! c
              = er ! j ! c + sum_list (map (\<lambda>a. if fst a = c then snd a * dvf i j else 0) row))"
  using run
proof (induction row arbitrary: er' rule: rev_induct)
  case Nil
  then show ?case using shape by simp
next
  case (snoc a row)
  then obtain t where t: "foldE (erow_entry ndv dvf i) row er = Inr t"
    and st: "erow_entry ndv dvf i a t = Inr er'" by (auto simp: foldE_snoc_Inr)
  from snoc.IH [OF t] have lt: "length t = ndv" and ls: "\<forall>j<ndv. length (t ! j) = nz"
    and v: "\<forall>j<ndv. \<forall>c<nz. t ! j ! c
              = er ! j ! c + sum_list (map (\<lambda>a. if fst a = c then snd a * dvf i j else 0) row)"
    by blast+
  from erow_entry_val [OF st lt ls] have 1: "length er' = ndv"
    and 2: "\<forall>j<ndv. length (er' ! j) = nz"
    and w: "\<forall>j<ndv. \<forall>c<nz. er' ! j ! c = t ! j ! c + (if fst a = c then snd a * dvf i j else 0)"
    by blast+
  have 3: "\<forall>j<ndv. \<forall>c<nz. er' ! j ! c
              = er ! j ! c + sum_list (map (\<lambda>a. if fst a = c then snd a * dvf i j else 0) (row @ [a]))"
    using v w by simp
  show ?case using 1 2 3 by blast
qed

lemma build_erow_val:
  assumes run: "build_erow ndv nz dvf M = Inr erow"
    and rows: "\<forall>i<nrows M. row_entries (ptr M) (col M) (val M) i = Inr (R i)"
  shows "length erow = ndv \<and> (\<forall>j<ndv. length (erow ! j) = nz)
       \<and> (\<forall>j<ndv. \<forall>c<nz. erow ! j ! c
              = sum_list (map (\<lambda>i. sum_list (map (\<lambda>a. if fst a = c then snd a * dvf i j else 0) (R i)))
                            [0..<nrows M]))"
proof -
  let ?f = "\<lambda>i er. case row_entries (ptr M) (col M) (val M) i of
                      Inl e \<Rightarrow> Inl e
                    | Inr row \<Rightarrow> foldE (erow_entry ndv dvf i) row er"
  let ?I = "\<lambda>n t. length t = ndv \<and> (\<forall>j<ndv. length (t ! j) = nz)
       \<and> (\<forall>j<ndv. \<forall>c<nz. t ! j ! c
              = sum_list (map (\<lambda>i. sum_list (map (\<lambda>a. if fst a = c then snd a * dvf i j else 0) (R i)))
                            [0..<n]))"
  have run': "foldE ?f [0..<nrows M] (replicate ndv (replicate nz 0)) = Inr erow"
    using run unfolding build_erow_def .
  have "?I (nrows M) erow"
  proof (rule foldE_upt_invariant [OF run', where I = ?I])
    show "?I 0 (replicate ndv (replicate nz 0))" by simp
  next
    fix n t t' assume n: "n < nrows M" and I: "?I n t" and st: "?f n t = Inr t'"
    from st rows n have r: "foldE (erow_entry ndv dvf n) (R n) t = Inr t'" by simp
    from I have lt: "length t = ndv" and ls: "\<forall>j<ndv. length (t ! j) = nz"
      and v: "\<forall>j<ndv. \<forall>c<nz. t ! j ! c
              = sum_list (map (\<lambda>i. sum_list (map (\<lambda>a. if fst a = c then snd a * dvf i j else 0) (R i)))
                            [0..<n])" by blast+
    from erow_row_val [OF r lt ls] have 1: "length t' = ndv"
      and 2: "\<forall>j<ndv. length (t' ! j) = nz"
      and w: "\<forall>j<ndv. \<forall>c<nz. t' ! j ! c
              = t ! j ! c + sum_list (map (\<lambda>a. if fst a = c then snd a * dvf n j else 0) (R n))"
      by blast+
    have 3: "\<forall>j<ndv. \<forall>c<nz. t' ! j ! c
              = sum_list (map (\<lambda>i. sum_list (map (\<lambda>a. if fst a = c then snd a * dvf i j else 0) (R i)))
                            [0..<Suc n])"
      using v w by simp
    show "?I (Suc n) t'" using 1 2 3 by blast
  qed
  then show ?thesis by simp
qed

subsection \<open>Sums over rows and columns\<close>

lemma sum_list_swap:
  fixes g :: "'a \<Rightarrow> 'b \<Rightarrow> real"
  shows "sum_list (map (\<lambda>c. sum_list (map (g c) xs)) cs)
       = sum_list (map (\<lambda>x. sum_list (map (\<lambda>c. g c x) cs)) xs)"
proof (induction xs)
  case Nil
  then show ?case by simp
next
  case (Cons x xs)
  have "sum_list (map (\<lambda>c. sum_list (map (g c) (x # xs))) cs)
      = sum_list (map (\<lambda>c. g c x + sum_list (map (g c) xs)) cs)" by simp
  also have "\<dots> = sum_list (map (\<lambda>c. g c x) cs) + sum_list (map (\<lambda>c. sum_list (map (g c) xs)) cs)"
    by (rule sum_list_addf)
  finally show ?case using Cons by simp
qed

lemma sum_list_delta:
  fixes f :: "'a \<Rightarrow> real"
  assumes "distinct cs" and "k \<in> set cs"
  shows "sum_list (map (\<lambda>c. if k = c then f c else 0) cs) = f k"
  using assms
proof (induction cs)
  case Nil
  then show ?case by simp
next
  case (Cons c cs)
  show ?case
  proof (cases "k = c")
    case True
    then have "k \<notin> set cs" using Cons.prems(1) by simp
    then have "sum_list (map (\<lambda>c. if k = c then f c else 0) cs) = sum_list (map (\<lambda>c. 0 :: real) cs)"
      by (intro arg_cong [where f = sum_list] map_cong) auto
    also have "\<dots> = 0" by simp
    finally show ?thesis using True by simp
  next
    case False
    then show ?thesis using Cons by simp
  qed
qed

lemma distinct_e_cols_of:
  assumes ds: "ds = 0 # partial_sum (dv :: nat list)" and n: "n \<le> length dv"
  shows "distinct (e_cols_of cm dv ds rank n)"
  using n
proof (induction n)
  case 0
  then show ?case by (simp add: e_cols_of_def)
next
  case (Suc n)
  let ?b = "map (\<lambda>k. ds ! n + k) [0..<dv ! n]"
  have d1: "distinct (e_cols_of cm dv ds rank n)" using Suc by simp
  have d2: "distinct ?b" by (simp add: distinct_map inj_on_def)
  have d3: "set (e_cols_of cm dv ds rank n) \<inter> set ?b = {}"
  proof (rule ccontr)
    assume "set (e_cols_of cm dv ds rank n) \<inter> set ?b \<noteq> {}"
    then obtain x where x: "x \<in> set (e_cols_of cm dv ds rank n)" "x \<in> set ?b" by blast
    from x(1) obtain j where j: "j < n" "ds ! j \<le> x" "x < ds ! j + dv ! j"
      by (auto simp: set_e_cols_of)
    from x(2) have xn: "ds ! n \<le> x" "x < ds ! n + dv ! n" by auto
    have "j = n" using dv_block_unique [OF ds _ _ j(2,3) xn] j(1) Suc.prems by simp
    then show False using j(1) by simp
  qed
  show ?case
  proof (cases "e_adjacent cm rank n")
    case True
    then have "e_cols_of cm dv ds rank (Suc n) = e_cols_of cm dv ds rank n @ ?b"
      by (simp add: e_cols_of_Suc)
    then show ?thesis using d1 d2 d3 distinct_append by metis
  next
    case False
    then show ?thesis using d1 by (simp add: e_cols_of_Suc)
  qed
qed

lemma e_cols_of_bound:
  assumes ds: "ds = 0 # partial_sum (dv :: nat list)" and n: "n \<le> length dv"
    and c: "c \<in> set (e_cols_of cm dv ds rank n)"
  shows "c < ds ! length dv"
proof -
  from c obtain j where j: "j < n" "c < ds ! j + dv ! j" by (auto simp: set_e_cols_of)
  have jl: "j < length dv" using j(1) n by simp
  have "ds ! j + dv ! j = ds ! Suc j" using dv_start_Suc [OF ds jl] by simp
  also have "\<dots> \<le> ds ! length dv" using dv_start_mono [OF ds, of "Suc j" "length dv"] jl by simp
  finally show ?thesis using j(2) by simp
qed

lemma inner_product_upt:
  assumes "length x = n"
  shows "inner_product x (map f [0..<n]) = sum_list (map (\<lambda>i. x ! i * f i) [0..<n])"
proof -
  have "zip x (map f [0..<n]) = map (\<lambda>i. (x ! i, f i)) [0..<n]"
    using assms by (intro nth_equalityI) simp_all
  then show ?thesis by (simp add: inner_product_def comp_def)
qed

lemma pattern_sum:
  fixes u :: "real list"
  assumes erow: "\<forall>c<nz. e c
              = sum_list (map (\<lambda>i. sum_list (map (\<lambda>a. if fst a = c then snd a * z i else 0) (R i)))
                            [0..<n])"
    and cols: "distinct cols" "\<forall>c \<in> set cols. c < nz"
    and cover: "\<forall>i<n. \<forall>a \<in> set (R i). fst a \<in> set cols"
  shows "sum_list (map (\<lambda>c. e c * u ! c) cols)
       = sum_list (map (\<lambda>i. z i * sum_list (map (\<lambda>a. snd a * u ! fst a) (R i))) [0..<n])"
proof -
  let ?h = "\<lambda>c i a. if fst a = c then snd a * z i * u ! c else 0"
  have "sum_list (map (\<lambda>c. e c * u ! c) cols)
      = sum_list (map (\<lambda>c. sum_list (map (\<lambda>i. sum_list (map (?h c i) (R i))) [0..<n])) cols)"
  proof (rule arg_cong [where f = sum_list], rule map_cong [OF refl])
    fix c assume "c \<in> set cols"
    then have "e c = sum_list (map (\<lambda>i. sum_list (map (\<lambda>a. if fst a = c then snd a * z i else 0) (R i)))
                            [0..<n])" using erow cols(2) by blast
    then have "e c * u ! c
        = sum_list (map (\<lambda>i. sum_list (map (\<lambda>a. if fst a = c then snd a * z i else 0) (R i)) * u ! c)
                      [0..<n])"
      by (simp add: sum_list_mult_const)
    also have "\<dots> = sum_list (map (\<lambda>i. sum_list (map (?h c i) (R i))) [0..<n])"
    proof (rule arg_cong [where f = sum_list], rule map_cong [OF refl])
      fix i
      have "sum_list (map (\<lambda>a. if fst a = c then snd a * z i else 0) (R i)) * u ! c
          = sum_list (map (\<lambda>a. (if fst a = c then snd a * z i else 0) * u ! c) (R i))"
        by (simp add: sum_list_mult_const)
      also have "\<dots> = sum_list (map (?h c i) (R i))"
        by (rule arg_cong [where f = sum_list], rule map_cong [OF refl]) simp
      finally show "sum_list (map (\<lambda>a. if fst a = c then snd a * z i else 0) (R i)) * u ! c
          = sum_list (map (?h c i) (R i))" .
    qed
    finally show "e c * u ! c = sum_list (map (\<lambda>i. sum_list (map (?h c i) (R i))) [0..<n])" .
  qed
  also have "\<dots> = sum_list (map (\<lambda>i. sum_list (map (\<lambda>c. sum_list (map (?h c i) (R i))) cols)) [0..<n])"
    by (rule sum_list_swap)
  also have "\<dots> = sum_list (map (\<lambda>i. sum_list (map (\<lambda>a. sum_list (map (\<lambda>c. ?h c i a) cols)) (R i))) [0..<n])"
    by (rule arg_cong [where f = sum_list], rule map_cong [OF refl]) (rule sum_list_swap)
  also have "\<dots> = sum_list (map (\<lambda>i. z i * sum_list (map (\<lambda>a. snd a * u ! fst a) (R i))) [0..<n])"
  proof (rule arg_cong [where f = sum_list], rule map_cong [OF refl])
    fix i assume "i \<in> set [0..<n]"
    then have i: "i < n" by simp
    have "sum_list (map (\<lambda>a. sum_list (map (\<lambda>c. ?h c i a) cols)) (R i))
        = sum_list (map (\<lambda>a. z i * (snd a * u ! fst a)) (R i))"
    proof (rule arg_cong [where f = sum_list], rule map_cong [OF refl])
      fix a assume a: "a \<in> set (R i)"
      then have m: "fst a \<in> set cols" using cover i by blast
      have "sum_list (map (\<lambda>c. if fst a = c then snd a * z i * u ! c else 0) cols)
          = snd a * z i * u ! fst a"
        by (rule sum_list_delta [OF cols(1) m])
      then show "sum_list (map (\<lambda>c. ?h c i a) cols) = z i * (snd a * u ! fst a)" by simp
    qed
    also have "\<dots> = z i * sum_list (map (\<lambda>a. snd a * u ! fst a) (R i))"
      by (simp add: sum_list_const_mult)
    finally show "sum_list (map (\<lambda>a. sum_list (map (\<lambda>c. ?h c i a) cols)) (R i))
        = z i * sum_list (map (\<lambda>a. snd a * u ! fst a) (R i))" .
  qed
  finally show ?thesis .
qed

subsection \<open>The projection on one rank\<close>

lemma sum_list_zero_row: "sum_list (map (\<lambda>a. snd a * replicate n (0 :: real) ! fst a) r) = 0"
  if "\<forall>a \<in> set r. fst a < n"
proof -
  have "sum_list (map (\<lambda>a. snd a * replicate n (0 :: real) ! fst a) r) = sum_list (map (\<lambda>a. 0 :: real) r)"
    using that by (intro arg_cong [where f = sum_list] map_cong) auto
  then show ?thesis by simp
qed

lemma rank_projection:
  assumes run: "subdomain_deflation_setup P rank nrows_all ndv_all nra zp A ndv dvf = Inr res"
    and rank: "rank < P"
    and lens: "length nrows_all = P" "length ndv_all = P" "length nra = P"
    and strip: "coarse_strip res ndv dvf P rank = Inr E"
    and u: "length u = last (r_dv_start res)"
    and x: "length x = length A"
  shows "\<exists>y. spmv (- 1) (r_az res) u 1 x = Inr y \<and> length y = length A
           \<and> length (e_rows E) = ndv
           \<and> (\<forall>r \<in> set (e_rows E). \<forall>a \<in> set r. fst a < last (r_dv_start res))
           \<and> (\<forall>j<ndv. local_inner_products (deflation_vectors (length A) ndv dvf) y ! j
                  = local_inner_products (deflation_vectors (length A) ndv dvf) x ! j
                    - apply_rows (e_rows E) u ! j)
           \<and> (u = replicate (last (r_dv_start res)) 0 \<longrightarrow> y = x)"
proof -
  let ?D = "r_domain res" and ?dv = "r_dv_size res" and ?ds = "r_dv_start res"
  let ?M = "r_az res" and ?n = "length A" and ?nz = "last (r_dv_start res)"
  let ?cm = "r_comm_matrix res"
  let ?cols = "e_cols_of ?cm ?dv ?ds rank P"
  note Z = az_assembled [OF run rank lens]
  from setup_stages [OF run] obtain s3 :: second_pass_state where
    dv: "?dv = all_gather rank ndv ndv_all" and ds: "?ds = 0 # partial_sum ?dv"
    and az: "?M = \<lparr>nrows = length A, ncols = ?nz, ptr = fix_ptr (az_ptr s3),
                    col = az_col s3, val = az_val s3\<rparr>"
    by blast
  have nr: "nrows ?M = ?n" and nc: "ncols ?M = ?nz" using az by simp_all
  have ldv: "length ?dv = P" unfolding dv using lens by (simp add: all_gather_def)
  have "length ?ds = length ?dv + 1" using ds by simp
  then have nz: "?nz = ?ds ! length ?dv"
    by (metis add_diff_cancel_right' last_conv_nth length_0_conv add_is_0 zero_neq_one)
  let ?R = "\<lambda>i. zip (take (ptr ?M ! (i + 1) - ptr ?M ! i) (drop (ptr ?M ! i) (col ?M)))
                     (take (ptr ?M ! (i + 1) - ptr ?M ! i) (drop (ptr ?M ! i) (val ?M)))"
  have rf: "row_filled (col ?M) (ptr ?M ! i) (ptr ?M ! (i + 1))
             (\<Union>d \<in> row_owners ?D (A ! i). dv_block ?ds ?dv (nat d))" if "i < ?n" for i
    using Z(6) that unfolding Z(1) by blast
  have rows: "\<forall>i<nrows ?M. row_entries (ptr ?M) (col ?M) (val ?M) i = Inr (?R i)"
  proof (intro allI impI)
    fix i assume "i < nrows ?M"
    then have i: "i < ?n" using nr by simp
    have "i + 1 < length (ptr ?M)" using Z(2) i unfolding Z(1) by simp
    moreover have "ptr ?M ! (i + 1) \<le> length (col ?M)"
      using rf [OF i] unfolding row_filled_def by blast
    ultimately show "row_entries (ptr ?M) (col ?M) (val ?M) i = Inr (?R i)"
      using Z(7) by (simp add: row_entries_def)
  qed
  have fstR: "fst ` set (?R i) = (\<Union>d \<in> row_owners ?D (A ! i). dv_block ?ds ?dv (nat d))"
    if "i < ?n" for i
  proof -
    have "map fst (?R i) = take (ptr ?M ! (i + 1) - ptr ?M ! i) (drop (ptr ?M ! i) (col ?M))"
      using Z(7) by (intro map_fst_zip) simp
    then have "fst ` set (?R i)
        = set (take (ptr ?M ! (i + 1) - ptr ?M ! i) (drop (ptr ?M ! i) (col ?M)))"
      by (metis set_map)
    then show ?thesis using rf [OF that] unfolding row_filled_def by simp
  qed
  have cover: "\<forall>i<?n. \<forall>a \<in> set (?R i). fst a \<in> set ?cols"
  proof (intro allI impI ballI)
    fix i a assume i: "i < ?n" and a: "a \<in> set (?R i)"
    then have "fst a \<in> (\<Union>d \<in> row_owners ?D (A ! i). dv_block ?ds ?dv (nat d))"
      using fstR [OF i] by blast
    then obtain d where d: "d \<in> row_owners ?D (A ! i)" "fst a \<in> dv_block ?ds ?dv (nat d)" by blast
    from Z(9) i d(1) have "nat d < P" "nat d = rank \<or> ?cm ! rank ! nat d \<noteq> 0" by blast+
    then have "nat d < P \<and> e_adjacent ?cm rank (nat d)" by (auto simp: e_adjacent_def)
    then show "fst a \<in> set ?cols" using d(2) unfolding set_e_cols_of dv_block_def by auto
  qed
  have dcols: "distinct ?cols" using distinct_e_cols_of [OF ds] ldv by simp
  have bcols: "\<forall>c \<in> set ?cols. c < ?nz"
    using e_cols_of_bound [OF ds, of P] ldv nz by simp
  have inr: "\<forall>i<nrows ?M. \<forall>a \<in> set (?R i). fst a < length u"
    using cover bcols nr u by auto
  let ?y = "map (\<lambda>i. - 1 * sum_list (map (\<lambda>a. snd a * u ! fst a) (?R i)) + 1 * x ! i) [0..<?n]"
  have sp: "spmv (- 1) ?M u 1 x = Inr ?y"
    using spmv_known_rows [OF rows inr, of x "- 1" 1] x nr by simp
  from strip obtain erow where er: "build_erow ndv ?nz dvf ?M = Inr erow"
    and as: "assemble_e ?cm ?dv ?ds erow ndv P rank = Inr E"
    by (auto simp: coarse_strip_def nc split: sum.splits)
  from build_erow_val [OF er rows]
  have ev: "\<forall>j<ndv. \<forall>c<?nz. erow ! j ! c
              = sum_list (map (\<lambda>i. sum_list (map (\<lambda>a. if fst a = c then snd a * dvf i j else 0) (?R i)))
                            [0..<?n])"
    unfolding nr by blast
  have er_rows: "e_rows E = map (\<lambda>j. map (\<lambda>c. (c, erow ! j ! c)) ?cols) [0..<ndv]"
    using assemble_e_row_entries [OF as] .
  have le: "length (e_rows E) = ndv" using er_rows by simp
  have be: "\<forall>r \<in> set (e_rows E). \<forall>a \<in> set r. fst a < ?nz"
    using bcols unfolding er_rows by auto
  have 4: "\<forall>j<ndv. local_inner_products (deflation_vectors ?n ndv dvf) ?y ! j
                  = local_inner_products (deflation_vectors ?n ndv dvf) x ! j
                    - apply_rows (e_rows E) u ! j"
  proof (intro allI impI)
    fix j assume j: "j < ndv"
    let ?S = "\<lambda>i. sum_list (map (\<lambda>a. snd a * u ! fst a) (?R i))"
    have ap: "apply_rows (e_rows E) u ! j = sum_list (map (\<lambda>c. erow ! j ! c * u ! c) ?cols)"
      using j by (simp add: apply_rows_def er_rows comp_def)
    have ps: "sum_list (map (\<lambda>c. erow ! j ! c * u ! c) ?cols)
            = sum_list (map (\<lambda>i. dvf i j * ?S i) [0..<?n])"
    proof -
      have e: "\<forall>c<?nz. erow ! j ! c
              = sum_list (map (\<lambda>i. sum_list (map (\<lambda>a. if fst a = c then snd a * dvf i j else 0) (?R i)))
                            [0..<?n])"
        using ev j by blast
      show ?thesis
        by (rule pattern_sum [where e = "\<lambda>c. erow ! j ! c" and z = "\<lambda>i. dvf i j" and R = ?R,
              OF e dcols bcols cover])
    qed
    have ly: "length ?y = ?n" by simp
    have "local_inner_products (deflation_vectors ?n ndv dvf) ?y ! j
        = inner_product ?y (map (\<lambda>i. dvf i j) [0..<?n])"
      using j by (simp add: local_inner_products_def deflation_vectors_def)
    also have "\<dots> = sum_list (map (\<lambda>i. ?y ! i * dvf i j) [0..<?n])"
      by (rule inner_product_upt [OF ly])
    also have "\<dots> = sum_list (map (\<lambda>i. x ! i * dvf i j - dvf i j * ?S i) [0..<?n])"
      by (intro arg_cong [where f = sum_list] map_cong) (simp_all add: algebra_simps)
    also have "\<dots> = sum_list (map (\<lambda>i. x ! i * dvf i j) [0..<?n])
                    - sum_list (map (\<lambda>i. dvf i j * ?S i) [0..<?n])"
      by (rule sum_list_subtractf)
    also have "sum_list (map (\<lambda>i. x ! i * dvf i j) [0..<?n])
             = local_inner_products (deflation_vectors ?n ndv dvf) x ! j"
      using j inner_product_upt [OF x, of "\<lambda>i. dvf i j"]
      by (simp add: local_inner_products_def deflation_vectors_def)
    finally show "local_inner_products (deflation_vectors ?n ndv dvf) ?y ! j
                  = local_inner_products (deflation_vectors ?n ndv dvf) x ! j
                    - apply_rows (e_rows E) u ! j"
      using ap ps by simp
  qed
  have 5: "u = replicate ?nz 0 \<longrightarrow> ?y = x"
  proof
    assume u0: "u = replicate ?nz 0"
    show "?y = x"
    proof (rule nth_equalityI)
      show "length ?y = length x" using x by simp
    next
      fix i assume "i < length ?y"
      then have i: "i < ?n" by simp
      have "\<forall>a \<in> set (?R i). fst a < ?nz" using inr i nr u by simp
      then have "sum_list (map (\<lambda>a. snd a * u ! fst a) (?R i)) = 0"
        unfolding u0 by (rule sum_list_zero_row)
      then show "?y ! i = x ! i" using i by simp
    qed
  qed
  show ?thesis using sp le be 4 5 by (intro exI [of _ ?y]) simp
qed

subsection \<open>The coarse solve\<close>

lemma foldE_cong:
  assumes "\<And>x s. x \<in> set xs \<Longrightarrow> f x s = g x s"
  shows "foldE f xs s = foldE g xs s"
  using assms by (induction xs arbitrary: s) (auto split: sum.splits)

lemma take_length_append: "length pre = a \<Longrightarrow> take a (pre @ R) = pre"
  by auto

lemma mono_steps:
  fixes g :: "nat \<Rightarrow> nat"
  assumes "\<forall>m<n. g m \<le> g (m + 1)" and "a \<le> b" and "b \<le> n"
  shows "g a \<le> g b"
  using assms(2,3)
proof (induction b)
  case 0
  then show ?case by simp
next
  case (Suc b)
  show ?case
  proof (cases "a = Suc b")
    case True
    then show ?thesis by simp
  next
    case False
    then have "a \<le> b" using Suc.prems by simp
    moreover have "g b \<le> g (Suc b)" using assms(1) Suc.prems by simp
    ultimately show ?thesis using Suc.IH Suc.prems by fastforce
  qed
qed

lemma scatter_tiles:
  assumes tiles: "\<forall>m<n. length (ys m) = g (m + 1) - g m \<and> g m \<le> g (m + 1)"
    and fit: "g n \<le> length x" and k: "k \<le> n"
  shows "foldE (\<lambda>m x. write_at x (g m) (ys m)) [0..<k] x
       = Inr (take (g 0) x @ concat (map ys [0..<k]) @ drop (g k) x)
       \<and> g 0 \<le> g k \<and> g k \<le> g n \<and> length (concat (map ys [0..<k])) = g k - g 0"
  using k
proof (induction k)
  case 0
  have "\<forall>m<n. g m \<le> g (m + 1)" using tiles by blast
  from mono_steps [OF this, of 0 n] show ?case by simp
next
  case (Suc k)
  have kn: "k < n" and kle: "k \<le> n" using Suc.prems by simp_all
  have st: "\<forall>m<n. g m \<le> g (m + 1)" using tiles by blast
  from Suc.IH [OF kle]
  have run: "foldE (\<lambda>m x. write_at x (g m) (ys m)) [0..<k] x
       = Inr (take (g 0) x @ concat (map ys [0..<k]) @ drop (g k) x)"
    and g0: "g 0 \<le> g k" and gk: "g k \<le> g n" and len: "length (concat (map ys [0..<k])) = g k - g 0"
    by blast+
  have ly: "length (ys k) = g (k + 1) - g k" and gs: "g k \<le> g (k + 1)" using tiles kn by blast+
  have gn: "g (k + 1) \<le> g n" using mono_steps [OF st, of "k + 1" n] kn by simp
  let ?pre = "take (g 0) x @ concat (map ys [0..<k])"
  let ?xk = "?pre @ drop (g k) x"
  have lpre: "length ?pre = g k" using g0 gk fit len by simp
  have lxk: "length ?xk = length x" using lpre gk fit by simp
  have w: "write_at ?xk (g k) (ys k) = Inr (take (g k) ?xk @ ys k @ drop (g k + length (ys k)) ?xk)"
    using ly gs gn fit lxk by (simp add: write_at_def)
  have t: "take (g k) ?xk = ?pre" using lpre by (rule take_length_append)
  have "drop (g k + length (ys k)) ?xk = drop (length (ys k)) (drop (g k) x)"
    using lpre drop_add_append [of ?pre "g k" "length (ys k)" "drop (g k) x"] by simp
  then have d: "drop (g k + length (ys k)) ?xk = drop (g (k + 1)) x"
    using ly gs by (simp add: add.commute)
  have "foldE (\<lambda>m x. write_at x (g m) (ys m)) [0..<Suc k] x
      = Inr (?pre @ ys k @ drop (g (k + 1)) x)"
    using run w t d by (simp add: foldE_append)
  moreover have "length (concat (map ys [0..<Suc k])) = g (Suc k) - g 0"
    using len ly g0 gs by simp
  ultimately show ?case using g0 gs gn by simp
qed

lemma slices_concat:
  assumes mono: "\<forall>m<n. g m \<le> g (m + 1)" and fit: "g n \<le> length x" and k: "k \<le> n"
  shows "concat (map (\<lambda>m. take (g (m + 1) - g m) (drop (g m) x)) [0..<k])
       = take (g k - g 0) (drop (g 0) x) \<and> g 0 \<le> g k \<and> g k \<le> g n"
  using k
proof (induction k)
  case 0
  from mono_steps [OF mono, of 0 n] show ?case by simp
next
  case (Suc k)
  have kn: "k < n" and kle: "k \<le> n" using Suc.prems by simp_all
  from Suc.IH [OF kle]
  have c: "concat (map (\<lambda>m. take (g (m + 1) - g m) (drop (g m) x)) [0..<k])
       = take (g k - g 0) (drop (g 0) x)" and g0: "g 0 \<le> g k" and gk: "g k \<le> g n" by blast+
  have gs: "g k \<le> g (k + 1)" using mono kn by blast
  have up: "g (k + 1) \<le> g n" using mono_steps [OF mono, of "k + 1" n] kn by simp
  have "take (g k - g 0) (drop (g 0) x) @ take (g (k + 1) - g k) (drop (g k) x)
      = take (g (k + 1) - g 0) (drop (g 0) x)"
  proof -
    have "drop (g k) x = drop (g k - g 0) (drop (g 0) x)" using g0 by simp
    moreover have "g (k + 1) - g 0 = (g k - g 0) + (g (k + 1) - g k)" using g0 gs by simp
    ultimately show ?thesis by (simp add: take_add)
  qed
  then show ?case using c g0 gs up by simp
qed

lemma master_topology_rank0:
  assumes run: "master_topology (int P) 0 dscs K = Inr topo" and P: "1 \<le> P" and cs: "1 \<le> dscs K"
  shows "1 \<le> nat (nmasters topo)" and "length (slaves topo) = nat (nmasters topo) + 1"
    and "\<forall>m\<le>nat (nmasters topo). 0 \<le> slaves topo ! m \<and> nat (slaves topo ! m) \<le> P"
    and "nat (slaves topo ! 0) = 0" and "nat (slaves topo ! nat (nmasters topo)) = P"
    and "\<forall>m<nat (nmasters topo). nat (slaves topo ! m) \<le> nat (slaves topo ! (m + 1))"
proof -
  define M where "M = min (int P) (dscs K)"
  define S where "S = slaves_per_master (int P) M"
  have M: "1 \<le> M" "M \<le> int P" using P cs by (simp_all add: M_def)
  have S: "1 \<le> S" using P M by (simp add: S_def slaves_per_master_pos)
  have cover: "int P \<le> M * S" using P M by (simp add: S_def slaves_per_master_cover)
  let ?sl = "map (\<lambda>p. min (p * S) (int P)) [0..M]"
  have len: "length [0..M] = nat (M + 1)" by simp
  have "topo = \<lparr>nmasters = M, nslaves = ?sl ! (nat 0 + 1) - ?sl ! nat 0, master = 0 sdiv S, slaves = ?sl\<rparr>"
    using run M S
    by (simp add: master_topology_def Let_def M_def [symmetric] S_def [symmetric] split: if_splits)
  then have nm: "nmasters topo = M" and sl: "slaves topo = ?sl" by simp_all
  have nth: "slaves topo ! m = min (int m * S) (int P)" if "m \<le> nat M" for m
  proof -
    have "int m \<le> M" using that M by linarith
    then have "[0..M] ! nat (int m) = int m" by (intro upto_nth) auto
    then show ?thesis using that M sl by simp
  qed
  show "1 \<le> nat (nmasters topo)" using nm M by simp
  show "length (slaves topo) = nat (nmasters topo) + 1" using sl nm M by simp
  show "\<forall>m\<le>nat (nmasters topo). 0 \<le> slaves topo ! m \<and> nat (slaves topo ! m) \<le> P"
    using nth nm S by (auto simp: min_def)
  show "nat (slaves topo ! 0) = 0" using nth [of 0] by simp
  show "nat (slaves topo ! nat (nmasters topo)) = P"
    using nth [of "nat M"] nm M cover by (simp add: min_def)
  show "\<forall>m<nat (nmasters topo). nat (slaves topo ! m) \<le> nat (slaves topo ! (m + 1))"
  proof (intro allI impI)
    fix m assume m: "m < nat (nmasters topo)"
    have "int m * S \<le> int (m + 1) * S" using S by (simp add: algebra_simps)
    then have "min (int m * S) (int P) \<le> min (int (m + 1) * S) (int P)" by (simp add: min_def)
    then show "nat (slaves topo ! m) \<le> nat (slaves topo ! (m + 1))"
      using nth [of m] nth [of "m + 1"] m nm by simp
  qed
qed

lemma dv_start_last:
  assumes "ds = 0 # partial_sum (dv :: nat list)"
  shows "last ds = ds ! length dv" and "length ds = length dv + 1" and "ds ! 0 = 0"
proof -
  show l: "length ds = length dv + 1" using assms by simp
  then have "ds \<noteq> []" by auto
  then show "last ds = ds ! length dv" using l by (simp add: last_conv_nth)
  show "ds ! 0 = 0" using assms by simp
qed

lemma apply_rows_zero:
  assumes "\<forall>r \<in> set rows. \<forall>a \<in> set r. fst a < n"
  shows "apply_rows rows (replicate n 0) = replicate (length rows) 0"
proof -
  have "apply_rows rows (replicate n 0) = map (\<lambda>r. 0 :: real) rows"
    unfolding apply_rows_def using assms sum_list_zero_row by (intro map_cong) auto
  then show ?thesis by (simp add: map_replicate_const)
qed

lemma coarse_solve_result:
  assumes ds: "ds = 0 # partial_sum dv" and ldv: "length dv = P"
    and top: "master_topology (int P) 0 dscs K = Inr topo" "1 \<le> P" "1 \<le> dscs K"
    and inv: "inverse_of rows (master_sizes ds topo) solver"
    and rows: "length rows = last ds" "\<forall>r \<in> set rows. \<forall>a \<in> set r. fst a < last ds"
    and fs: "length fs = P" "\<forall>p<P. length (fs ! p) = dv ! p"
    and x: "length x = last ds"
  shows "\<exists>u. coarse_solve ds topo solver fs x = Inr u \<and> length u = last ds
           \<and> apply_rows rows u = concat fs
           \<and> ((\<forall>p<P. fs ! p = replicate (dv ! p) 0) \<longrightarrow> u = replicate (last ds) 0)"
proof -
  let ?nz = "last ds"
  let ?M = "nat (nmasters topo)"
  let ?G = "slave_start ds topo"
  note L = dv_start_last [OF ds]
  note T = master_topology_rank0 [OF top]
  have nzP: "?nz = ds ! P" using L(1) ldv by simp
  have tiles1: "\<forall>m<P. length (fs ! m) = ds ! (m + 1) - ds ! m \<and> ds ! m \<le> ds ! (m + 1)"
  proof (intro allI impI)
    fix m assume m: "m < P"
    have "ds ! Suc m = ds ! m + dv ! m" using dv_start_Suc [OF ds] m ldv by simp
    then show "length (fs ! m) = ds ! (m + 1) - ds ! m \<and> ds ! m \<le> ds ! (m + 1)"
      using fs(2) m by simp
  qed
  have fit1: "ds ! P \<le> length x" using x nzP by simp
  note S1 = scatter_tiles [where g = "\<lambda>p. ds ! p" and ys = "\<lambda>p. fs ! p", OF tiles1 fit1 order_refl]
  have mfs: "map (\<lambda>p. fs ! p) [0..<P] = fs" using fs(1) map_nth [of fs] by simp
  have "foldE (\<lambda>p x. if p < length ds then write_at x (ds ! p) (fs ! p) else Inl OutOfBounds) [0..<P] x
      = foldE (\<lambda>p x. write_at x (ds ! p) (fs ! p)) [0..<P] x"
    using L(2) ldv by (intro foldE_cong) simp
  also have "\<dots> = Inr (take (ds ! 0) x @ concat fs @ drop (ds ! P) x)" using S1 mfs by simp
  also have "\<dots> = Inr (concat fs)" using L(3) x nzP by simp
  finally have gat: "gatherv ds fs x = Inr (concat fs)" using fs(1) by (simp add: gatherv_def)
  have lx1: "length (concat fs) = ?nz" using S1 mfs L(3) nzP by simp
  have Gle: "nat (slaves topo ! m) \<le> P" if "m \<le> ?M" for m using T(3) that by blast
  have Gmono: "\<forall>m<?M. ?G m \<le> ?G (m + 1)"
  proof (intro allI impI)
    fix m assume m: "m < ?M"
    have "nat (slaves topo ! m) \<le> nat (slaves topo ! (m + 1))" using T(6) m by blast
    moreover have "nat (slaves topo ! (m + 1)) \<le> length dv" using Gle [of "m + 1"] m ldv by simp
    ultimately show "?G m \<le> ?G (m + 1)"
      unfolding slave_start_def by (rule dv_start_mono [OF ds])
  qed
  have G0: "?G 0 = 0" using T(4) L(3) by (simp add: slave_start_def)
  have GM: "?G ?M = ?nz" using T(5) nzP by (simp add: slave_start_def)
  have Gfit: "?G ?M \<le> length (concat fs)" using GM lx1 by simp
  have Gup: "?G m \<le> ?nz" if "m \<le> ?M" for m
    using mono_steps [OF Gmono that order_refl] GM by simp
  have guard: "?M < length (slaves topo)
              \<and> (\<forall>m \<in> set [0..<?M + 1]. 0 \<le> slaves topo ! m \<and> nat (slaves topo ! m) < length ds)
              \<and> (\<forall>m \<in> set [0..<?M]. ?G m \<le> ?G (m + 1) \<and> ?G (m + 1) \<le> length (concat fs))"
  proof (intro conjI ballI)
    show "?M < length (slaves topo)" using T(2) by simp
  next
    fix m assume "m \<in> set [0..<?M + 1]"
    then have m: "m \<le> ?M" by auto
    show "0 \<le> slaves topo ! m" using T(3) m by blast
    show "nat (slaves topo ! m) < length ds" using Gle [OF m] L(2) ldv by simp
  next
    fix m assume "m \<in> set [0..<?M]"
    then have m: "m < ?M" by simp
    show "?G m \<le> ?G (m + 1)" using Gmono m by blast
    show "?G (m + 1) \<le> length (concat fs)" using Gup [of "m + 1"] m lx1 by simp
  qed
  define cf where "cf = map (\<lambda>m. take (?G (m + 1) - ?G m) (drop (?G m) (concat fs))) [0..<?M]"
  define cx where "cx = solver cf"
  have lcf: "map length cf = master_sizes ds topo"
  proof -
    have "length (take (?G (m + 1) - ?G m) (drop (?G m) (concat fs))) = ?G (m + 1) - ?G m"
      if "m < ?M" for m
      using Gup [of "m + 1"] that lx1 by simp
    then show ?thesis by (simp add: master_sizes_def cf_def)
  qed
  have ccf: "concat cf = concat fs"
    using slices_concat [OF Gmono Gfit order_refl] G0 GM lx1 by (simp add: cf_def)
  from inv lcf have lcx: "map length cx = master_sizes ds topo"
    and iff: "\<forall>c. map length c = master_sizes ds topo
               \<longrightarrow> (cx = c \<longleftrightarrow> apply_rows rows (concat c) = concat cf)"
    unfolding inverse_of_def cx_def by blast+
  have "apply_rows rows (concat cx) = concat cf" using iff lcx by blast
  then have sol: "apply_rows rows (concat cx) = concat fs" using ccf by simp
  have ncx: "length cx = ?M"
    using lcx by (metis length_map length_upt master_sizes_def minus_nat.diff_0)
  have scx: "length (cx ! m) = ?G (m + 1) - ?G m" if "m < ?M" for m
  proof -
    have "map length cx ! m = master_sizes ds topo ! m" using lcx by simp
    then show ?thesis using that ncx by (simp add: master_sizes_def)
  qed
  let ?ys = "\<lambda>m. take (?G (m + 1) - ?G m) (cx ! m)"
  have tiles2: "\<forall>m<?M. length (?ys m) = ?G (m + 1) - ?G m \<and> ?G m \<le> ?G (m + 1)"
    using scx Gmono by simp
  note S2 = scatter_tiles [where g = ?G and ys = ?ys, OF tiles2 Gfit order_refl]
  have mys: "map ?ys [0..<?M] = cx"
    using ncx scx by (intro nth_equalityI) simp_all
  have "foldE (\<lambda>m x. if m < length cx then write_at x (?G m) (?ys m) else Inl OutOfBounds)
          [0..<?M] (concat fs)
      = foldE (\<lambda>m x. write_at x (?G m) (?ys m)) [0..<?M] (concat fs)"
    using ncx by (intro foldE_cong) simp
  also have "\<dots> = Inr (take (?G 0) (concat fs) @ concat cx @ drop (?G ?M) (concat fs))"
    using S2 mys by simp
  also have "\<dots> = Inr (concat cx)" using G0 GM lx1 by simp
  finally have wb: "foldE (\<lambda>m x. if m < length cx then write_at x (?G m) (?ys m) else Inl OutOfBounds)
          [0..<?M] (concat fs) = Inr (concat cx)" .
  have "coarse_solve ds topo solver fs x
      = (if ?M < length (slaves topo)
              \<and> (\<forall>m \<in> set [0..<?M + 1]. 0 \<le> slaves topo ! m \<and> nat (slaves topo ! m) < length ds)
              \<and> (\<forall>m \<in> set [0..<?M]. ?G m \<le> ?G (m + 1) \<and> ?G (m + 1) \<le> length (concat fs))
         then foldE (\<lambda>m x. if m < length cx then write_at x (?G m) (?ys m) else Inl OutOfBounds)
                [0..<?M] (concat fs)
         else Inl OutOfBounds)"
    unfolding coarse_solve_def gat Let_def cx_def cf_def by simp
  also have "\<dots> = foldE (\<lambda>m x. if m < length cx then write_at x (?G m) (?ys m) else Inl OutOfBounds)
                [0..<?M] (concat fs)"
    by (rule if_P [OF guard])
  finally have run: "coarse_solve ds topo solver fs x = Inr (concat cx)" using wb by simp
  have lu: "length (concat cx) = ?nz" using S2 mys G0 GM by simp
  have zero: "concat cx = replicate ?nz 0" if z: "\<forall>p<P. fs ! p = replicate (dv ! p) 0"
  proof -
    have "\<forall>v \<in> set (concat fs). v = 0"
    proof
      fix v assume "v \<in> set (concat fs)"
      then obtain f where f: "f \<in> set fs" "v \<in> set f" by auto
      then obtain p where "p < P" "f = fs ! p" using fs(1) by (metis in_set_conv_nth)
      then show "v = 0" using z f(2) by auto
    qed
    then have x0: "concat fs = replicate ?nz 0"
      using lx1 by (metis replicate_length_same)
    have "apply_rows rows (concat cf) = replicate (length rows) 0"
      unfolding ccf x0 by (rule apply_rows_zero [OF rows(2)])
    then have "apply_rows rows (concat cf) = concat cf" using ccf x0 rows(1) by simp
    then have "cx = cf" using iff lcf by blast
    then show ?thesis using ccf x0 by simp
  qed
  show ?thesis using run lu sol zero by blast
qed

subsection \<open>The projection\<close>

lemma project_step:
  assumes built: "\<forall>p<P. subdomain_deflation_setup P p nrows_all ndv_all (nra p) (zp p) (A p)
                         (ndv_all ! p) (dvf p) = Inr (res p)"
    and strips: "\<forall>p<P. coarse_strip (res p) (ndv_all ! p) (dvf p) P p = Inr (E p)"
    and lens: "length nrows_all = P" "length ndv_all = P" "\<forall>p<P. length (nra p) = P"
    and ds: "dv_start = 0 # partial_sum ndv_all"
    and top: "master_topology (int P) 0 dscs (int (last dv_start)) = Inr topo" "1 \<le> P"
      "1 \<le> dscs (int (last dv_start))"
    and inv: "inverse_of (concat (map (\<lambda>p. e_rows (E p)) [0..<P])) (master_sizes dv_start topo)
                direct_solver"
    and ranks: "ranks = map (\<lambda>p. \<lparr>dr_Z = deflation_vectors (length (A p)) (ndv_all ! p) (dvf p),
                                   dr_AZ = r_az (res p)\<rparr>) [0..<P]"
    and shapes: "length d = last dv_start" "length v = P" "\<forall>p<P. length (v ! p) = length (A p)"
  shows "\<exists>u w. project ranks dv_start topo direct_solver (d, v) = Inr (u, w)
           \<and> length u = last dv_start \<and> length w = P \<and> (\<forall>p<P. length (w ! p) = length (A p))
           \<and> (\<forall>p<P. \<forall>j<ndv_all ! p.
                  local_inner_products (dr_Z (ranks ! p)) (w ! p) ! j
                    = local_inner_products (dr_Z (ranks ! p)) (v ! p) ! j
                      - apply_rows (e_rows (E p)) u ! j)
           \<and> map (\<lambda>p. apply_rows (e_rows (E p)) u) [0..<P]
               = map (\<lambda>p. local_inner_products (dr_Z (ranks ! p)) (v ! p)) [0..<P]
           \<and> ((\<forall>p<P. local_inner_products (dr_Z (ranks ! p)) (v ! p) = replicate (ndv_all ! p) 0)
                 \<longrightarrow> w = v)
           \<and> apply_rows (concat (map (\<lambda>p. e_rows (E p)) [0..<P])) u
               = concat (map (\<lambda>p. local_inner_products (dr_Z (ranks ! p)) (v ! p)) [0..<P])
           \<and> (\<forall>p<P. spmv (- 1) (dr_AZ (ranks ! p)) u 1 (v ! p) = Inr (w ! p))"
proof -
  let ?nz = "last dv_start"
  let ?Z = "\<lambda>p. deflation_vectors (length (A p)) (ndv_all ! p) (dvf p)"
  let ?rows = "concat (map (\<lambda>p. e_rows (E p)) [0..<P])"
  have lr: "length ranks = P" using ranks by simp
  have rk: "dr_Z (ranks ! p) = ?Z p" "dr_AZ (ranks ! p) = r_az (res p)" if "p < P" for p
    using that ranks by simp_all
  have lZ: "length (?Z p) = ndv_all ! p" for p by (simp add: deflation_vectors_def)
  have dsp: "r_dv_start (res p) = dv_start" if "p < P" for p
  proof -
    from setup_stages [OF built [rule_format, OF that]]
    have "r_dv_size (res p) = all_gather p (ndv_all ! p) ndv_all"
      and "r_dv_start (res p) = 0 # partial_sum (r_dv_size (res p))" by blast+
    then show ?thesis using ds by (simp add: all_gather_def)
  qed
  note RP = rank_projection [OF built [rule_format] _ lens(1,2) lens(3) [rule_format] strips [rule_format]]
  have shape: "length (e_rows (E p)) = ndv_all ! p
             \<and> (\<forall>r \<in> set (e_rows (E p)). \<forall>a \<in> set r. fst a < ?nz)" if "p < P" for p
  proof -
    have "length (replicate ?nz (0 :: real)) = last (r_dv_start (res p))" using dsp [OF that] by simp
    from RP [OF that that that that this, of "replicate (length (A p)) 0"]
    show ?thesis using dsp [OF that] by auto
  qed
  have "length ?rows = sum_list (map (\<lambda>p. length (e_rows (E p))) [0..<P])"
    by (simp add: length_concat comp_def)
  also have "\<dots> = sum_list (map (\<lambda>p. ndv_all ! p) [0..<P])"
    using shape by (intro arg_cong [where f = sum_list] map_cong) simp_all
  also have "\<dots> = sum_list ndv_all" using lens(2) map_nth [of ndv_all] by simp
  also have "\<dots> = ?nz"
  proof -
    have ne: "ndv_all \<noteq> []" using lens(2) top(2) by auto
    then have "partial_sum ndv_all \<noteq> []" by (metis length_partial_sum length_0_conv)
    then have "last dv_start = last (partial_sum ndv_all)" using ds by simp
    then show ?thesis using partial_sum_last [OF ne] by simp
  qed
  finally have rows1: "length ?rows = ?nz" .
  have rows2: "\<forall>r \<in> set ?rows. \<forall>a \<in> set r. fst a < ?nz" using shape by auto
  let ?df = "map (\<lambda>p. local_inner_products (?Z p) (v ! p)) [0..<P]"
  have df: "map (\<lambda>p. local_inner_products (dr_Z (ranks ! p)) (v ! p)) [0..<length ranks] = ?df"
    using rk lr by simp
  have fs1: "length ?df = P" by simp
  have fs2: "\<forall>p<P. length (?df ! p) = ndv_all ! p"
    by (simp add: local_inner_products_def lZ)
  from coarse_solve_result [OF ds lens(2) top inv rows1 rows2 fs1 fs2 shapes(1)]
  obtain u where cs: "coarse_solve dv_start topo direct_solver ?df d = Inr u"
    and lu: "length u = ?nz" and sol: "apply_rows ?rows u = concat ?df"
    and zero: "(\<forall>p<P. ?df ! p = replicate (ndv_all ! p) 0) \<longrightarrow> u = replicate ?nz 0"
    by blast
  have "\<forall>p \<in> {..<P}. \<exists>y. spmv (- 1) (r_az (res p)) u 1 (v ! p) = Inr y \<and> length y = length (A p)
           \<and> (\<forall>j<ndv_all ! p. local_inner_products (?Z p) y ! j
                  = local_inner_products (?Z p) (v ! p) ! j - apply_rows (e_rows (E p)) u ! j)
           \<and> (u = replicate ?nz 0 \<longrightarrow> y = v ! p)"
  proof
    fix p assume "p \<in> {..<P}"
    then have p: "p < P" by simp
    have "length u = last (r_dv_start (res p))" using lu dsp [OF p] by simp
    from RP [OF p p p p this shapes(3) [rule_format, OF p]]
    show "\<exists>y. spmv (- 1) (r_az (res p)) u 1 (v ! p) = Inr y \<and> length y = length (A p)
           \<and> (\<forall>j<ndv_all ! p. local_inner_products (?Z p) y ! j
                  = local_inner_products (?Z p) (v ! p) ! j - apply_rows (e_rows (E p)) u ! j)
           \<and> (u = replicate ?nz 0 \<longrightarrow> y = v ! p)"
      using dsp [OF p] by auto
  qed
  from bchoice [OF this] obtain Y where
    Y: "\<forall>p \<in> {..<P}. spmv (- 1) (r_az (res p)) u 1 (v ! p) = Inr (Y p) \<and> length (Y p) = length (A p)
           \<and> (\<forall>j<ndv_all ! p. local_inner_products (?Z p) (Y p) ! j
                  = local_inner_products (?Z p) (v ! p) ! j - apply_rows (e_rows (E p)) u ! j)
           \<and> (u = replicate ?nz 0 \<longrightarrow> Y p = v ! p)"
    by blast
  let ?w = "map Y [0..<P]"
  have "\<forall>p \<in> set [0..<length ranks]. spmv (- 1) (dr_AZ (ranks ! p)) u 1 (v ! p) = Inr (Y p)"
    using Y rk lr by simp
  then have me: "mapE (\<lambda>p. spmv (- 1) (dr_AZ (ranks ! p)) u 1 (v ! p)) [0..<length ranks] = Inr ?w"
    using mapE_known [of "[0..<length ranks]" "\<lambda>p. spmv (- 1) (dr_AZ (ranks ! p)) u 1 (v ! p)" Y] lr
    by simp
  have run: "project ranks dv_start topo direct_solver (d, v) = Inr (u, ?w)"
    unfolding project_def Let_def by (simp add: df cs me)
  have 3: "\<forall>p<P. length (?w ! p) = length (A p)" using Y by simp
  have 4: "\<forall>p<P. \<forall>j<ndv_all ! p.
                  local_inner_products (dr_Z (ranks ! p)) (?w ! p) ! j
                    = local_inner_products (dr_Z (ranks ! p)) (v ! p) ! j
                      - apply_rows (e_rows (E p)) u ! j"
    using Y rk by simp
  have "apply_rows ?rows u = concat (map (\<lambda>p. apply_rows (e_rows (E p)) u) [0..<P])"
    by (simp add: apply_rows_def map_concat comp_def)
  then have "concat (map (\<lambda>p. apply_rows (e_rows (E p)) u) [0..<P]) = concat ?df" using sol by simp
  moreover have "\<forall>(a, b) \<in> set (zip (map (\<lambda>p. apply_rows (e_rows (E p)) u) [0..<P]) ?df).
                   length a = length b"
  proof -
    have "length (apply_rows (e_rows (E p)) u) = length (local_inner_products (?Z p) (v ! p))"
      if "p < P" for p
      using shape [OF that] by (simp add: apply_rows_def local_inner_products_def lZ)
    then show ?thesis by (auto simp: zip_map_map set_zip)
  qed
  ultimately have "map (\<lambda>p. apply_rows (e_rows (E p)) u) [0..<P] = ?df"
    using concat_eq_concat_iff [of "map (\<lambda>p. apply_rows (e_rows (E p)) u) [0..<P]" ?df] by simp
  then have 5: "map (\<lambda>p. apply_rows (e_rows (E p)) u) [0..<P]
               = map (\<lambda>p. local_inner_products (dr_Z (ranks ! p)) (v ! p)) [0..<P]"
    using rk by simp
  have 6: "(\<forall>p<P. local_inner_products (dr_Z (ranks ! p)) (v ! p) = replicate (ndv_all ! p) 0)
                 \<longrightarrow> ?w = v"
  proof
    assume z: "\<forall>p<P. local_inner_products (dr_Z (ranks ! p)) (v ! p) = replicate (ndv_all ! p) 0"
    then have "\<forall>p<P. ?df ! p = replicate (ndv_all ! p) 0" using rk by simp
    then have "u = replicate ?nz 0" using zero by blast
    then have "\<forall>p<P. Y p = v ! p" using Y by simp
    then show "?w = v" using shapes(2) by (intro nth_equalityI) simp_all
  qed
  have "?df = map (\<lambda>p. local_inner_products (dr_Z (ranks ! p)) (v ! p)) [0..<P]"
    using rk by (intro map_cong) simp_all
  then have 7: "apply_rows ?rows u
               = concat (map (\<lambda>p. local_inner_products (dr_Z (ranks ! p)) (v ! p)) [0..<P])"
    using sol by (rule subst)
  have 8: "\<forall>p<P. spmv (- 1) (dr_AZ (ranks ! p)) u 1 (v ! p) = Inr (?w ! p)"
    using Y rk by simp
  show ?thesis using run lu 3 4 5 6 7 8 by (intro exI [of _ u] exI [of _ ?w]) simp
qed

text \<open>
  C8.  \<open>P\<close> ranks have run the constructor, each on its strip, and have built their rows of E;
  the direct solver applies the inverse of the matrix with these rows; \<open>project\<close> is called with
  a vector \<open>xs ! p\<close> of the local size on every rank.  Then \<open>project\<close> returns; the \<open>dx\<close> it
  leaves is mapped by E to the inner products of the vectors with the deflation vectors, and
  the result of a rank is its vector minus its part of AZ times \<open>dx\<close>; the deflated component
  of the result, the inner products with the deflation vectors, is zero on every rank; and a
  second call on the result returns the same vectors.  With \<open>value_type\<close> the reals the
  equality is exact; it is the statement of the claim with every rounding error left out.
\<close>

theorem project_idempotent:
  assumes built: "\<forall>p<P. subdomain_deflation_setup P p nrows_all ndv_all (nra p) (zp p) (A p)
                         (ndv_all ! p) (dvf p) = Inr (res p)"
    and strips: "\<forall>p<P. coarse_strip (res p) (ndv_all ! p) (dvf p) P p = Inr (E p)"
    and lens: "length nrows_all = P" "length ndv_all = P" "\<forall>p<P. length (nra p) = P"
    and ds: "dv_start = 0 # partial_sum ndv_all"
    and top: "master_topology (int P) 0 dscs (int (last dv_start)) = Inr topo" "1 \<le> P"
      "1 \<le> dscs (int (last dv_start))"
    and inv: "inverse_of (concat (map (\<lambda>p. e_rows (E p)) [0..<P])) (master_sizes dv_start topo)
                direct_solver"
    and ranks: "ranks = map (\<lambda>p. \<lparr>dr_Z = deflation_vectors (length (A p)) (ndv_all ! p) (dvf p),
                                   dr_AZ = r_az (res p)\<rparr>) [0..<P]"
    and shapes: "length dx = last dv_start" "length xs = P" "\<forall>p<P. length (xs ! p) = length (A p)"
  shows "\<exists>dx1 ys. project ranks dv_start topo direct_solver (dx, xs) = Inr (dx1, ys)
           \<and> (\<exists>dx2. project ranks dv_start topo direct_solver (dx1, ys) = Inr (dx2, ys))
           \<and> (\<forall>p<P. local_inner_products (dr_Z (ranks ! p)) (ys ! p) = replicate (ndv_all ! p) 0)
           \<and> apply_rows (concat (map (\<lambda>p. e_rows (E p)) [0..<P])) dx1
               = concat (map (\<lambda>p. local_inner_products (dr_Z (ranks ! p)) (xs ! p)) [0..<P])
           \<and> (\<forall>p<P. spmv (- 1) (dr_AZ (ranks ! p)) dx1 1 (xs ! p) = Inr (ys ! p))"
proof -
  note step = project_step [OF built strips lens ds top inv ranks]
  from step [OF shapes] obtain u w where
    run: "project ranks dv_start topo direct_solver (dx, xs) = Inr (u, w)"
    and lu: "length u = last dv_start" and lw: "length w = P"
    and sw: "\<forall>p<P. length (w ! p) = length (A p)"
    and ip: "\<forall>p<P. \<forall>j<ndv_all ! p.
                  local_inner_products (dr_Z (ranks ! p)) (w ! p) ! j
                    = local_inner_products (dr_Z (ranks ! p)) (xs ! p) ! j
                      - apply_rows (e_rows (E p)) u ! j"
    and eq: "map (\<lambda>p. apply_rows (e_rows (E p)) u) [0..<P]
               = map (\<lambda>p. local_inner_products (dr_Z (ranks ! p)) (xs ! p)) [0..<P]"
    and sol: "apply_rows (concat (map (\<lambda>p. e_rows (E p)) [0..<P])) u
               = concat (map (\<lambda>p. local_inner_products (dr_Z (ranks ! p)) (xs ! p)) [0..<P])"
    and sub: "\<forall>p<P. spmv (- 1) (dr_AZ (ranks ! p)) u 1 (xs ! p) = Inr (w ! p)"
    by blast
  have galerkin: "\<forall>p<P. local_inner_products (dr_Z (ranks ! p)) (w ! p) = replicate (ndv_all ! p) 0"
  proof (intro allI impI)
    fix p assume p: "p < P"
    have e: "apply_rows (e_rows (E p)) u = local_inner_products (dr_Z (ranks ! p)) (xs ! p)"
      using eq p by (metis (no_types, lifting) add_0 length_upt minus_nat.diff_0 nth_map nth_upt)
    have l: "length (local_inner_products (dr_Z (ranks ! p)) (w ! p)) = ndv_all ! p"
      using p ranks by (simp add: local_inner_products_def deflation_vectors_def)
    show "local_inner_products (dr_Z (ranks ! p)) (w ! p) = replicate (ndv_all ! p) 0"
    proof (rule nth_equalityI)
      show "length (local_inner_products (dr_Z (ranks ! p)) (w ! p)) = length (replicate (ndv_all ! p) (0 :: real))"
        using l by simp
    next
      fix j assume "j < length (local_inner_products (dr_Z (ranks ! p)) (w ! p))"
      then have j: "j < ndv_all ! p" using l by simp
      then show "local_inner_products (dr_Z (ranks ! p)) (w ! p) ! j = replicate (ndv_all ! p) 0 ! j"
        using ip p e by simp
    qed
  qed
  from step [OF lu lw sw] obtain u2 w2 where
    run2: "project ranks dv_start topo direct_solver (u, w) = Inr (u2, w2)"
    and same: "(\<forall>p<P. local_inner_products (dr_Z (ranks ! p)) (w ! p) = replicate (ndv_all ! p) 0)
                 \<longrightarrow> w2 = w"
    by blast
  have "w2 = w" using same galerkin by blast
  then have "\<exists>dx2. project ranks dv_start topo direct_solver (u, w) = Inr (dx2, w)"
    using run2 by blast
  then show ?thesis using run galerkin sol sub by blast
qed

theorem e_pattern_symmetrized_witness:
  "(1 \<in> set (e_row_cols \<lparr>e_ptr = [0, 5, 10, 15], e_col = [2,3,4,5,6,2,3,4,5,6,2,3,4,5,6],
        e_val = replicate 15 0\<rparr> 2)) = False
   \<and> (3 \<in> set (e_row_cols \<lparr>e_ptr = [0, 4, 8], e_col = [0, 1, 2, 3, 0, 1, 2, 3],
        e_val = [0, 0, 0, 0, 0, 0, 0, 0]\<rparr> 0)) = True"
proof -
  let ?cm = "[[0,1,0],[2,0,2],[0,1,0]] :: nat list list"
  let ?dv = "[2,2,3] :: nat list"
  let ?ds = "[0,2,4,7] :: nat list"
  have ds: "?ds = 0 # partial_sum ?dv" by code_simp
  have e0: "assemble_e ?cm ?dv ?ds (replicate 2 (replicate 7 0)) (?dv ! 0) 3 0
      = Inr \<lparr>e_ptr = [0, 4, 8], e_col = [0, 1, 2, 3, 0, 1, 2, 3],
             e_val = [0, 0, 0, 0, 0, 0, 0, 0]\<rparr>"
    by code_simp
  have e1: "assemble_e ?cm ?dv ?ds (replicate 2 (replicate 7 0)) (?dv ! 1) 3 1
      = Inr \<lparr>e_ptr = [0, 7, 14], e_col = [0, 1, 2, 3, 4, 5, 6, 0, 1, 2, 3, 4, 5, 6],
             e_val = [0, 0, 0, 0, 0, 0, 0, 0, 0, 0, 0, 0, 0, 0]\<rparr>"
    by code_simp
  have e2: "assemble_e ?cm ?dv ?ds (replicate 3 (replicate 7 0)) (?dv ! 2) 3 2
      = Inr \<lparr>e_ptr = [0, 5, 10, 15], e_col = [2,3,4,5,6,2,3,4,5,6,2,3,4,5,6],
             e_val = replicate 15 0\<rparr>"
    by code_simp
  have a: "(?ds ! 0 + 1 \<in> set (e_row_cols \<lparr>e_ptr = [0, 5, 10, 15],
              e_col = [2,3,4,5,6,2,3,4,5,6,2,3,4,5,6], e_val = replicate 15 0\<rparr> 2))
           = (2 = (0::nat) \<or> 0 < ?cm ! 2 ! 0 \<or> 0 < ?cm ! 0 ! 2)"
    using e_pattern_symmetrized [OF e2 e0 ds, of 2 1] by simp
  have b: "(?ds ! 1 + 1 \<in> set (e_row_cols \<lparr>e_ptr = [0, 4, 8], e_col = [0, 1, 2, 3, 0, 1, 2, 3],
              e_val = [0, 0, 0, 0, 0, 0, 0, 0]\<rparr> 0))
           = (0 = (1::nat) \<or> 0 < ?cm ! 0 ! 1 \<or> 0 < ?cm ! 1 ! 0)"
    using e_pattern_symmetrized [OF e0 e1 ds, of 0 1] by simp
  show ?thesis using a b by simp
qed

lemma sample_setup_run: "sample_setup = Inr sample_result"
  by code_simp

lemma sample_run:
  "subdomain_deflation_setup 3 1 [2, 2, 2] [2, 2, 2] [[0, 1, 0], [0, 0, 0], [0, 1, 0]] real
     sample_strip 2 sample_def_vec = Inr sample_result"
  using sample_setup_run by (simp only: sample_setup_def)





theorem mul_spec_witness:
  "mul (r_aloc sample_result) (r_arem sample_result) [0, 1, 4, 5] 1 [2, 3] 0 [0, 0] = Inr [0, 39]"
proof -
  have n: "length sample_strip = 2" by (simp add: sample_strip_def)
  have r: "(1::nat) < 3" and l: "length [2, 2, 2 :: nat] = 3" by simp_all
  have x1: "length [2, 3 :: real] = length sample_strip" by (simp add: n)
  have x2: "\<forall>j<length sample_strip. [2, 3 :: real] ! j = real_of_int (r_domain sample_result ! 1 + int j)"
    by (simp add: n sample_result_def less_Suc_eq numeral_2_eq_2)
  have g1: "length [0, 1, 4, 5 :: real] = length (r_recv_cols sample_result)"
    by (simp add: sample_result_def)
  have g2: "\<forall>g<length [0, 1, 4, 5 :: real].
              [0, 1, 4, 5 :: real] ! g = real_of_int (r_recv_cols sample_result ! g)"
    by (simp add: sample_result_def less_Suc_eq numeral_2_eq_2 numeral_3_eq_3 eval_nat_numeral)
  have yl: "length [0, 0 :: real] = length sample_strip" by (simp add: n)
  from mul_spec [OF sample_run r l x1 x2 g1 g2 yl, of 1 0] obtain y2 where
    m: "mul (r_aloc sample_result) (r_arem sample_result) [0, 1, 4, 5] 1 [2, 3] 0 [0, 0] = Inr y2"
    and ly: "length y2 = length sample_strip"
    and v: "\<forall>i<length sample_strip.
              y2 ! i = 1 * sum_list (map (\<lambda>a. snd a * real_of_int (fst a)) (sample_strip ! i))
                       + 0 * [0, 0] ! i"
    by blast
  have "y2 ! 0 = 0" using v n by (simp add: sample_strip_def)
  moreover have "y2 ! 1 = 39" using v n by (simp add: sample_strip_def)
  ultimately have "y2 = [0, 39]"
    using ly n by (intro nth_equalityI) (auto simp: less_Suc_eq numeral_2_eq_2)
  then show ?thesis using m by simp
qed

lemma sample_pair_built:
  "\<forall>p<2. subdomain_deflation_setup 2 p [2, 2] [1, 1] [[0, 1], [1, 0]] (\<lambda>k. 1) (sample_pair_strip p)
             ([1, 1] ! p) (\<lambda>i j. 1) = Inr (sample_pair_result p)"
proof (intro allI impI)
  fix p :: nat assume "p < 2"
  then consider "p = 0" | "p = 1" by linarith
  then show "subdomain_deflation_setup 2 p [2, 2] [1, 1] [[0, 1], [1, 0]] (\<lambda>k. 1) (sample_pair_strip p)
             ([1, 1] ! p) (\<lambda>i j. 1) = Inr (sample_pair_result p)"
  proof cases
    case 1
    have "subdomain_deflation_setup 2 0 [2, 2] [1, 1] [[0, 1], [1, 0]] (\<lambda>k. 1) (sample_pair_strip 0)
             ([1, 1] ! 0) (\<lambda>i j. 1) = Inr (sample_pair_result 0)" by code_simp
    then show ?thesis unfolding 1 .
  next
    case 2
    have "subdomain_deflation_setup 2 1 [2, 2] [1, 1] [[0, 1], [1, 0]] (\<lambda>k. 1) (sample_pair_strip 1)
             ([1, 1] ! 1) (\<lambda>i j. 1) = Inr (sample_pair_result 1)" by code_simp
    then show ?thesis unfolding 2 .
  qed
qed

lemma sample_pair_strips:
  "\<forall>p<2. coarse_strip (sample_pair_result p) ([1, 1] ! p) (\<lambda>i j. 1) 2 p = Inr (sample_pair_E p)"
proof (intro allI impI)
  fix p :: nat assume "p < 2"
  then consider "p = 0" | "p = 1" by linarith
  then show "coarse_strip (sample_pair_result p) ([1, 1] ! p) (\<lambda>i j. 1) 2 p = Inr (sample_pair_E p)"
  proof cases
    case 1
    have "coarse_strip (sample_pair_result 0) ([1, 1] ! 0) (\<lambda>i j. 1) 2 0 = Inr (sample_pair_E 0)"
      by code_simp
    then show ?thesis unfolding 1 .
  next
    case 2
    have "coarse_strip (sample_pair_result 1) ([1, 1] ! 1) (\<lambda>i j. 1) 2 1 = Inr (sample_pair_E 1)"
      by code_simp
    then show ?thesis unfolding 2 .
  qed
qed

lemma sample_pair_inverse:
  "inverse_of (concat (map (\<lambda>p. e_rows (sample_pair_E p)) [0..<2]))
     (master_sizes [0, 1, 2] sample_pair_topology) sample_pair_solver"
proof -
  have rows: "concat (map (\<lambda>p. e_rows (sample_pair_E p)) [0..<2])
            = [[(0, 2), (1, - 1)], [(0, - 1), (1, 2)]]" by code_simp
  have sizes: "master_sizes [0, 1, 2] sample_pair_topology = [2]" by code_simp
  have shape: "\<exists>a b. c = [[a, b]]" if "map length c = [2]" for c :: "real list list"
  proof -
    from that obtain r where c: "c = [r]" and "length r = 2" by (auto simp: map_eq_Cons_conv)
    then obtain a b where "r = [a, b]"
      by (metis (no_types, opaque_lifting) One_nat_def Suc_1 length_0_conv length_Suc_conv)
    then show ?thesis using c by blast
  qed
  show ?thesis
    unfolding inverse_of_def rows sizes
  proof (intro allI impI conjI)
    fix cf :: "real list list" assume "map length cf = [2]"
    from shape [OF this] obtain a b where cf: "cf = [[a, b]]" by blast
    show "map length (sample_pair_solver cf) = [2]" by (simp add: cf sample_pair_solver_def)
    fix cx :: "real list list" assume "map length cx = [2]"
    from shape [OF this] obtain c d where cx: "cx = [[c, d]]" by blast
    have "(2 * a + b) / 3 = c \<and> (a + 2 * b) / 3 = d \<longleftrightarrow> 2 * c - d = a \<and> 2 * d - c = b"
      by (auto simp: field_simps)
    then show "sample_pair_solver cf = cx
           \<longleftrightarrow> apply_rows [[(0, 2), (1, - 1)], [(0, - 1), (1, 2)]] (concat cx) = concat cf"
      by (simp add: cf cx sample_pair_solver_def apply_rows_def) 
  qed
qed

theorem project_idempotent_witness:
  "project sample_pair_ranks [0, 1, 2] sample_pair_topology sample_pair_solver ([0, 0], [[1, 2], [3, 4]])
     = Inr ([13 / 3, 17 / 3], [[- 10 / 3, 10 / 3], [5 / 3, - 5 / 3]])
   \<and> (\<exists>dx2. project sample_pair_ranks [0, 1, 2] sample_pair_topology sample_pair_solver
               ([13 / 3, 17 / 3], [[- 10 / 3, 10 / 3], [5 / 3, - 5 / 3]])
             = Inr (dx2, [[- 10 / 3, 10 / 3], [5 / 3, - 5 / 3]]))"
proof -
  have lens: "length [2, 2 :: nat] = 2" "length [1, 1 :: nat] = 2"
    "\<forall>p<2. length [[0, 1], [1, 0 :: nat]] = 2" by simp_all
  have ds: "[0, 1, 2] = 0 # partial_sum [1, 1 :: nat]" by code_simp
  have top: "master_topology (int 2) 0 (\<lambda>k. 1) (int (last [0, 1, 2])) = Inr sample_pair_topology"
    by (simp add: master_topology_def slaves_per_master_def signed_divide_int_def Let_def
          sample_pair_topology_def upto.simps)
  have P: "1 \<le> (2 :: nat)" and cs: "1 \<le> (\<lambda>k :: int. 1 :: int) (int (last [0, 1, 2]))" by simp_all
  have shapes: "length [0, 0 :: real] = last [0, 1, 2 :: nat]" "length [[1, 2], [3, 4 :: real]] = 2"
    "\<forall>p<2. length ([[1, 2], [3, 4 :: real]] ! p) = length (sample_pair_strip p)"
    by (simp_all add: sample_pair_strip_def less_2_cases_iff)
  from project_idempotent [OF sample_pair_built sample_pair_strips lens ds top P cs
      sample_pair_inverse sample_pair_ranks_def shapes]
  obtain dx1 ys where
    r1: "project sample_pair_ranks [0, 1, 2] sample_pair_topology sample_pair_solver
           ([0, 0], [[1, 2], [3, 4]]) = Inr (dx1, ys)"
    and r2: "\<exists>dx2. project sample_pair_ranks [0, 1, 2] sample_pair_topology sample_pair_solver (dx1, ys)
               = Inr (dx2, ys)"
    by blast
  have c: "project sample_pair_ranks [0, 1, 2] sample_pair_topology sample_pair_solver
           ([0, 0], [[1, 2], [3, 4]]) = Inr ([13 / 3, 17 / 3], [[- 10 / 3, 10 / 3], [5 / 3, - 5 / 3]])"
    by code_simp
  from r1 c have "dx1 = [13 / 3, 17 / 3]" "ys = [[- 10 / 3, 10 / 3], [5 / 3, - 5 / 3]]" by simp_all
  then show ?thesis using c r2 by simp
qed

end
